(* ===== verification/Prelude.thy ===== *)
theory Prelude
  imports Complex_Main "HOL-Library.Word" "HOL-Library.AList" "HOL-Library.While_Combinator"
begin

text \<open>
  Shared vocabulary of the development: Python results with their exceptions, Python loops,
  dictionaries in insertion order, byte strings and big-endian integers, and the float
  operations the node uses.
  \<^item> \<open>'a res\<close> is the outcome of a Python call: \<open>Inl e\<close> when it raises \<open>e\<close>, \<open>Inr v\<close> when it
    returns \<open>v\<close>. \<open>rbind\<close> runs one statement after another.
  \<^item> \<open>rmap\<close> and \<open>rfold\<close> are the \<open>for\<close> loops, \<open>py_while\<close> is the \<open>while\<close> loop; a loop that never
    ends has the outcome \<open>Inl Diverges\<close>, so that termination is a property to be proved.
  \<^item> \<open>('k, 'v) dict\<close> is an association list; \<open>AList.update\<close> keeps the position of an existing key
    and appends a new one, as a Python dictionary does.
\<close>

named_theorems res_simps \<open>equations that evaluate results\<close>

section \<open>Outcomes of Python code\<close>

datatype py_exc =
    AssertionError
  | ValueError
  | KeyError
  | IndexError
  | ZeroDivisionError
  | TypeError
  | OverflowError
  | NotImplementedError
  | RuntimeError
  | SetError
  | DbError
  | Diverges

type_synonym 'a res = "py_exc + 'a"

definition rbind :: "'e + 'a \<Rightarrow> ('a \<Rightarrow> 'e + 'b) \<Rightarrow> 'e + 'b" where
  "rbind m f = (case m of Inl e \<Rightarrow> Inl e | Inr x \<Rightarrow> f x)"

definition rassert :: "bool \<Rightarrow> 'a res \<Rightarrow> 'a res" where
  "rassert b m = (if b then m else Inl AssertionError)"

lemma rbind_Inl [simp, res_simps]: "rbind (Inl e) f = Inl e"
  by (simp add: rbind_def)

lemma rbind_Inr [simp, res_simps]: "rbind (Inr x) f = f x"
  by (simp add: rbind_def)

lemma rassert_True [simp, res_simps]: "rassert True m = m"
  by (simp add: rassert_def)

lemma rassert_False [simp, res_simps]: "rassert False m = Inl AssertionError"
  by (simp add: rassert_def)

lemma rbind_eq_Inr: "rbind m f = Inr y \<longleftrightarrow> (\<exists>x. m = Inr x \<and> f x = Inr y)"
  by (cases m) simp_all

lemma Inr_eq_rbind: "Inr y = rbind m f \<longleftrightarrow> (\<exists>x. m = Inr x \<and> f x = Inr y)"
  by (cases m) auto

lemma rassert_eq_Inr: "rassert b m = Inr y \<longleftrightarrow> b \<and> m = Inr y"
  by (simp add: rassert_def)

lemma rbind_InrE [elim]:
  assumes "rbind m f = Inr y"
  obtains x where "m = Inr x" and "f x = Inr y"
  using assms by (auto simp: rbind_eq_Inr)

lemma rbind_cong [fundef_cong]:
  "m = m' \<Longrightarrow> (\<And>x. m' = Inr x \<Longrightarrow> f x = g x) \<Longrightarrow> rbind m f = rbind m' g"
  by (cases m') simp_all

lemma rassert_cong [fundef_cong]:
  "b = b' \<Longrightarrow> (b' \<Longrightarrow> m = m') \<Longrightarrow> rassert b m = rassert b' m'"
  by (cases b') simp_all

lemma rbind_assoc: "rbind (rbind m f) g = rbind m (\<lambda>x. rbind (f x) g)"
  by (cases m) simp_all

lemmas res_conv = rbind_eq_Inr Inr_eq_rbind rassert_eq_Inr

section \<open>Loops\<close>

fun rmap :: "('a \<Rightarrow> 'e + 'b) \<Rightarrow> 'a list \<Rightarrow> 'e + 'b list" where
  "rmap f [] = Inr []"
| "rmap f (x # xs) = rbind (f x) (\<lambda>y. rbind (rmap f xs) (\<lambda>ys. Inr (y # ys)))"

fun rfold :: "('a \<Rightarrow> 's \<Rightarrow> 'e + 's) \<Rightarrow> 'a list \<Rightarrow> 's \<Rightarrow> 'e + 's" where
  "rfold f [] s = Inr s"
| "rfold f (x # xs) s = rbind (f x s) (rfold f xs)"

lemma rmap_cong [fundef_cong]:
  assumes "xs = ys" and "\<And>x. x \<in> set ys \<Longrightarrow> f x = g x"
  shows "rmap f xs = rmap g ys"
proof -
  have "rmap f ys = rmap g ys"
    using assms(2) by (induction ys) simp_all
  with assms(1) show ?thesis by simp
qed

lemma rfold_append: "rfold f (xs @ ys) s = rbind (rfold f xs s) (rfold f ys)"
proof (induction xs arbitrary: s)
  case (Cons x xs)
  then have "rfold f (xs @ ys) = (\<lambda>s. rbind (rfold f xs s) (rfold f ys))" by (simp add: fun_eq_iff)
  then show ?case by (simp add: rbind_assoc)
qed simp

lemma rmap_Inr_length: "rmap f xs = Inr ys \<Longrightarrow> length ys = length xs"
  by (induction xs arbitrary: ys) (auto simp: res_conv)

lemma rmap_Inr_iff: "rmap f xs = Inr ys \<longleftrightarrow> list_all2 (\<lambda>x y. f x = Inr y) xs ys"
proof (induction xs arbitrary: ys)
  case Nil
  then show ?case by auto
next
  case (Cons x xs)
  then show ?case by (cases ys) (auto simp: res_conv)
qed

lemma rmap_Inr_set: "rmap f xs = Inr ys \<Longrightarrow> y \<in> set ys \<Longrightarrow> \<exists>x \<in> set xs. f x = Inr y"
  by (induction xs arbitrary: ys) (auto elim!: rbind_InrE)

lemma rmap_total: "(\<And>x. x \<in> set xs \<Longrightarrow> f x = Inr (g x)) \<Longrightarrow> rmap f xs = Inr (map g xs)"
  by (induction xs) simp_all

lemma rfold_invariant:
  assumes "rfold f xs s = Inr t" and "P s"
    and "\<And>x s t. x \<in> set xs \<Longrightarrow> P s \<Longrightarrow> f x s = Inr t \<Longrightarrow> P t"
  shows "P t"
  using assms
proof (induction xs arbitrary: s)
  case Nil
  then show ?case by simp
next
  case (Cons x xs)
  from Cons.prems(1) obtain u where u: "f x s = Inr u" and rest: "rfold f xs u = Inr t"
    by (auto simp: res_conv)
  have "P u" using Cons.prems(3) [OF _ Cons.prems(2) u] by simp
  show ?case by (rule Cons.IH [OF rest \<open>P u\<close>]) (rule Cons.prems(3), simp_all)
qed

lemma rfold_total: "(\<And>x s. x \<in> set xs \<Longrightarrow> f x s = Inr (g x s)) \<Longrightarrow> rfold f xs s = Inr (fold g xs s)"
  by (induction xs arbitrary: s) simp_all

text \<open>The \<open>while\<close> loop with a body that may raise.\<close>

definition py_while :: "('s \<Rightarrow> bool) \<Rightarrow> ('s \<Rightarrow> 's res) \<Rightarrow> 's \<Rightarrow> 's res" where
  "py_while b c s =
     (case while_option (\<lambda>r. case r of Inl _ \<Rightarrow> False | Inr t \<Rightarrow> b t) (\<lambda>r. rbind r c) (Inr s) of
        None \<Rightarrow> Inl Diverges
      | Some r \<Rightarrow> r)"

lemma py_while_unfold: "py_while b c s = (if b s then rbind (c s) (py_while b c) else Inr s)"
proof (cases "b s")
  case True
  show ?thesis
  proof (cases "c s")
    case (Inl e)
    with True show ?thesis
      by (simp add: py_while_def while_option_unfold [of _ _ "Inr s"] while_option_unfold [of _ _ "Inl e"])
  next
    case (Inr t)
    with True show ?thesis
      by (simp add: py_while_def while_option_unfold [of _ _ "Inr s"])
  qed
next
  case False
  then show ?thesis
    by (simp add: py_while_def while_option_unfold [of _ _ "Inr s"])
qed

lemma py_while_done [simp]: "\<not> b s \<Longrightarrow> py_while b c s = Inr s"
  by (simp add: py_while_unfold [of b c s])

lemma py_while_step: "b s \<Longrightarrow> c s = Inr t \<Longrightarrow> py_while b c s = py_while b c t"
  by (simp add: py_while_unfold [of b c s])

lemma py_while_raise: "b s \<Longrightarrow> c s = Inl e \<Longrightarrow> py_while b c s = Inl e"
  by (simp add: py_while_unfold [of b c s])

text \<open>
  Total correctness: an invariant the body keeps, a measure it decreases, and a body that
  returns; then the loop returns and the result satisfies the invariant and the failed guard.
\<close>

lemma py_while_total:
  fixes m :: "'s \<Rightarrow> nat"
  assumes "P s"
    and "\<And>s. P s \<Longrightarrow> b s \<Longrightarrow> \<exists>t. c s = Inr t \<and> P t \<and> m t < m s"
  shows "\<exists>t. py_while b c s = Inr t \<and> P t \<and> \<not> b t"
  using assms(1)
proof (induction "m s" arbitrary: s rule: less_induct)
  case less
  show ?case
  proof (cases "b s")
    case True
    with assms(2) less.prems obtain t where t: "c s = Inr t" "P t" "m t < m s" by blast
    with less.hyps show ?thesis using True by (simp add: py_while_step)
  next
    case False
    with less.prems show ?thesis by auto
  qed
qed

text \<open>Partial correctness: what the invariant gives for a loop that returns.\<close>

lemma while_option_Inl: "while_option (\<lambda>r. case r of Inl _ \<Rightarrow> False | Inr t \<Rightarrow> b t) (\<lambda>r. rbind r c) (Inl e) = Some (Inl e)"
  by (subst while_option_unfold) simp

lemma py_while_partial:
  assumes "py_while b c s = Inr t" and "P s"
    and "\<And>s t. P s \<Longrightarrow> b s \<Longrightarrow> c s = Inr t \<Longrightarrow> P t"
  shows "P t \<and> \<not> b t"
proof -
  let ?b = "\<lambda>r. case r of Inl _ \<Rightarrow> False | Inr t \<Rightarrow> b t" and ?c = "\<lambda>r. rbind r c"
  let ?P = "\<lambda>r. case r of Inl _ \<Rightarrow> True | Inr t \<Rightarrow> P t"
  from assms(1) have w: "while_option ?b ?c (Inr s) = Some (Inr t)"
    by (auto simp: py_while_def split: option.splits)
  have step: "?P (?c r)" if "?P r" and "?b r" for r
    using that assms(3) by (auto split: sum.splits)
  have "?P (Inr t)"
    using while_option_rule [where P = ?P, OF step w] assms(2) by simp
  moreover have "\<not> ?b (Inr t)"
    using while_option_stop [OF w] by simp
  ultimately show ?thesis by simp
qed

text \<open>Exceptional exits: with a decreasing measure the loop never diverges.\<close>

lemma py_while_not_diverges:
  fixes m :: "'s \<Rightarrow> nat"
  assumes "P s"
    and "\<And>s t. P s \<Longrightarrow> b s \<Longrightarrow> c s = Inr t \<Longrightarrow> P t \<and> m t < m s"
    and "\<And>s. P s \<Longrightarrow> b s \<Longrightarrow> c s \<noteq> Inl Diverges"
  shows "py_while b c s \<noteq> Inl Diverges"
  using assms(1)
proof (induction "m s" arbitrary: s rule: less_induct)
  case less
  show ?case
  proof (cases "b s")
    case True
    show ?thesis
    proof (cases "c s")
      case (Inl e)
      with True less.prems assms(3) show ?thesis by (auto simp: py_while_raise)
    next
      case (Inr t)
      with True less.prems assms(2) have "P t" "m t < m s" by blast+
      with less.hyps Inr True show ?thesis by (simp add: py_while_step)
    qed
  next
    case False
    then show ?thesis by simp
  qed
qed

section \<open>Code that cannot loop forever\<close>

text \<open>\<open>halts m\<close>: the outcome is a value or an exception. The rules decompose straight-line code.\<close>

named_theorems halts_intros \<open>introduction rules for halts\<close>

definition halts :: "'a res \<Rightarrow> bool" where
  "halts m \<longleftrightarrow> m \<noteq> Inl Diverges"

lemma halts_Inr [simp, halts_intros]: "halts (Inr x)"
  by (simp add: halts_def)

lemma halts_Inl [simp]: "halts (Inl e) \<longleftrightarrow> e \<noteq> Diverges"
  by (simp add: halts_def)

lemma halts_rbind [halts_intros]: "halts m \<Longrightarrow> (\<And>x. m = Inr x \<Longrightarrow> halts (f x)) \<Longrightarrow> halts (rbind m f)"
  by (cases m) simp_all

lemma halts_rassert [halts_intros]: "halts m \<Longrightarrow> halts (rassert b m)"
  by (cases b) simp_all

lemma halts_if [halts_intros]: "(b \<Longrightarrow> halts m) \<Longrightarrow> (\<not> b \<Longrightarrow> halts n) \<Longrightarrow> halts (if b then m else n)"
  by simp

lemma halts_option [halts_intros]:
  "(x = None \<Longrightarrow> halts m) \<Longrightarrow> (\<And>y. x = Some y \<Longrightarrow> halts (f y)) \<Longrightarrow> halts (case x of None \<Rightarrow> m | Some y \<Rightarrow> f y)"
  by (cases x) simp_all

lemma halts_prod [halts_intros]: "(\<And>a b. p = (a, b) \<Longrightarrow> halts (f a b)) \<Longrightarrow> halts (case p of (a, b) \<Rightarrow> f a b)"
  by (cases p) simp

lemma halts_rmap [halts_intros]: "(\<And>x. x \<in> set xs \<Longrightarrow> halts (f x)) \<Longrightarrow> halts (rmap f xs)"
  by (induction xs) (auto intro!: halts_intros)

lemma halts_rfold: "(\<And>x s. x \<in> set xs \<Longrightarrow> halts (f x s)) \<Longrightarrow> halts (rfold f xs s)"
  by (induction xs arbitrary: s) (auto intro!: halts_intros)

section \<open>Lists\<close>

text \<open>Indexing: negative indices count from the end, an index out of range raises.\<close>

definition py_index :: "'a list \<Rightarrow> int \<Rightarrow> 'a res" where
  "py_index xs i =
     (if 0 \<le> i \<and> i < int (length xs) then Inr (xs ! nat i)
      else if i < 0 \<and> - int (length xs) \<le> i then Inr (xs ! nat (int (length xs) + i))
      else Inl IndexError)"

lemma halts_py_index [halts_intros]: "halts (py_index xs i)"
  by (simp add: py_index_def)

lemma py_index_in_set: "py_index xs i = Inr x \<Longrightarrow> x \<in> set xs"
  by (auto simp: py_index_def split: if_splits)

section \<open>Dictionaries\<close>

type_synonym ('k, 'v) dict = "('k \<times> 'v) list"

abbreviation dkeys :: "('k, 'v) dict \<Rightarrow> 'k list" where
  "dkeys d \<equiv> map fst d"

abbreviation dvalues :: "('k, 'v) dict \<Rightarrow> 'v list" where
  "dvalues d \<equiv> map snd d"

definition dget :: "('k, 'v) dict \<Rightarrow> 'k \<Rightarrow> 'v res" where
  "dget d k = (case map_of d k of None \<Rightarrow> Inl KeyError | Some v \<Rightarrow> Inr v)"

definition dput :: "'k \<Rightarrow> 'v \<Rightarrow> ('k, 'v) dict \<Rightarrow> ('k, 'v) dict" where
  "dput k v d = AList.update k v d"

definition ddel :: "'k \<Rightarrow> ('k, 'v) dict \<Rightarrow> ('k, 'v) dict res" where
  "ddel k d = (if k \<in> set (dkeys d) then Inr (AList.delete k d) else Inl KeyError)"

definition din :: "'k \<Rightarrow> ('k, 'v) dict \<Rightarrow> bool" where
  "din k d \<longleftrightarrow> k \<in> set (dkeys d)"

lemma din_map_of: "din k d \<longleftrightarrow> map_of d k \<noteq> None"
  by (auto simp: din_def map_of_eq_None_iff)

lemma not_din_map_of: "\<not> din k d \<longleftrightarrow> map_of d k = None"
  by (simp add: din_map_of)

lemma halts_dget [halts_intros]: "halts (dget d k)"
  by (simp add: dget_def split: option.splits)

lemma dget_Inr: "dget d k = Inr v \<longleftrightarrow> map_of d k = Some v"
  by (simp add: dget_def split: option.splits)

lemma dget_Inl: "dget d k = Inl e \<longleftrightarrow> e = KeyError \<and> map_of d k = None"
  by (auto simp: dget_def split: option.splits)

lemma map_of_dput [simp]: "map_of (dput k v d) = (map_of d)(k \<mapsto> v)"
  by (simp add: dput_def update_conv')

lemma map_of_AList_delete [simp]: "map_of (AList.delete k d) = (map_of d)(k := None)"
  by (simp add: delete_conv')

lemma distinct_dput [simp]: "distinct (dkeys d) \<Longrightarrow> distinct (dkeys (dput k v d))"
  by (simp add: dput_def distinct_update)

lemma distinct_AList_delete [simp]: "distinct (dkeys d) \<Longrightarrow> distinct (dkeys (AList.delete k d))"
  by (simp add: distinct_delete)

lemma set_dkeys_dput [simp]: "set (dkeys (dput k v d)) = insert k (set (dkeys d))"
  by (simp add: dput_def dom_update)

lemma set_dkeys_delete [simp]: "set (dkeys (AList.delete k d)) = set (dkeys d) - {k}"
  by (simp add: delete_keys)

lemma din_dput [simp]: "din j (dput k v d) \<longleftrightarrow> j = k \<or> din j d"
  unfolding din_def set_dkeys_dput by simp

lemma din_delete [simp]: "din j (AList.delete k d) \<longleftrightarrow> j \<noteq> k \<and> din j d"
  unfolding din_def set_dkeys_delete by auto

lemma dput_fresh: "\<not> din k d \<Longrightarrow> dput k v d = d @ [(k, v)]"
  by (induction d) (auto simp: dput_def din_def)

lemma dput_append_fresh: "\<not> din k d1 \<Longrightarrow> dput k v (d1 @ d2) = d1 @ dput k v d2"
  by (induction d1) (auto simp: dput_def din_def)

lemma length_dput: "length (dput k v d) = (if din k d then length d else Suc (length d))"
  by (induction d) (auto simp: dput_def din_def)

lemma ddel_Inr: "ddel k d = Inr d' \<longleftrightarrow> din k d \<and> d' = AList.delete k d"
  by (auto simp: ddel_def din_def)

lemma ddel_din [simp, res_simps]: "din k d \<Longrightarrow> ddel k d = Inr (AList.delete k d)"
  by (simp add: ddel_def din_def)

lemma map_of_Some_dvalues: "map_of d k = Some v \<Longrightarrow> v \<in> set (dvalues d)"
  by (metis map_of_SomeD image_eqI set_map snd_conv)

lemma map_of_Some_din: "map_of d k = Some v \<Longrightarrow> din k d"
  by (simp add: din_map_of)

lemma distinct_map_of_iff:
  "distinct (dkeys d) \<Longrightarrow> map_of d k = Some v \<longleftrightarrow> (k, v) \<in> set d"
  by (metis map_of_SomeD map_of_is_SomeI)

text \<open>Sums over the values of a dictionary, used for the cost counters.\<close>

definition dsum :: "('v \<Rightarrow> int) \<Rightarrow> ('k, 'v) dict \<Rightarrow> int" where
  "dsum f d = sum_list (map (\<lambda>(k, v). f v) d)"

lemma dsum_Nil [simp]: "dsum f [] = 0"
  by (simp add: dsum_def)

lemma dsum_Cons [simp]: "dsum f ((k, v) # d) = f v + dsum f d"
  by (simp add: dsum_def)

lemma dsum_append [simp]: "dsum f (d @ e) = dsum f d + dsum f e"
  by (simp add: dsum_def)

lemma dsum_fresh: "\<not> din k d \<Longrightarrow> dsum f (dput k v d) = dsum f d + f v"
  by (simp add: dput_fresh)

lemma delete_fresh: "\<not> din k d \<Longrightarrow> AList.delete k d = d"
  by (simp add: din_def delete_idem)

lemma delete_Cons: "AList.delete k ((j, v) # d) = (if j = k then AList.delete k d else (j, v) # AList.delete k d)"
  by simp

lemma dsum_delete:
  "distinct (dkeys d) \<Longrightarrow> map_of d k = Some v \<Longrightarrow> dsum f (AList.delete k d) = dsum f d - f v"
proof (induction d)
  case Nil
  then show ?case by simp
next
  case (Cons p d)
  obtain j w where p: "p = (j, w)" by (cases p)
  show ?case
  proof (cases "j = k")
    case True
    with Cons.prems p have "\<not> din k d" by (auto simp: din_def)
    with True p Cons.prems show ?thesis by (simp add: delete_Cons delete_fresh)
  next
    case False
    with Cons.prems p have "map_of d k = Some v" by simp
    with Cons p False show ?thesis by (simp add: delete_Cons)
  qed
qed

lemma dsum_nonneg: "(\<And>k v. (k, v) \<in> set d \<Longrightarrow> 0 \<le> f v) \<Longrightarrow> 0 \<le> dsum f d"
  by (auto simp: dsum_def intro!: sum_list_nonneg)

end
