(* ===== verification/SigBits.thy ===== *)
theory SigBits
  imports Prelude
begin

text \<open>
  \<^verbatim>\<open>hddcoin/util/significant_bits.py\<close>: difficulty and sub-slot iterations keep only their top bits.
  \<open>bit_length\<close> is Python's \<^verbatim>\<open>int.bit_length\<close>. The lemmas give the arithmetic meaning of the bit
  operations: truncation clears the low bits, i.e. rounds towards zero to a multiple of a power of 2.
\<close>

unbundle bit_operations_syntax

fun nat_bit_length :: "nat \<Rightarrow> nat" where
  "nat_bit_length n = (if n = 0 then 0 else Suc (nat_bit_length (n div 2)))"

declare nat_bit_length.simps [simp del]

definition bit_length :: "int \<Rightarrow> nat" where
  "bit_length x = nat_bit_length (nat \<bar>x\<bar>)"

definition truncate_to_significant_bits :: "int \<Rightarrow> int \<Rightarrow> int" where
  "truncate_to_significant_bits input_x num_significant_bits =
     (let x = \<bar>input_x\<bar>
      in if num_significant_bits > int (bit_length x) then input_x
         else
           let lower = nat (int (bit_length x) - num_significant_bits);
               msk = push_bit (bit_length x) 1 - 1 - (push_bit lower 1 - 1)
           in if input_x < 0 then - (x AND msk) else x AND msk)"

definition count_significant_bits :: "int \<Rightarrow> int" where
  "count_significant_bits input_x =
     (case find (\<lambda>i. input_x AND push_bit i 1 > 0) [0..<bit_length input_x] of
        Some i \<Rightarrow> int (bit_length input_x) - int i
      | None \<Rightarrow> 0)"

section \<open>Arithmetic meaning\<close>

lemma nat_bit_length_0 [simp]: "nat_bit_length 0 = 0"
  by (simp add: nat_bit_length.simps)

lemma nat_bit_length_le: "n < 2 ^ b \<Longrightarrow> nat_bit_length n \<le> b"
proof (induction n arbitrary: b rule: nat_bit_length.induct)
  case (1 n)
  show ?case
  proof (cases "n = 0")
    case False
    with 1(2) obtain c where b: "b = Suc c" by (cases b) auto
    with 1(2) have "n div 2 < 2 ^ c" by (simp add: less_mult_imp_div_less mult.commute)
    from 1(1) [OF False this] b False show ?thesis by (simp add: nat_bit_length.simps [of n])
  qed simp
qed

lemma less_nat_bit_length: "n < 2 ^ nat_bit_length n"
proof (induction n rule: nat_bit_length.induct)
  case (1 n)
  show ?case
  proof (cases "n = 0")
    case False
    have "n < 2 * (n div 2 + 1)" by simp
    also have "\<dots> \<le> 2 * 2 ^ nat_bit_length (n div 2)" using 1 [OF False] by simp
    also have "\<dots> = 2 ^ nat_bit_length n" using False by (simp add: nat_bit_length.simps [of n])
    finally show ?thesis .
  qed simp
qed

lemma bit_length_bound: "0 \<le> x \<Longrightarrow> x < 2 ^ bit_length x"
  using less_nat_bit_length [of "nat x"] by (simp add: bit_length_def nat_less_iff)

lemma bit_length_le: "0 \<le> x \<Longrightarrow> x < 2 ^ b \<Longrightarrow> bit_length x \<le> b"
  by (simp add: bit_length_def nat_bit_length_le nat_less_iff)

lemma bit_length_0 [simp]: "bit_length 0 = 0"
  by (simp add: bit_length_def)

lemma bit_length_minus [simp]: "bit_length (- x) = bit_length x" "bit_length \<bar>x\<bar> = bit_length x"
  by (simp_all add: bit_length_def)

lemma bit_length_lower: "0 < x \<Longrightarrow> 2 ^ (bit_length x - 1) \<le> x"
proof (rule ccontr)
  assume x: "0 < x" and "\<not> 2 ^ (bit_length x - 1) \<le> x"
  then have "bit_length x \<le> bit_length x - 1" by (intro bit_length_le) auto
  then have "bit_length x = 0" by simp
  with bit_length_bound [of x] x show False by simp
qed

lemma and_high_mask:
  fixes x :: int
  assumes "0 \<le> x" "x < 2 ^ b" "l \<le> b"
  shows "x AND (2 ^ b - 2 ^ l) = x - x mod 2 ^ l"
proof -
  have m: "2 ^ b - 2 ^ l = (push_bit l (mask (b - l)) :: int)"
    using assms(3) by (simp add: push_bit_eq_mult mask_eq_exp_minus_1 algebra_simps flip: power_add)
  have xb: "take_bit b x = x" using assms by (simp add: take_bit_int_eq_self)
  have "x AND (2 ^ b - 2 ^ l) = push_bit l (drop_bit l x)"
  proof (rule bit_eqI)
    fix n
    have "bit x n \<Longrightarrow> n < b" using xb by (metis bit_take_bit_iff)
    then show "bit (x AND (2 ^ b - 2 ^ l)) n \<longleftrightarrow> bit (push_bit l (drop_bit l x)) n"
      unfolding m by (auto simp: bit_and_iff bit_push_bit_iff bit_mask_iff bit_drop_bit_eq)
  qed
  then show ?thesis by (simp add: push_bit_eq_mult drop_bit_eq_div minus_mod_eq_div_mult)
qed

lemma truncate_nonneg:
  assumes "0 \<le> x" "0 \<le> n" "n \<le> int (bit_length x)"
  shows "truncate_to_significant_bits x n = x - x mod 2 ^ (bit_length x - nat n)"
proof -
  have "nat (int (bit_length x) - n) = bit_length x - nat n" using assms by simp
  moreover have "x AND (2 ^ bit_length x - 2 ^ (bit_length x - nat n)) = x - x mod 2 ^ (bit_length x - nat n)"
    by (rule and_high_mask) (use assms bit_length_bound in auto)
  ultimately show ?thesis using assms
    by (simp add: truncate_to_significant_bits_def Let_def push_bit_eq_mult)
qed

lemma truncate_minus: "truncate_to_significant_bits (- x) n = - truncate_to_significant_bits x n"
  by (auto simp: truncate_to_significant_bits_def Let_def)

lemma truncate_large: "n > int (bit_length x) \<Longrightarrow> truncate_to_significant_bits x n = x"
  by (simp add: truncate_to_significant_bits_def)

lemma truncate_bounds:
  assumes "0 \<le> x" "0 < n"
  shows "0 \<le> truncate_to_significant_bits x n" "truncate_to_significant_bits x n \<le> x"
    and "0 < x \<Longrightarrow> 0 < truncate_to_significant_bits x n"
    and "x - truncate_to_significant_bits x n < 2 ^ (bit_length x - nat n)"
proof -
  let ?l = "bit_length x - nat n"
  have eq: "truncate_to_significant_bits x n = x - x mod 2 ^ ?l \<or> truncate_to_significant_bits x n = x"
    using truncate_nonneg [of x n] truncate_large [of x n] assms by force
  have m: "0 \<le> x mod 2 ^ ?l" "x mod 2 ^ ?l \<le> x" "x mod 2 ^ ?l < 2 ^ ?l"
    using assms by (simp_all add: zmod_le_nonneg_dividend)
  show "0 \<le> truncate_to_significant_bits x n" "truncate_to_significant_bits x n \<le> x"
    "x - truncate_to_significant_bits x n < 2 ^ ?l"
    using eq m assms by auto
  show "0 < truncate_to_significant_bits x n" if "0 < x"
  proof -
    have "(2 :: int) ^ ?l \<le> 2 ^ (bit_length x - 1)" using assms by (intro power_increasing) auto
    then have "x mod 2 ^ ?l < x" using bit_length_lower [OF that] m(3) by linarith
    with eq that show ?thesis by auto
  qed
qed

section \<open>Counting\<close>

lemma and_bit_pos: "0 < x AND 2 ^ i \<longleftrightarrow> bit x i" for x :: int
proof -
  have "x AND 2 ^ i = (if bit x i then 2 ^ i else 0)"
    by (rule bit_eqI) (auto simp: bit_and_iff bit_exp_iff)
  then show ?thesis by simp
qed

lemma count_le:
  assumes "0 \<le> x" "x < 2 ^ b" "2 ^ l dvd x"
  shows "count_significant_bits x \<le> int (b - l)"
proof (cases "find (\<lambda>i. x AND 2 ^ i > 0) [0..<bit_length x]")
  case (Some i)
  then have i: "bit x i" "i < bit_length x" by (auto simp: find_Some_iff and_bit_pos)
  have "l \<le> i"
  proof (rule ccontr)
    assume "\<not> l \<le> i"
    from assms(3) obtain k where "x = 2 ^ l * k" ..
    then have "x = push_bit l k" by (simp add: push_bit_eq_mult)
    with i \<open>\<not> l \<le> i\<close> show False by (simp add: bit_push_bit_iff)
  qed
  with bit_length_le [OF assms(1,2)] i(2) show ?thesis by (simp add: count_significant_bits_def Some)
qed (simp add: count_significant_bits_def)

text \<open>Every number has a window of as many bits as it has significant ones.\<close>

lemma count_window:
  assumes "0 < x"
  obtains l where "2 ^ l dvd x" "l < bit_length x" "count_significant_bits x = int (bit_length x - l)"
proof -
  obtain i where i: "bit x i"
  proof (rule ccontr)
    assume "\<not> thesis"
    with that have "x = 0" by (intro bit_eqI) auto
    with assms show False by simp
  qed
  have "i < bit_length x"
  proof (rule ccontr)
    assume "\<not> i < bit_length x"
    then have "take_bit i x = x" using bit_length_bound [of x] assms
      by (intro take_bit_int_eq_self) (auto intro: less_le_trans power_increasing)
    with i show False by (metis bit_take_bit_iff less_irrefl)
  qed
  with i have "find (\<lambda>i. x AND 2 ^ i > 0) [0..<bit_length x] \<noteq> None"
    by (auto simp: find_None_iff and_bit_pos)
  then obtain l where l: "find (\<lambda>i. x AND 2 ^ i > 0) [0..<bit_length x] = Some l" by blast
  then have *: "l < bit_length x" "\<And>j. j < l \<Longrightarrow> \<not> bit x j"
    by (auto simp: find_Some_iff and_bit_pos)
  have "take_bit l x = 0" using *(2) by (intro bit_eqI) (auto simp: bit_take_bit_iff)
  then have "2 ^ l dvd x" by (simp add: take_bit_eq_mod dvd_eq_mod_eq_0)
  with * l that show ?thesis by (auto simp: count_significant_bits_def)
qed

lemma count_truncate:
  assumes "0 \<le> x" "0 \<le> n"
  shows "count_significant_bits (truncate_to_significant_bits x n) \<le> n"
proof (cases "n > int (bit_length x)")
  case True
  with count_le [of x "bit_length x" 0] bit_length_bound assms show ?thesis
    by (simp add: truncate_large)
next
  case False
  let ?l = "bit_length x - nat n"
  have eq: "truncate_to_significant_bits x n = x - x mod 2 ^ ?l"
    using truncate_nonneg assms False by simp
  have "count_significant_bits (x - x mod 2 ^ ?l) \<le> int (bit_length x - ?l)"
  proof (rule count_le)
    show "0 \<le> x - x mod 2 ^ ?l" using assms by (simp add: zmod_le_nonneg_dividend)
    have "0 \<le> x mod 2 ^ ?l" by simp
    then show "x - x mod 2 ^ ?l < 2 ^ bit_length x" using bit_length_bound [OF assms(1)] by linarith
  qed (simp add: dvd_minus_mod)
  also have "\<dots> \<le> n" using assms False by simp
  finally show ?thesis by (simp add: eq)
qed

text \<open>Rounding down to a multiple of a power of two never adds significant bits.\<close>

lemma count_round_down:
  assumes "0 \<le> x"
  shows "count_significant_bits (x - x mod 2 ^ k) \<le> count_significant_bits x"
proof (cases "x = 0")
  case False
  with assms have "0 < x" by simp
  then obtain l where l: "2 ^ l dvd x" "l < bit_length x" "count_significant_bits x = int (bit_length x - l)"
    by (rule count_window)
  have "2 ^ l dvd x - x mod 2 ^ k"
  proof (cases "l \<le> k")
    case True
    have "(2 :: int) ^ l dvd 2 ^ k" using True by (simp add: le_imp_power_dvd)
    then show ?thesis by (rule dvd_trans [OF _ dvd_minus_mod])
  next
    case False
    have "(2 :: int) ^ k dvd 2 ^ l" using False by (simp add: le_imp_power_dvd)
    then have "2 ^ k dvd x" using l(1) by (rule dvd_trans)
    then have "x mod 2 ^ k = 0" by simp
    then show ?thesis using l(1) by (simp only: diff_zero)
  qed
  moreover have "0 \<le> x mod 2 ^ k" "x mod 2 ^ k \<le> x" using assms by (simp_all add: zmod_le_nonneg_dividend)
  ultimately have "count_significant_bits (x - x mod 2 ^ k) \<le> int (bit_length x - l)"
    using bit_length_bound [OF assms] by (intro count_le) linarith+
  then show ?thesis by (simp only: l(3))
qed simp

end
