(* ===== verification/PyFloat.thy ===== *)
theory PyFloat
  imports SigBits
begin

text \<open>
  Python floats as the rationals they denote. \<open>fl\<close> rounds to the nearest double (53 significant
  bits, ties to even), so \<open>py_true_div\<close> and \<open>py_fmul\<close> are the correctly rounded \<^verbatim>\<open>/\<close> and \<^verbatim>\<open>*\<close>; the
  magnitudes the node computes with (fees per cost, rewards) stay far inside the exponent range.
\<close>

definition pow2 :: "int \<Rightarrow> rat" where
  "pow2 e = (if 0 \<le> e then 2 ^ nat e else 1 / 2 ^ nat (- e))"

definition round_half_even :: "rat \<Rightarrow> int" where
  "round_half_even q =
     (let f = \<lfloor>q\<rfloor>; d = q - of_int f
      in if d < 1 / 2 then f else if d > 1 / 2 then f + 1 else if even f then f else f + 1)"

text \<open>The exponent of a positive rational: \<open>2 ^ e \<le> q < 2 ^ (e + 1)\<close>.\<close>

definition rat_exponent :: "rat \<Rightarrow> int" where
  "rat_exponent q =
     (let (a, b) = quotient_of q; k = int (bit_length a) - int (bit_length b)
      in if q < pow2 k then k - 1 else k)"

definition fl :: "rat \<Rightarrow> rat" where
  "fl q =
     (if q = 0 then 0
      else let e = rat_exponent \<bar>q\<bar> - 52 in of_int (round_half_even (q * pow2 (- e))) * pow2 e)"

text \<open>\<^verbatim>\<open>a / b\<close> on ints, \<^verbatim>\<open>x * y\<close> on floats, \<^verbatim>\<open>float(n)\<close> and \<^verbatim>\<open>int(x)\<close>.\<close>

definition py_true_div :: "int \<Rightarrow> int \<Rightarrow> rat res" where
  "py_true_div a b = (if b = 0 then Inl ZeroDivisionError else Inr (fl (of_int a / of_int b)))"

definition py_fmul :: "rat \<Rightarrow> rat \<Rightarrow> rat" where
  "py_fmul x y = fl (x * y)"

definition py_float :: "int \<Rightarrow> rat" where
  "py_float n = fl (of_int n)"

definition py_int :: "rat \<Rightarrow> int" where
  "py_int x = (if 0 \<le> x then \<lfloor>x\<rfloor> else \<lceil>x\<rceil>)"

section \<open>Exactness\<close>

lemma pow2_pos [simp]: "0 < pow2 e"
  by (simp add: pow2_def)

lemma pow2_add: "pow2 (a + b) = pow2 a * pow2 b"
proof -
  have "pow2 e = 2 powi e" for e by (simp add: pow2_def power_int_def inverse_eq_divide power_one_over)
  then show ?thesis by (simp add: power_int_add)
qed

lemma pow2_0 [simp]: "pow2 0 = 1"
  by (simp add: pow2_def)

lemma pow2_cancel [simp]: "pow2 (- e) * pow2 e = 1"
  by (simp flip: pow2_add)

lemma round_half_even_int [simp]: "round_half_even (of_int n) = n"
  by (simp add: round_half_even_def)

lemma fl_exact:
  assumes "q * pow2 (52 - rat_exponent \<bar>q\<bar>) = of_int m"
  shows "fl q = q"
proof (cases "q = 0")
  case False
  have "q = (q * pow2 (52 - rat_exponent \<bar>q\<bar>)) * pow2 (- (52 - rat_exponent \<bar>q\<bar>))"
    using pow2_cancel [of "- (52 - rat_exponent \<bar>q\<bar>)"] by (simp add: mult.assoc)
  also have "\<dots> = fl q" using assms False by (simp add: fl_def Let_def)
  finally show ?thesis ..
qed (simp add: fl_def)

lemma pow2_nat: "pow2 (int n) = 2 ^ n"
  by (simp add: pow2_def)

lemma bit_length_less: "0 < x \<Longrightarrow> 2 ^ bit_length x \<le> 2 * x"
proof -
  assume x: "0 < x"
  then have "bit_length x \<noteq> 0" using bit_length_bound [of x] by (cases "bit_length x") auto
  then have "(2 :: int) ^ bit_length x = 2 * 2 ^ (bit_length x - 1)" by (cases "bit_length x") auto
  with bit_length_lower [OF x] show ?thesis by simp
qed

lemma rat_exponent_int:
  assumes "0 < n"
  shows "rat_exponent (of_int n) = int (bit_length n) - 1"
proof -
  have q: "quotient_of (of_int n) = (n, 1)" by simp
  have b1: "bit_length 1 = 1" by (simp add: bit_length_def nat_bit_length.simps)
  have b: "bit_length n \<noteq> 0" using bit_length_bound [of n] assms by (cases "bit_length n") auto
  have "rat_of_int (2 ^ (bit_length n - 1)) \<le> of_int n" using bit_length_lower [OF assms] by (rule of_int_le_iff [THEN iffD2])
  moreover have "pow2 (int (bit_length n) - 1) = 2 ^ (bit_length n - 1)" using b by (simp add: pow2_def nat_diff_distrib)
  ultimately show ?thesis by (simp add: rat_exponent_def q b1)
qed

text \<open>Integers below \<open>2 ^ 53\<close> are doubles.\<close>

lemma fl_int:
  assumes "\<bar>n\<bar> < 2 ^ 53"
  shows "fl (of_int n) = of_int n"
proof (cases "n = 0")
  case False
  let ?b = "bit_length \<bar>n\<bar>"
  have "?b \<le> 53" using assms by (intro bit_length_le) auto
  then have "pow2 (52 - (int ?b - 1)) = 2 ^ (53 - ?b)" by (simp add: pow2_def nat_diff_distrib)
  moreover have "rat_exponent \<bar>of_int n\<bar> = int ?b - 1"
    using rat_exponent_int [of "\<bar>n\<bar>"] False by simp
  ultimately have "of_int n * pow2 (52 - rat_exponent \<bar>of_int n\<bar>) = of_int (n * 2 ^ (53 - ?b))" by simp
  then show ?thesis by (rule fl_exact)
qed (simp add: fl_def)

lemma pow2_diff: "pow2 (a - b) = pow2 a / pow2 b"
  using pow2_add [of "a - b" b] pow2_pos [of b] by (simp add: field_simps del: pow2_pos)

lemma pow2_mono: "a \<le> b \<Longrightarrow> pow2 a \<le> pow2 b"
proof -
  assume "a \<le> b"
  then have "pow2 b = pow2 a * 2 ^ nat (b - a)"
    using pow2_add [of a "b - a"] pow2_nat [of "nat (b - a)"] by simp
  moreover have "pow2 a * 1 \<le> pow2 a * 2 ^ nat (b - a)"
    by (rule mult_left_mono) (simp_all add: less_imp_le)
  ultimately show ?thesis by simp
qed

lemma rat_exponent_lower:
  assumes "0 < q"
  shows "pow2 (rat_exponent q) \<le> q"
proof -
  obtain a b where ab: "quotient_of q = (a, b)" by (cases "quotient_of q")
  have b: "0 < b" and q: "q = of_int a / of_int b"
    using quotient_of_denom_pos [OF ab] quotient_of_div [OF ab] by auto
  then have a: "0 < a" using assms by (simp add: zero_less_divide_iff)
  let ?k = "int (bit_length a) - int (bit_length b)"
  have "pow2 (?k - 1) = 2 ^ bit_length a / (2 * 2 ^ bit_length b)"
    by (simp add: pow2_diff pow2_nat) (simp add: pow2_def)
  also have "\<dots> \<le> of_int (2 * a) / (2 * 2 ^ bit_length b)"
    by (rule divide_right_mono) (use bit_length_less [OF a] of_int_le_iff [of "2 ^ bit_length a" "2 * a", where 'a = rat] in auto)
  also have "\<dots> = of_int a / 2 ^ bit_length b" by simp
  also have "\<dots> \<le> of_int a / of_int b"
  proof (rule divide_left_mono)
    have "b \<le> 2 ^ bit_length b" using bit_length_bound [of b] b by simp
    then show "rat_of_int b \<le> 2 ^ bit_length b"
      using of_int_le_iff [of b "2 ^ bit_length b", where 'a = rat] by simp
  qed (use a b in auto)
  finally have "pow2 (?k - 1) \<le> q" by (simp add: q)
  then show ?thesis by (auto simp: rat_exponent_def ab Let_def)
qed

text \<open>A number with at most 53 significant bits is a double.\<close>

lemma fl_dyadic:
  assumes "\<bar>m\<bar> < 2 ^ 53"
  shows "fl (of_int m * pow2 j) = of_int m * pow2 j"
proof (cases "m = 0")
  case False
  let ?q = "of_int m * pow2 j" and ?e = "rat_exponent \<bar>of_int m * pow2 j\<bar>"
  have q: "\<bar>?q\<bar> = of_int \<bar>m\<bar> * pow2 j" by (simp add: abs_mult less_imp_le)
  have "pow2 ?e \<le> \<bar>?q\<bar>" by (rule rat_exponent_lower) (simp add: False pow2_pos [THEN less_imp_neq, symmetric])
  also have "\<dots> < pow2 53 * pow2 j"
  proof -
    have "rat_of_int \<bar>m\<bar> < of_int (2 ^ 53)" using assms by (rule of_int_less_iff [THEN iffD2])
    then show ?thesis unfolding q by (intro mult_strict_right_mono) (simp_all add: pow2_def)
  qed
  also have "\<dots> = pow2 (53 + j)" by (simp add: pow2_add)
  finally have "?e < 53 + j" using pow2_mono [of "53 + j" ?e] by linarith
  then have "pow2 (j + (52 - ?e)) = 2 ^ nat (j + (52 - ?e))" by (simp add: pow2_def)
  then have "?q * pow2 (52 - ?e) = of_int (m * 2 ^ nat (j + (52 - ?e)))"
    by (simp add: mult.assoc flip: pow2_add)
  then show ?thesis by (rule fl_exact)
qed (simp add: fl_def)

end
