(* ===== verification/Ints.thy ===== *)
theory Ints
  imports Prelude
begin

text \<open>
  The sized integers and byte strings of \<^verbatim>\<open>hddcoin/util/struct_stream.py\<close>, \<^verbatim>\<open>hddcoin/util/ints.py\<close>
  and \<^verbatim>\<open>hddcoin/util/byte_types.py\<close>: construction with its range check, \<^verbatim>\<open>stream\<close> and \<^verbatim>\<open>parse\<close>.
  Python integers are \<open>int\<close>; a byte is an \<open>8 word\<close>; a binary stream is the list of the bytes still
  to be read, and a parser returns its value with the remaining stream.
  Laws: every constructor accepts exactly its range, \<^verbatim>\<open>parse\<close> after \<^verbatim>\<open>stream\<close> gives the value and the
  rest of the stream back, and \<^verbatim>\<open>parse\<close> accepts one encoding per value only.
\<close>

section \<open>Bytes and streams\<close>

type_synonym byte = "8 word"
type_synonym bytes = "byte list"
type_synonym 'a parser = "bytes \<Rightarrow> ('a \<times> bytes) res"

text \<open>\<^verbatim>\<open>f.read(n)\<close>: at most \<open>n\<close> bytes, fewer at the end of the stream.\<close>

definition f_read :: "nat \<Rightarrow> bytes \<Rightarrow> bytes \<times> bytes" where
  "f_read n f = (take n f, drop n f)"

text \<open>\<^verbatim>\<open>int.to_bytes\<close> and \<^verbatim>\<open>int.from_bytes\<close>, big-endian, on \<open>n\<close> bytes.\<close>

fun be_bytes :: "nat \<Rightarrow> int \<Rightarrow> bytes" where
  "be_bytes 0 x = []"
| "be_bytes (Suc n) x = be_bytes n (x div 256) @ [word_of_int x]"

definition be_int :: "bytes \<Rightarrow> int" where
  "be_int bs = foldl (\<lambda>a b. a * 256 + uint b) 0 bs"

definition be_int_signed :: "bytes \<Rightarrow> int" where
  "be_int_signed bs =
     (let u = be_int bs; n = 8 * length bs in if n > 0 \<and> u \<ge> 2 ^ (n - 1) then u - 2 ^ n else u)"

definition to_bytes_unsigned :: "nat \<Rightarrow> int \<Rightarrow> bytes res" where
  "to_bytes_unsigned n x = (if 0 \<le> x \<and> x < 256 ^ n then Inr (be_bytes n x) else Inl OverflowError)"

definition to_bytes_signed :: "nat \<Rightarrow> int \<Rightarrow> bytes res" where
  "to_bytes_signed n x =
     (if - (2 ^ (8 * n - 1)) \<le> x \<and> x < 2 ^ (8 * n - 1) then Inr (be_bytes n x) else Inl OverflowError)"

lemma length_be_bytes [simp]: "length (be_bytes n x) = n"
  by (induction n arbitrary: x) simp_all

lemma be_int_Nil [simp]: "be_int [] = 0"
  by (simp add: be_int_def)

lemma be_int_snoc [simp]: "be_int (bs @ [b]) = be_int bs * 256 + uint b"
  by (simp add: be_int_def)

lemma be_int_nonneg [simp]: "0 \<le> be_int bs"
  by (induction bs rule: rev_induct) simp_all

lemma uint_byte_bounds: "0 \<le> uint (b :: byte)" "uint (b :: byte) < 256"
  using uint_lt2p [of b] by simp_all

lemma be_int_less: "be_int bs < 256 ^ length bs"
proof (induction bs rule: rev_induct)
  case (snoc b bs)
  have "uint b < 256" by (rule uint_byte_bounds)
  with snoc show ?case by simp
qed simp

lemma be_int_be_bytes: "be_int (be_bytes n x) = x mod 256 ^ n"
proof (induction n arbitrary: x)
  case (Suc n)
  have "x mod (256 * 256 ^ n) = 256 * (x div 256 mod 256 ^ n) + x mod 256"
    by (rule zmod_zmult2_eq) simp
  with Suc show ?case by (simp add: uint_word_of_int)
qed simp

lemma be_bytes_be_int: "be_bytes (length bs) (be_int bs) = bs"
proof (induction bs rule: rev_induct)
  case (snoc b bs)
  have b: "0 \<le> uint b" "uint b < 256" by (rule uint_byte_bounds)+
  then have "(be_int bs * 256 + uint b) div 256 = be_int bs" by simp
  moreover have "word_of_int (be_int bs * 256 + uint b) = b"
  proof -
    have "word_of_int (be_int bs * 256 + uint b) = (word_of_int (uint b) :: byte)"
      by (rule word_of_int_eq_iff [THEN iffD2]) (simp add: take_bit_eq_mod)
    then show ?thesis by simp
  qed
  ultimately show ?case using snoc by simp
qed simp

lemma be_int_inject: "length as = length bs \<Longrightarrow> be_int as = be_int bs \<longleftrightarrow> as = bs"
  by (metis be_bytes_be_int)

lemma be_bytes_mod: "be_bytes n (x mod 256 ^ n) = be_bytes n x"
  by (rule be_int_inject [THEN iffD1]) (simp_all add: be_int_be_bytes)

lemma pow2_8: "(2 :: int) ^ (8 * n) = 256 ^ n"
  by (simp add: power_mult)

lemma be_int_signed_be_bytes:
  assumes "0 < n" and "- (2 ^ (8 * n - 1)) \<le> x" and "x < 2 ^ (8 * n - 1)"
  shows "be_int_signed (be_bytes n x) = x"
proof -
  have h: "(256 :: int) ^ n = 2 * 2 ^ (8 * n - 1)"
    using assms(1) by (metis pow2_8 power_eq_if mult_is_0 neq0_conv zero_neq_numeral)
  have "x mod 256 ^ n = (if x < 0 then x + 256 ^ n else x)"
  proof (cases "x < 0")
    case True
    then have "0 \<le> x + 256 ^ n" "x + 256 ^ n < 256 ^ n" using assms h by simp_all
    then have "(x + 256 ^ n) mod 256 ^ n = x + 256 ^ n" by (rule mod_pos_pos_trivial)
    with True show ?thesis by (simp only: mod_add_self2 if_True)
  next
    case False
    with assms h show ?thesis by simp
  qed
  with assms h show ?thesis
    by (simp add: be_int_signed_def Let_def be_int_be_bytes pow2_8 split: if_splits)
qed

lemma be_int_signed_range:
  assumes "bs \<noteq> []"
  shows "- (2 ^ (8 * length bs - 1)) \<le> be_int_signed bs" and "be_int_signed bs < 2 ^ (8 * length bs - 1)"
proof -
  have "0 < length bs" using assms by simp
  then have h: "(256 :: int) ^ length bs = 2 * 2 ^ (8 * length bs - 1)"
    by (metis pow2_8 power_eq_if mult_is_0 neq0_conv zero_neq_numeral)
  have "be_int bs < 256 ^ length bs" by (rule be_int_less)
  with h \<open>0 < length bs\<close> be_int_nonneg [of bs]
  show "- (2 ^ (8 * length bs - 1)) \<le> be_int_signed bs" "be_int_signed bs < 2 ^ (8 * length bs - 1)"
    by (auto simp: be_int_signed_def Let_def pow2_8 intro: order_trans [OF _ be_int_nonneg])
qed

lemma be_bytes_be_int_signed:
  assumes "bs \<noteq> []"
  shows "be_bytes (length bs) (be_int_signed bs) = bs"
proof -
  have "be_int_signed bs mod 256 ^ length bs = be_int bs"
  proof -
    have "be_int_signed bs mod 256 ^ length bs = be_int bs mod 256 ^ length bs"
      by (simp add: be_int_signed_def Let_def pow2_8)
    then show ?thesis using be_int_less [of bs] by simp
  qed
  then show ?thesis by (metis be_bytes_mod be_bytes_be_int)
qed

section \<open>struct\<close>

text \<open>The format strings the classes of \<^verbatim>\<open>ints.py\<close> use: network order, standard sizes.\<close>

datatype pack_fmt = FMT_b | FMT_B | FMT_h | FMT_H | FMT_l | FMT_L | FMT_q | FMT_Q

fun calcsize :: "pack_fmt \<Rightarrow> nat" where
  "calcsize FMT_b = 1"
| "calcsize FMT_B = 1"
| "calcsize FMT_h = 2"
| "calcsize FMT_H = 2"
| "calcsize FMT_l = 4"
| "calcsize FMT_L = 4"
| "calcsize FMT_q = 8"
| "calcsize FMT_Q = 8"

fun fmt_signed :: "pack_fmt \<Rightarrow> bool" where
  "fmt_signed FMT_b = True"
| "fmt_signed FMT_B = False"
| "fmt_signed FMT_h = True"
| "fmt_signed FMT_H = False"
| "fmt_signed FMT_l = True"
| "fmt_signed FMT_L = False"
| "fmt_signed FMT_q = True"
| "fmt_signed FMT_Q = False"

text \<open>\<^verbatim>\<open>struct.pack\<close> raises \<^verbatim>\<open>struct.error\<close> outside the range of the format.\<close>

definition struct_pack :: "pack_fmt \<Rightarrow> int \<Rightarrow> bytes res" where
  "struct_pack p v =
     (if fmt_signed p then to_bytes_signed (calcsize p) v else to_bytes_unsigned (calcsize p) v)"

definition struct_unpack :: "pack_fmt \<Rightarrow> bytes \<Rightarrow> int" where
  "struct_unpack p bs = (if fmt_signed p then be_int_signed bs else be_int bs)"

definition fmt_min :: "pack_fmt \<Rightarrow> int" where
  "fmt_min p = (if fmt_signed p then - (2 ^ (8 * calcsize p - 1)) else 0)"

definition fmt_max :: "pack_fmt \<Rightarrow> int" where
  "fmt_max p = (if fmt_signed p then 2 ^ (8 * calcsize p - 1) - 1 else 2 ^ (8 * calcsize p) - 1)"

definition in_fmt :: "pack_fmt \<Rightarrow> int \<Rightarrow> bool" where
  "in_fmt p v \<longleftrightarrow> fmt_min p \<le> v \<and> v \<le> fmt_max p"

lemma calcsize_pos [simp]: "0 < calcsize p"
  by (cases p) simp_all

lemma struct_pack_eq:
  "struct_pack p v = (if in_fmt p v then Inr (be_bytes (calcsize p) v) else Inl OverflowError)"
  by (auto simp: struct_pack_def in_fmt_def fmt_min_def fmt_max_def to_bytes_signed_def
      to_bytes_unsigned_def pow2_8)

lemma struct_unpack_be_bytes: "in_fmt p v \<Longrightarrow> struct_unpack p (be_bytes (calcsize p) v) = v"
  by (auto simp: struct_unpack_def in_fmt_def fmt_min_def fmt_max_def be_int_be_bytes pow2_8
      intro!: be_int_signed_be_bytes)

lemma struct_unpack_in_fmt: "length bs = calcsize p \<Longrightarrow> in_fmt p (struct_unpack p bs)"
proof -
  assume l: "length bs = calcsize p"
  then have "bs \<noteq> []" using calcsize_pos [of p] by fastforce
  with be_int_signed_range [of bs] be_int_less [of bs] l show ?thesis
    by (auto simp: struct_unpack_def in_fmt_def fmt_min_def fmt_max_def pow2_8)
qed

lemma be_bytes_struct_unpack: "length bs = calcsize p \<Longrightarrow> be_bytes (calcsize p) (struct_unpack p bs) = bs"
proof -
  assume l: "length bs = calcsize p"
  then have "bs \<noteq> []" using calcsize_pos [of p] by fastforce
  with l be_bytes_be_int_signed [of bs] be_bytes_be_int [of bs] show ?thesis
    by (simp add: struct_unpack_def)
qed

section \<open>StructStream\<close>

text \<open>
  \<^verbatim>\<open>StructStream.__new__\<close>: the value is packed and unpacked again; a mismatch or any exception of
  \<^verbatim>\<open>struct\<close> becomes a \<^verbatim>\<open>ValueError\<close>.
\<close>

definition StructStream_new :: "pack_fmt \<Rightarrow> int \<Rightarrow> int res" where
  "StructStream_new p v =
     (case struct_pack p v of
        Inl _ \<Rightarrow> Inl ValueError
      | Inr bs \<Rightarrow> (let v1 = struct_unpack p bs in if v \<noteq> v1 then Inl ValueError else Inr v))"

definition StructStream_parse :: "pack_fmt \<Rightarrow> int parser" where
  "StructStream_parse p f =
     (let n = calcsize p; (read_bytes, f') = f_read n f
      in rassert (length read_bytes = n)
           (rbind (StructStream_new p (struct_unpack p read_bytes)) (\<lambda>v. Inr (v, f'))))"

definition StructStream_stream :: "pack_fmt \<Rightarrow> int \<Rightarrow> bytes res" where
  "StructStream_stream p v = struct_pack p v"

definition StructStream_from_bytes :: "pack_fmt \<Rightarrow> bytes \<Rightarrow> int res" where
  "StructStream_from_bytes p blob =
     rbind (StructStream_parse p blob) (\<lambda>(result, f). rassert (f = []) (Inr result))"

definition int8 :: "int \<Rightarrow> int res" where "int8 = StructStream_new FMT_b"
definition uint8 :: "int \<Rightarrow> int res" where "uint8 = StructStream_new FMT_B"
definition int16 :: "int \<Rightarrow> int res" where "int16 = StructStream_new FMT_h"
definition uint16 :: "int \<Rightarrow> int res" where "uint16 = StructStream_new FMT_H"
definition int32 :: "int \<Rightarrow> int res" where "int32 = StructStream_new FMT_l"
definition uint32 :: "int \<Rightarrow> int res" where "uint32 = StructStream_new FMT_L"
definition int64 :: "int \<Rightarrow> int res" where "int64 = StructStream_new FMT_q"
definition uint64 :: "int \<Rightarrow> int res" where "uint64 = StructStream_new FMT_Q"

lemma StructStream_new_eq: "StructStream_new p v = (if in_fmt p v then Inr v else Inl ValueError)"
  by (simp add: StructStream_new_def struct_pack_eq struct_unpack_be_bytes)

lemma in_fmt_simps [simp]:
  "in_fmt FMT_b v \<longleftrightarrow> - 128 \<le> v \<and> v < 128"
  "in_fmt FMT_B v \<longleftrightarrow> 0 \<le> v \<and> v < 256"
  "in_fmt FMT_h v \<longleftrightarrow> - 32768 \<le> v \<and> v < 32768"
  "in_fmt FMT_H v \<longleftrightarrow> 0 \<le> v \<and> v < 65536"
  "in_fmt FMT_l v \<longleftrightarrow> - (2 ^ 31) \<le> v \<and> v < 2 ^ 31"
  "in_fmt FMT_L v \<longleftrightarrow> 0 \<le> v \<and> v < 2 ^ 32"
  "in_fmt FMT_q v \<longleftrightarrow> - (2 ^ 63) \<le> v \<and> v < 2 ^ 63"
  "in_fmt FMT_Q v \<longleftrightarrow> 0 \<le> v \<and> v < 2 ^ 64"
  by (auto simp: in_fmt_def fmt_min_def fmt_max_def)

lemma uint8_eq: "uint8 v = (if 0 \<le> v \<and> v < 256 then Inr v else Inl ValueError)"
  unfolding uint8_def StructStream_new_eq by simp

lemma uint16_eq: "uint16 v = (if 0 \<le> v \<and> v < 65536 then Inr v else Inl ValueError)"
  unfolding uint16_def StructStream_new_eq by simp

lemma uint32_eq: "uint32 v = (if 0 \<le> v \<and> v < 2 ^ 32 then Inr v else Inl ValueError)"
  unfolding uint32_def StructStream_new_eq by simp

lemma uint64_eq: "uint64 v = (if 0 \<le> v \<and> v < 2 ^ 64 then Inr v else Inl ValueError)"
  unfolding uint64_def StructStream_new_eq by simp

lemma halts_uints [halts_intros]: "halts (uint8 v)" "halts (uint16 v)" "halts (uint32 v)" "halts (uint64 v)"
  by (simp_all add: uint8_eq uint16_eq uint32_eq uint64_eq)

lemma uint64_Inr: "0 \<le> v \<Longrightarrow> v < 2 ^ 64 \<Longrightarrow> uint64 v = Inr v"
  by (simp add: uint64_eq)

lemma StructStream_parse_stream:
  assumes "in_fmt p v"
  shows "StructStream_stream p v = Inr (be_bytes (calcsize p) v)"
    and "StructStream_parse p (be_bytes (calcsize p) v @ rest) = Inr (v, rest)"
  using assms
  by (simp_all add: StructStream_stream_def struct_pack_eq StructStream_parse_def f_read_def
      StructStream_new_eq struct_unpack_be_bytes)

lemma StructStream_parse_canonical:
  assumes "StructStream_parse p f = Inr (v, rest)"
  shows "in_fmt p v" and "f = be_bytes (calcsize p) v @ rest"
proof -
  from assms have l: "length (take (calcsize p) f) = calcsize p" and v: "v = struct_unpack p (take (calcsize p) f)"
    and r: "rest = drop (calcsize p) f"
    by (auto simp: StructStream_parse_def f_read_def Let_def res_conv StructStream_new_eq split: if_splits)
  show "in_fmt p v" using struct_unpack_in_fmt [OF l] v by simp
  have "be_bytes (calcsize p) v = take (calcsize p) f" using be_bytes_struct_unpack [OF l] v by simp
  then show "f = be_bytes (calcsize p) v @ rest" using r by simp
qed

section \<open>uint128 and int512\<close>

definition uint128 :: "int \<Rightarrow> int res" where
  "uint128 value = (if value > 2 ^ 128 - 1 \<or> value < 0 then Inl ValueError else Inr value)"

definition uint128_parse :: "int parser" where
  "uint128_parse f =
     (let (read_bytes, f') = f_read 16 f
      in rassert (length read_bytes = 16)
           (let n = be_int read_bytes
            in rassert (n \<le> 2 ^ 128 - 1 \<and> n \<ge> 0) (rbind (uint128 n) (\<lambda>v. Inr (v, f')))))"

definition uint128_stream :: "int \<Rightarrow> bytes res" where
  "uint128_stream self = rassert (self \<le> 2 ^ 128 - 1 \<and> self \<ge> 0) (to_bytes_unsigned 16 self)"

definition int512 :: "int \<Rightarrow> int res" where
  "int512 value = (if value \<ge> 2 ^ 512 \<or> value \<le> - (2 ^ 512) then Inl ValueError else Inr value)"

definition int512_parse :: "int parser" where
  "int512_parse f =
     (let (read_bytes, f') = f_read 65 f
      in rassert (length read_bytes = 65)
           (let n = be_int_signed read_bytes
            in rassert (n < 2 ^ 512 \<and> n > - (2 ^ 512)) (rbind (int512 n) (\<lambda>v. Inr (v, f')))))"

definition int512_stream :: "int \<Rightarrow> bytes res" where
  "int512_stream self = rassert (self < 2 ^ 512 \<and> self > - (2 ^ 512)) (to_bytes_signed 65 self)"

lemma uint128_eq: "uint128 v = (if 0 \<le> v \<and> v < 2 ^ 128 then Inr v else Inl ValueError)"
  by (auto simp: uint128_def)

lemma uint128_parse_stream:
  assumes "0 \<le> v" and "v < 2 ^ 128"
  shows "uint128_stream v = Inr (be_bytes 16 v)" and "uint128_parse (be_bytes 16 v @ rest) = Inr (v, rest)"
  using assms
  by (simp_all add: uint128_stream_def to_bytes_unsigned_def uint128_parse_def f_read_def uint128_def
      be_int_be_bytes)

lemma uint128_parse_canonical:
  assumes "uint128_parse f = Inr (v, rest)"
  shows "0 \<le> v \<and> v < 2 ^ 128" and "f = be_bytes 16 v @ rest"
proof -
  from assms have l: "length (take 16 f) = 16" and v: "v = be_int (take 16 f)" "0 \<le> v" "v < 2 ^ 128"
    and r: "rest = drop 16 f"
    by (auto simp: uint128_parse_def f_read_def Let_def res_conv uint128_def split: if_splits)
  show "0 \<le> v \<and> v < 2 ^ 128" using v by simp
  show "f = be_bytes 16 v @ rest" using be_bytes_be_int [of "take 16 f"] l v r by simp
qed

lemma int512_eq: "int512 v = (if - (2 ^ 512) < v \<and> v < 2 ^ 512 then Inr v else Inl ValueError)"
  by (auto simp: int512_def)

lemma int512_bounds:
  assumes "- (2 ^ 512) < v" and "(v :: int) < 2 ^ 512"
  shows "- (2 ^ (8 * 65 - 1)) \<le> v" and "v < 2 ^ (8 * 65 - 1)"
proof -
  have "(2 :: int) ^ 512 \<le> 2 ^ (8 * 65 - 1)" by (rule power_increasing) simp_all
  then show "- (2 ^ (8 * 65 - 1)) \<le> v" "v < 2 ^ (8 * 65 - 1)" using assms by linarith+
qed

lemma int512_parse_stream:
  assumes "- (2 ^ 512) < v" and "v < 2 ^ 512"
  shows "int512_stream v = Inr (be_bytes 65 v)" and "int512_parse (be_bytes 65 v @ rest) = Inr (v, rest)"
proof -
  note b = int512_bounds [OF assms]
  show "int512_stream v = Inr (be_bytes 65 v)"
    using assms b unfolding int512_stream_def to_bytes_signed_def by (simp del: power_numeral)
  have "be_int_signed (be_bytes 65 v) = v" using b by (rule be_int_signed_be_bytes [rotated]) simp
  with assms show "int512_parse (be_bytes 65 v @ rest) = Inr (v, rest)"
    unfolding int512_parse_def f_read_def Let_def int512_eq by simp
qed

lemma int512_parse_canonical:
  assumes "int512_parse f = Inr (v, rest)"
  shows "- (2 ^ 512) < v \<and> v < 2 ^ 512" and "f = be_bytes 65 v @ rest"
proof -
  from assms have l: "length (take 65 f) = 65" and v: "v = be_int_signed (take 65 f)" "- (2 ^ 512) < v" "v < 2 ^ 512"
    and r: "rest = drop 65 f"
    unfolding int512_parse_def f_read_def Let_def int512_eq
    by (auto simp: res_conv split: if_splits)
  show "- (2 ^ 512) < v \<and> v < 2 ^ 512" using v by simp
  from l have "take 65 f \<noteq> []" by auto
  with be_bytes_be_int_signed [of "take 65 f"] l v r show "f = be_bytes 65 v @ rest" by simp
qed

section \<open>Sized bytes\<close>

text \<open>\<^verbatim>\<open>make_sized_bytes(size)\<close>: the class \<^verbatim>\<open>bytes<size>\<close>.\<close>

definition sized_bytes_new :: "nat \<Rightarrow> bytes \<Rightarrow> bytes res" where
  "sized_bytes_new n v = (if length v \<noteq> n then Inl ValueError else Inr v)"

definition sized_bytes_parse :: "nat \<Rightarrow> bytes parser" where
  "sized_bytes_parse n f =
     (let (b, f') = f_read n f
      in rassert (length b = n) (rbind (sized_bytes_new n b) (\<lambda>v. Inr (v, f'))))"

definition sized_bytes_stream :: "bytes \<Rightarrow> bytes" where
  "sized_bytes_stream self = self"

definition sized_bytes_from_bytes :: "nat \<Rightarrow> bytes \<Rightarrow> bytes res" where
  "sized_bytes_from_bytes n blob =
     rbind (sized_bytes_parse n blob) (\<lambda>(result, f). rassert (f = []) (Inr result))"

definition bytes32 :: "bytes \<Rightarrow> bytes res" where "bytes32 = sized_bytes_new 32"

definition bytes48 :: "bytes \<Rightarrow> bytes res" where "bytes48 = sized_bytes_new 48"

lemma sized_bytes_parse_stream: "length v = n \<Longrightarrow> sized_bytes_parse n (v @ rest) = Inr (v, rest)"
  by (simp add: sized_bytes_parse_def f_read_def sized_bytes_new_def)

lemma sized_bytes_parse_canonical:
  "sized_bytes_parse n f = Inr (v, rest) \<Longrightarrow> length v = n \<and> f = v @ rest"
  by (auto simp: sized_bytes_parse_def f_read_def sized_bytes_new_def res_conv min_def split: if_splits)

lemma sized_bytes_from_bytes_eq: "sized_bytes_from_bytes n b = (if length b = n then Inr b else Inl AssertionError)"
  by (auto simp: sized_bytes_from_bytes_def sized_bytes_parse_def f_read_def sized_bytes_new_def rassert_def min_def)

end
