(* ===== verification/Constants.thy ===== *)
theory Constants
  imports Ints PyFloat
begin

text \<open>
  \<^verbatim>\<open>hddcoin/consensus/constants.py\<close>, \<^verbatim>\<open>default_constants.py\<close>, \<^verbatim>\<open>pot_iterations.py\<close>, \<^verbatim>\<open>pos_quality.py\<close>:
  the consensus parameters and the arithmetic of proof of time. Shown: where signage and infusion points lie in
  their sub-slot, when the functions raise, that the overflow test agrees with the arithmetic of the
  infusion point, and that a better proof of space never needs more iterations.
\<close>

record ConsensusConstants =
  SLOT_BLOCKS_TARGET :: int
  MIN_BLOCKS_PER_CHALLENGE_BLOCK :: int
  MAX_SUB_SLOT_BLOCKS :: int
  NUM_SPS_SUB_SLOT :: int
  SUB_SLOT_ITERS_STARTING :: int
  DIFFICULTY_CONSTANT_FACTOR :: int
  DIFFICULTY_STARTING :: int
  DIFFICULTY_CHANGE_MAX_FACTOR :: int
  SUB_EPOCH_BLOCKS :: int
  EPOCH_BLOCKS :: int
  SIGNIFICANT_BITS :: int
  DISCRIMINANT_SIZE_BITS :: int
  NUMBER_ZERO_BITS_PLOT_FILTER :: int
  MIN_PLOT_SIZE :: int
  MAX_PLOT_SIZE :: int
  SUB_SLOT_TIME_TARGET :: int
  NUM_SP_INTERVALS_EXTRA :: int
  MAX_FUTURE_TIME :: int
  NUMBER_OF_TIMESTAMPS :: int
  GENESIS_CHALLENGE :: bytes
  AGG_SIG_ME_ADDITIONAL_DATA :: bytes
  GENESIS_PRE_FARM_POOL_PUZZLE_HASH :: bytes
  GENESIS_PRE_FARM_FARMER_PUZZLE_HASH :: bytes
  MAX_VDF_WITNESS_SIZE :: int
  MEMPOOL_BLOCK_BUFFER :: int
  MAX_COIN_AMOUNT :: int
  MAX_BLOCK_COST_CLVM :: int
  COST_PER_BYTE :: int
  WEIGHT_PROOF_THRESHOLD :: int
  WEIGHT_PROOF_RECENT_BLOCKS :: int
  MAX_BLOCK_COUNT_PER_REQUESTS :: int
  BLOCKS_CACHE_SIZE :: int
  NETWORK_TYPE :: int
  MAX_GENERATOR_SIZE :: int
  MAX_GENERATOR_REF_LIST_SIZE :: int
  POOL_SUB_SLOT_ITERS :: int

definition DEFAULT_CONSTANTS :: ConsensusConstants where
  "DEFAULT_CONSTANTS =
     \<lparr> SLOT_BLOCKS_TARGET = 32,
       MIN_BLOCKS_PER_CHALLENGE_BLOCK = 16,
       MAX_SUB_SLOT_BLOCKS = 128,
       NUM_SPS_SUB_SLOT = 64,
       SUB_SLOT_ITERS_STARTING = 2 ^ 27,
       DIFFICULTY_CONSTANT_FACTOR = 2 ^ 64,
       DIFFICULTY_STARTING = 1,
       DIFFICULTY_CHANGE_MAX_FACTOR = 3,
       SUB_EPOCH_BLOCKS = 384,
       EPOCH_BLOCKS = 4608,
       SIGNIFICANT_BITS = 8,
       DISCRIMINANT_SIZE_BITS = 1024,
       NUMBER_ZERO_BITS_PLOT_FILTER = 9,
       MIN_PLOT_SIZE = 32,
       MAX_PLOT_SIZE = 50,
       SUB_SLOT_TIME_TARGET = 600,
       NUM_SP_INTERVALS_EXTRA = 3,
       MAX_FUTURE_TIME = 5 * 60,
       NUMBER_OF_TIMESTAMPS = 11,
       GENESIS_CHALLENGE =
         [0xf6, 0x63, 0xa5, 0x41, 0x92, 0xe4, 0xfc, 0x88, 0x32, 0xd6, 0x2c, 0x5f, 0x91, 0x4d, 0x1c, 0x3a,
          0x15, 0xdd, 0x2a, 0x51, 0x9c, 0x3c, 0xa2, 0x36, 0x09, 0xa5, 0x08, 0xf4, 0x64, 0x1d, 0xa2, 0x3e],
       AGG_SIG_ME_ADDITIONAL_DATA =
         [0x49, 0xf4, 0xaf, 0xb1, 0x89, 0x34, 0x28, 0x58, 0xdb, 0xa5, 0xc1, 0xbb, 0x6b, 0x50, 0xb0, 0xde,
          0xaa, 0x70, 0x60, 0x88, 0x47, 0x4f, 0x0c, 0x54, 0x31, 0xd6, 0x5b, 0x85, 0x7d, 0x54, 0xdd, 0xb5],
       GENESIS_PRE_FARM_POOL_PUZZLE_HASH =
         [0x5e, 0xd4, 0x9d, 0xf4, 0x21, 0x06, 0x66, 0x39, 0x47, 0x05, 0x9a, 0x33, 0x23, 0xda, 0x31, 0x0f,
          0x24, 0xc8, 0x04, 0xc6, 0xcf, 0x74, 0x20, 0xf3, 0xc1, 0xac, 0x0c, 0xff, 0xb3, 0xf9, 0xd2, 0xb3],
       GENESIS_PRE_FARM_FARMER_PUZZLE_HASH =
         [0x5e, 0xd4, 0x9d, 0xf4, 0x21, 0x06, 0x66, 0x39, 0x47, 0x05, 0x9a, 0x33, 0x23, 0xda, 0x31, 0x0f,
          0x24, 0xc8, 0x04, 0xc6, 0xcf, 0x74, 0x20, 0xf3, 0xc1, 0xac, 0x0c, 0xff, 0xb3, 0xf9, 0xd2, 0xb3],
       MAX_VDF_WITNESS_SIZE = 64,
       MEMPOOL_BLOCK_BUFFER = 50,
       MAX_COIN_AMOUNT = 2 ^ 64 - 1,
       MAX_BLOCK_COST_CLVM = 11000000000,
       COST_PER_BYTE = 12000,
       WEIGHT_PROOF_THRESHOLD = 2,
       WEIGHT_PROOF_RECENT_BLOCKS = 1000,
       MAX_BLOCK_COUNT_PER_REQUESTS = 32,
       BLOCKS_CACHE_SIZE = 4608 + 128 * 4,
       NETWORK_TYPE = 0,
       MAX_GENERATOR_SIZE = 1000000,
       MAX_GENERATOR_REF_LIST_SIZE = 512,
       POOL_SUB_SLOT_ITERS = 37600000000 \<rparr>"

text \<open>The constraints the comments of both files state, with the ranges of the field types.\<close>

definition constants_wf :: "ConsensusConstants \<Rightarrow> bool" where
  "constants_wf c \<longleftrightarrow>
     0 < SLOT_BLOCKS_TARGET c \<and>
     0 < MIN_BLOCKS_PER_CHALLENGE_BLOCK c \<and> MIN_BLOCKS_PER_CHALLENGE_BLOCK c < 256 \<and>
     2 * MIN_BLOCKS_PER_CHALLENGE_BLOCK c \<le> SLOT_BLOCKS_TARGET c \<and>
     SLOT_BLOCKS_TARGET c < MAX_SUB_SLOT_BLOCKS c \<and> 2 * MAX_SUB_SLOT_BLOCKS c < SUB_EPOCH_BLOCKS c \<and>
     0 < NUM_SPS_SUB_SLOT c \<and> NUM_SPS_SUB_SLOT c = 2 ^ nat_bit_length (nat (NUM_SPS_SUB_SLOT c - 1)) \<and>
     0 < NUM_SP_INTERVALS_EXTRA c \<and> NUM_SP_INTERVALS_EXTRA c < NUM_SPS_SUB_SLOT c \<and>
     0 < SUB_SLOT_ITERS_STARTING c \<and> SUB_SLOT_ITERS_STARTING c < 2 ^ 64 \<and>
     SUB_SLOT_ITERS_STARTING c mod NUM_SPS_SUB_SLOT c = 0 \<and>
     0 < DIFFICULTY_STARTING c \<and> DIFFICULTY_STARTING c < 2 ^ 64 \<and>
     0 < DIFFICULTY_CHANGE_MAX_FACTOR c \<and>
     0 < SUB_EPOCH_BLOCKS c \<and> SUB_EPOCH_BLOCKS c dvd EPOCH_BLOCKS c \<and> 0 < EPOCH_BLOCKS c \<and> EPOCH_BLOCKS c < 2 ^ 32 \<and>
     0 < SIGNIFICANT_BITS c \<and> 0 < SUB_SLOT_TIME_TARGET c \<and>
     length (GENESIS_CHALLENGE c) = 32"

section \<open>Proof of time\<close>

definition is_overflow_block :: "ConsensusConstants \<Rightarrow> int \<Rightarrow> bool res" where
  "is_overflow_block constants signage_point_index =
     (if signage_point_index \<ge> NUM_SPS_SUB_SLOT constants then Inl ValueError
      else Inr (signage_point_index \<ge> NUM_SPS_SUB_SLOT constants - NUM_SP_INTERVALS_EXTRA constants))"

text \<open>Python's \<^verbatim>\<open>//\<close> and \<^verbatim>\<open>%\<close> on ints: rounding down as \<open>div\<close> and \<open>mod\<close> do, raising on zero.\<close>

definition py_floordiv :: "int \<Rightarrow> int \<Rightarrow> int res" where
  "py_floordiv a b = (if b = 0 then Inl ZeroDivisionError else Inr (a div b))"

definition py_mod :: "int \<Rightarrow> int \<Rightarrow> int res" where
  "py_mod a b = (if b = 0 then Inl ZeroDivisionError else Inr (a mod b))"

lemma halts_py_arith [halts_intros]: "halts (py_floordiv a b)" "halts (py_mod a b)"
  by (simp_all add: py_floordiv_def py_mod_def)

definition calculate_sp_interval_iters :: "ConsensusConstants \<Rightarrow> int \<Rightarrow> int res" where
  "calculate_sp_interval_iters constants sub_slot_iters =
     rbind (py_mod sub_slot_iters (NUM_SPS_SUB_SLOT constants)) (\<lambda>r.
       rassert (r = 0)
         (rbind (py_floordiv sub_slot_iters (NUM_SPS_SUB_SLOT constants)) uint64))"

definition calculate_sp_iters :: "ConsensusConstants \<Rightarrow> int \<Rightarrow> int \<Rightarrow> int res" where
  "calculate_sp_iters constants sub_slot_iters signage_point_index =
     (if signage_point_index \<ge> NUM_SPS_SUB_SLOT constants then Inl ValueError
      else rbind (calculate_sp_interval_iters constants sub_slot_iters) (\<lambda>i. uint64 (i * signage_point_index)))"

definition calculate_ip_iters :: "ConsensusConstants \<Rightarrow> int \<Rightarrow> int \<Rightarrow> int \<Rightarrow> int res" where
  "calculate_ip_iters constants sub_slot_iters signage_point_index required_iters =
     rbind (calculate_sp_iters constants sub_slot_iters signage_point_index) (\<lambda>sp_iters.
     rbind (calculate_sp_interval_iters constants sub_slot_iters) (\<lambda>sp_interval_iters.
     rbind (py_mod sp_iters sp_interval_iters) (\<lambda>r.
       if r \<noteq> 0 \<or> sp_iters \<ge> sub_slot_iters then Inl ValueError
       else if required_iters \<ge> sp_interval_iters \<or> required_iters = 0 then Inl ValueError
       else rbind (py_mod (sp_iters + NUM_SP_INTERVALS_EXTRA constants * sp_interval_iters + required_iters) sub_slot_iters)
              uint64)))"

text \<open>\<^verbatim>\<open>((2 * k) + 1) * (2 ** (k - 1))\<close>: an integer for \<open>k \<ge> 1\<close>, and the float 0.5 for \<open>k = 0\<close>, which the caller truncates.\<close>

definition expected_plot_size :: "nat \<Rightarrow> rat" where
  "expected_plot_size k = (2 * of_nat k + 1) * (if k = 0 then 1 / 2 else 2 ^ (k - 1))"

definition calculate_iterations_quality ::
  "(bytes \<Rightarrow> bytes) \<Rightarrow> int \<Rightarrow> bytes \<Rightarrow> nat \<Rightarrow> int \<Rightarrow> bytes \<Rightarrow> int res" where
  "calculate_iterations_quality std_hash difficulty_constant_factor quality_string k difficulty cc_sp_output_hash =
     (let sp_quality_string = std_hash (quality_string @ cc_sp_output_hash)
      in rbind (py_floordiv (difficulty * difficulty_constant_factor * be_int sp_quality_string)
                  (2 ^ 256 * py_int (expected_plot_size k))) (\<lambda>q.
         rbind (uint64 q) (\<lambda>iters. rbind (uint64 1) (\<lambda>one. Inr (max iters one)))))"

section \<open>Where the points lie\<close>

lemma constants_wf_pos:
  assumes "constants_wf c"
  shows "0 < NUM_SPS_SUB_SLOT c" "0 < NUM_SP_INTERVALS_EXTRA c" "NUM_SP_INTERVALS_EXTRA c < NUM_SPS_SUB_SLOT c"
    "0 < MIN_BLOCKS_PER_CHALLENGE_BLOCK c" "MIN_BLOCKS_PER_CHALLENGE_BLOCK c < 256"
    "0 < SUB_EPOCH_BLOCKS c" "0 < EPOCH_BLOCKS c" "SUB_EPOCH_BLOCKS c dvd EPOCH_BLOCKS c" "0 < SIGNIFICANT_BITS c"
    "0 < DIFFICULTY_CHANGE_MAX_FACTOR c"
  using assms by (simp_all add: constants_wf_def)

lemma default_constants_wf: "constants_wf DEFAULT_CONSTANTS"
  by (simp add: constants_wf_def DEFAULT_CONSTANTS_def nat_bit_length.simps)

lemma sp_interval_iters_eq:
  assumes "0 < NUM_SPS_SUB_SLOT c" "ssi = n * NUM_SPS_SUB_SLOT c" "0 \<le> n" "ssi < 2 ^ 64"
  shows "calculate_sp_interval_iters c ssi = Inr n"
proof -
  have "n \<le> n * NUM_SPS_SUB_SLOT c" using assms by (simp add: mult_le_cancel_left1)
  then have "n < 2 ^ 64" using assms by linarith
  with assms show ?thesis by (simp add: calculate_sp_interval_iters_def py_mod_def py_floordiv_def uint64_eq)
qed

lemma sp_interval_iters_Inr:
  assumes "0 < NUM_SPS_SUB_SLOT c" "calculate_sp_interval_iters c ssi = Inr n"
  shows "ssi = n * NUM_SPS_SUB_SLOT c" "0 \<le> n" "n < 2 ^ 64"
  using assms
  by (auto simp: calculate_sp_interval_iters_def py_mod_def py_floordiv_def uint64_eq res_conv split: if_splits)

lemma sp_iters_eq:
  assumes "0 < NUM_SPS_SUB_SLOT c" "ssi = n * NUM_SPS_SUB_SLOT c" "0 \<le> n" "ssi < 2 ^ 64"
    and "0 \<le> i" "i < NUM_SPS_SUB_SLOT c"
  shows "calculate_sp_iters c ssi i = Inr (n * i)"
proof -
  have "n * i \<le> n * NUM_SPS_SUB_SLOT c" using assms by (intro mult_left_mono) auto
  then have "n * i < 2 ^ 64" using assms by linarith
  then show ?thesis using sp_interval_iters_eq [OF assms(1-4)] assms
    by (simp add: calculate_sp_iters_def uint64_eq)
qed

text \<open>The infusion point is \<open>NUM_SP_INTERVALS_EXTRA\<close> intervals and the required iterations after the signage
  point, modulo the sub-slot: the wrap-around happens exactly for overflow blocks.\<close>

lemma ip_iters_eq:
  assumes "constants_wf c" "ssi = n * NUM_SPS_SUB_SLOT c" "ssi < 2 ^ 64"
    and "0 \<le> i" "i < NUM_SPS_SUB_SLOT c" "0 < req" "req < n"
  shows "calculate_ip_iters c ssi i req =
    Inr (n * i + NUM_SP_INTERVALS_EXTRA c * n + req -
         (if i \<ge> NUM_SPS_SUB_SLOT c - NUM_SP_INTERVALS_EXTRA c then ssi else 0))"
proof -
  let ?N = "NUM_SPS_SUB_SLOT c" and ?E = "NUM_SP_INTERVALS_EXTRA c"
  note wf = constants_wf_pos [OF assms(1)]
  have n: "0 < n" using assms by simp
  have sp: "calculate_sp_iters c ssi i = Inr (n * i)" by (rule sp_iters_eq) (use wf assms n in auto)
  have iv: "calculate_sp_interval_iters c ssi = Inr n" by (rule sp_interval_iters_eq) (use wf assms n in auto)
  have lt: "n * i < ssi" using n assms(2,5) by simp
  have "calculate_ip_iters c ssi i req = rbind (py_mod (n * i + ?E * n + req) ssi) uint64"
    using n lt assms(6,7) by (simp add: calculate_ip_iters_def sp iv py_mod_def)
  also have "\<dots> = Inr ((n * i + ?E * n + req) mod ssi)"
  proof -
    have "0 < ssi" using n wf assms(2) by simp
    moreover from this have "(n * i + ?E * n + req) mod ssi < 2 ^ 64"
      using pos_mod_bound [of ssi "n * i + ?E * n + req"] assms(3) by linarith
    ultimately show ?thesis by (simp add: py_mod_def uint64_eq)
  qed
  also have "(n * i + ?E * n + req) mod ssi =
      n * i + ?E * n + req - (if i \<ge> ?N - ?E then ssi else 0)"
  proof (cases "i \<ge> ?N - ?E")
    case True
    have "n * ?N \<le> n * (i + ?E)" using True n by (intro mult_left_mono) auto
    then have "0 \<le> n * i + ?E * n + req - ssi" using assms(2,6) by (simp add: algebra_simps)
    moreover have "n * i + ?E * n + req - ssi < ssi"
    proof -
      have "n * (i + ?E + 1) < n * (2 * ?N)" using n assms(5) wf by (intro mult_strict_left_mono) auto
      then show ?thesis using assms(2,7) by (simp add: algebra_simps)
    qed
    ultimately have "(n * i + ?E * n + req - ssi) mod ssi = n * i + ?E * n + req - ssi"
      by (rule mod_pos_pos_trivial)
    then show ?thesis using True by simp
  next
    case False
    have "n * (i + ?E + 1) \<le> n * ?N" using False n by (intro mult_left_mono) auto
    then have "n * i + ?E * n + req < ssi" using assms(2,7) by (simp add: algebra_simps)
    moreover have "0 \<le> n * i + ?E * n + req" using n assms(4,6) wf by simp
    ultimately show ?thesis using False by (simp add: mod_pos_pos_trivial)
  qed
  finally show ?thesis .
qed

lemma ip_iters_InrD:
  assumes "0 < NUM_SPS_SUB_SLOT c" "calculate_ip_iters c ssi i req = Inr ip" "0 \<le> req"
  shows "i < NUM_SPS_SUB_SLOT c" "ssi mod NUM_SPS_SUB_SLOT c = 0" "0 < req" "req < ssi div NUM_SPS_SUB_SLOT c"
proof -
  from assms(2) obtain sp n where n: "calculate_sp_interval_iters c ssi = Inr n"
    and sp: "calculate_sp_iters c ssi i = Inr sp" and r: "\<not> (req \<ge> n \<or> req = 0)"
    by (auto simp: calculate_ip_iters_def res_conv split: if_splits)
  note ssi = sp_interval_iters_Inr [OF assms(1) n]
  show "i < NUM_SPS_SUB_SLOT c" using sp by (auto simp: calculate_sp_iters_def split: if_splits)
  show "ssi mod NUM_SPS_SUB_SLOT c = 0" "0 < req" "req < ssi div NUM_SPS_SUB_SLOT c"
    using r assms(1,3) by (auto simp: ssi(1))
qed

text \<open>
  C22. For a well-typed sub-slot length, signage point index and number of required iterations,
  \<^verbatim>\<open>calculate_ip_iters\<close> returns exactly when the index is in range, the sub-slot divides into signage point intervals
  and the required iterations are positive and below one interval; it raises otherwise. The infusion point then
  lies inside the sub-slot, and \<^verbatim>\<open>is_overflow_block\<close> holds exactly when it lies before its signage
  point, i.e. in the next sub-slot.
\<close>

theorem infusion_point:
  assumes "constants_wf c" "0 \<le> ssi" "ssi < 2 ^ 64" "0 \<le> i" "0 \<le> req"
  shows "((\<exists>ip. calculate_ip_iters c ssi i req = Inr ip) \<longleftrightarrow>
           i < NUM_SPS_SUB_SLOT c \<and> ssi mod NUM_SPS_SUB_SLOT c = 0 \<and> 0 < req \<and> req < ssi div NUM_SPS_SUB_SLOT c) \<and>
         (\<forall>ip. calculate_ip_iters c ssi i req = Inr ip \<longrightarrow>
           0 \<le> ip \<and> ip < ssi \<and>
           (\<exists>sp. calculate_sp_iters c ssi i = Inr sp \<and> sp < ssi \<and> is_overflow_block c i = Inr (ip < sp)))"
    (is "(?ret \<longleftrightarrow> ?ok) \<and> _")
proof (intro conjI allI impI)
  let ?N = "NUM_SPS_SUB_SLOT c" and ?E = "NUM_SP_INTERVALS_EXTRA c"
  note wf = constants_wf_pos [OF assms(1)]
  define n where "n = ssi div ?N"
  have ssi: "ssi = n * ?N" if "ssi mod ?N = 0" using that by (auto simp: n_def)
  have iff: "?ret \<longleftrightarrow> ?ok"
    using ip_iters_InrD [OF wf(1) _ assms(5)] ip_iters_eq [OF assms(1) ssi assms(3,4)] by (fastforce simp: n_def)
  then show "?ret \<longleftrightarrow> ?ok" .
  fix ip assume ip: "calculate_ip_iters c ssi i req = Inr ip"
  with iff have ok: ?ok by blast
  then have n: "0 < n" "ssi = n * ?N" "0 < req" "req < n" using ssi by (auto simp: n_def)
  have sp: "calculate_sp_iters c ssi i = Inr (n * i)" by (rule sp_iters_eq) (use wf n assms ok in auto)
  have ipe: "ip = n * i + ?E * n + req - (if i \<ge> ?N - ?E then ssi else 0)"
    using ip ip_iters_eq [OF assms(1) n(2) assms(3,4) _ n(3,4)] ok by simp
  have "0 \<le> ip" "ip < ssi"
    using ip ok pos_mod_bound [of ssi] pos_mod_sign [of ssi] n wf
    by (auto simp: calculate_ip_iters_def res_conv py_mod_def uint64_eq split: if_splits)
  moreover have "n * i < ssi" using n ok by simp
  moreover have "ip < n * i \<longleftrightarrow> i \<ge> ?N - ?E"
  proof -
    have "n * (?E + 1) \<le> n * ?N" using n wf by (intro mult_left_mono) auto
    moreover have "0 < ?E * n" using n wf by simp
    ultimately show ?thesis using n by (auto simp: ipe algebra_simps)
  qed
  ultimately show "0 \<le> ip" "ip < ssi"
    "\<exists>sp. calculate_sp_iters c ssi i = Inr sp \<and> sp < ssi \<and> is_overflow_block c i = Inr (ip < sp)"
    using ok sp by (auto simp: is_overflow_block_def)
qed

theorem infusion_point_witness:
  "calculate_ip_iters DEFAULT_CONSTANTS 134217728 62 1000 = Inr 2098152 \<and>
   0 \<le> (2098152 :: int) \<and> (2098152 :: int) < 134217728 \<and>
   (\<exists>sp. calculate_sp_iters DEFAULT_CONSTANTS 134217728 62 = Inr sp \<and> sp < 134217728 \<and>
         is_overflow_block DEFAULT_CONSTANTS 62 = Inr (2098152 < sp))"
proof
  show e: "calculate_ip_iters DEFAULT_CONSTANTS 134217728 62 1000 = Inr 2098152"
    by (simp add: calculate_ip_iters_def calculate_sp_iters_def calculate_sp_interval_iters_def
        py_mod_def py_floordiv_def uint64_eq DEFAULT_CONSTANTS_def)
  show "0 \<le> (2098152 :: int) \<and> (2098152 :: int) < 134217728 \<and>
   (\<exists>sp. calculate_sp_iters DEFAULT_CONSTANTS 134217728 62 = Inr sp \<and> sp < 134217728 \<and>
         is_overflow_block DEFAULT_CONSTANTS 62 = Inr (2098152 < sp))"
    using infusion_point [OF default_constants_wf, of 134217728 62 1000] e by simp
qed

section \<open>Quality\<close>

lemma py_int_plot_size: "py_int (expected_plot_size k) = (if k = 0 then 0 else (2 * int k + 1) * 2 ^ (k - 1))"
proof (cases "k = 0")
  case False
  have "expected_plot_size k = of_int ((2 * int k + 1) * 2 ^ (k - 1))" using False by (simp add: expected_plot_size_def)
  then show ?thesis using False by (simp only: py_int_def floor_of_int ceiling_of_int if_cancel) simp
qed (simp add: py_int_def expected_plot_size_def floor_eq_iff)

lemma plot_size_pos: "1 \<le> k \<Longrightarrow> 0 < py_int (expected_plot_size k)"
  by (simp add: py_int_plot_size add_pos_nonneg)

lemma plot_size_mono:
  assumes "1 \<le> j" "j \<le> k"
  shows "py_int (expected_plot_size j) \<le> py_int (expected_plot_size k)"
proof -
  have "(2 * int j + 1) * 2 ^ (j - 1) \<le> (2 * int k + 1) * 2 ^ (k - 1)"
    using assms by (intro mult_mono power_increasing) auto
  then show ?thesis using assms by (simp add: py_int_plot_size)
qed

lemma iterations_div_mono:
  fixes x y a b :: int
  assumes "0 \<le> x" "x \<le> y" "0 < b" "b \<le> a"
  shows "x div a \<le> y div b"
proof -
  have "x div a \<le> x div b" using assms by (intro zdiv_mono2) auto
  also have "\<dots> \<le> y div b" using assms by (intro zdiv_mono1) auto
  finally show ?thesis .
qed

lemma div_less_bound: "x < n * b \<Longrightarrow> 0 < b \<Longrightarrow> x div b < n" for x :: int
proof (rule ccontr)
  assume x: "x < n * b" and b: "0 < b" and "\<not> x div b < n"
  then have "n * b \<le> x div b * b" by simp
  also have "\<dots> \<le> x" using b by (simp add: minus_mod_eq_div_mult [symmetric])
  finally show False using x by simp
qed

text \<open>
  C23. Let the hash have 32 bytes, the constant factor be at most \<open>2 ^ 64\<close>, the plot size parameter be at least 1 and the difficulty be at
  most the expected plot size. Then the number of iterations is defined (it fits in 64 bits) and at least 1, and a smaller quality
  hash, a larger plot or a lower difficulty never needs more iterations. With the parameter 0 the division raises.
\<close>

theorem iterations_quality:
  assumes "\<And>b. length (h b) = 32" "0 \<le> dcf" "dcf \<le> 2 ^ 64" "0 \<le> d" "d \<le> d'" "d' \<le> py_int (expected_plot_size k')" "1 \<le> k'" "k' \<le> k"
    and "be_int (h (q @ sp)) \<le> be_int (h (q' @ sp'))"
  shows "(\<exists>n n'. calculate_iterations_quality h dcf q k d sp = Inr n \<and>
                 calculate_iterations_quality h dcf q' k' d' sp' = Inr n' \<and> 1 \<le> n \<and> n \<le> n' \<and> n' < 2 ^ 64) \<and>
    calculate_iterations_quality h dcf q 0 d sp = Inl ZeroDivisionError"
proof -
  let ?num = "\<lambda>d q sp. d * dcf * be_int (h (q @ sp))" and ?den = "\<lambda>k. 2 ^ 256 * py_int (expected_plot_size k)"
  have le: "?num d q sp \<le> ?num d' q' sp'" using assms by (intro mult_mono) auto
  have nn: "0 \<le> ?num d q sp" using assms by simp
  have den: "?den k' \<le> ?den k" "0 < ?den k'" using plot_size_mono [OF assms(7,8)] plot_size_pos [OF assms(7)] by simp_all
  have div: "?num d q sp div ?den k \<le> ?num d' q' sp' div ?den k'" by (rule iterations_div_mono) (use le nn den in auto)
  have "?num d' q' sp' div ?den k' < 2 ^ 64"
  proof (rule div_less_bound)
    show "?num d' q' sp' < 2 ^ 64 * ?den k'"
    proof -
      have pos: "0 < py_int (expected_plot_size k') * 2 ^ 64" using plot_size_pos [OF assms(7)] by simp
      have "d' * dcf \<le> py_int (expected_plot_size k') * 2 ^ 64" using assms by (intro mult_mono) auto
      moreover have "be_int (h (q' @ sp')) < 2 ^ 256" using be_int_less [of "h (q' @ sp')"] assms(1) by simp
      ultimately have "?num d' q' sp' \<le> (py_int (expected_plot_size k') * 2 ^ 64) * be_int (h (q' @ sp'))"
        by (intro mult_right_mono) auto
      also have "\<dots> < (py_int (expected_plot_size k') * 2 ^ 64) * 2 ^ 256"
        using \<open>be_int (h (q' @ sp')) < 2 ^ 256\<close> pos by (rule mult_strict_left_mono)
      finally show ?thesis by (simp add: mult_ac)
    qed
  qed (use den in simp)
  moreover have "calculate_iterations_quality h dcf q 0 d sp = Inl ZeroDivisionError"
    by (simp add: calculate_iterations_quality_def py_floordiv_def py_int_plot_size)
  ultimately show ?thesis using div nn den order_trans [OF nn le]
    by (auto simp: calculate_iterations_quality_def py_floordiv_def Let_def uint64_eq pos_imp_zdiv_nonneg_iff)
qed

theorem iterations_quality_witness:
  "(\<exists>n n'. calculate_iterations_quality (\<lambda>b. take 32 (b @ replicate 32 0)) (2 ^ 64) [1] 33 5 [2] = Inr n \<and>
           calculate_iterations_quality (\<lambda>b. take 32 (b @ replicate 32 0)) (2 ^ 64) [1] 32 7 [3] = Inr n' \<and>
           1 \<le> n \<and> n \<le> n' \<and> n' < 2 ^ 64) \<and>
   calculate_iterations_quality (\<lambda>b. take 32 (b @ replicate 32 0)) (2 ^ 64) [1] 0 5 [2] = Inl ZeroDivisionError"
proof (rule iterations_quality)
  have "replicate 30 (0 :: byte) = [0, 0, 0, 0, 0, 0, 0, 0, 0, 0, 0, 0, 0, 0, 0, 0, 0, 0, 0, 0, 0, 0, 0, 0, 0, 0, 0, 0, 0, 0]"
    by code_simp
  then show "be_int (take 32 (([1] @ [2]) @ replicate 32 0)) \<le> be_int (take 32 (([1] @ [3]) @ replicate 32 0))"
    by (simp add: be_int_def)
qed (simp_all add: py_int_plot_size)

end
