(* ===== verification/Utf8.thy ===== *)
theory Utf8
  imports Ints
begin

text \<open>
  The UTF-8 codec of Python strings, which \<^verbatim>\<open>hddcoin/util/streamable.py\<close> uses for \<^verbatim>\<open>str\<close> fields.
  A string is the list of its code points. Encoding raises on surrogates, decoding raises on
  overlong forms, surrogates, values above 0x10FFFF and truncated sequences; the two are inverse
  to each other, so a string has exactly one encoding.
\<close>

type_synonym ustring = "int list"

definition code_point :: "int \<Rightarrow> bool" where
  "code_point c \<longleftrightarrow> 0 \<le> c \<and> c < 0x110000 \<and> \<not> (0xD800 \<le> c \<and> c < 0xE000)"

definition utf8_encode_char :: "int \<Rightarrow> bytes res" where
  "utf8_encode_char c =
     (if \<not> code_point c then Inl ValueError
      else if c < 0x80 then Inr [word_of_int c]
      else if c < 0x800 then Inr [word_of_int (0xC0 + c div 64), word_of_int (0x80 + c mod 64)]
      else if c < 0x10000 then
        Inr [word_of_int (0xE0 + c div 4096), word_of_int (0x80 + c div 64 mod 64), word_of_int (0x80 + c mod 64)]
      else Inr [word_of_int (0xF0 + c div 262144), word_of_int (0x80 + c div 4096 mod 64),
                word_of_int (0x80 + c div 64 mod 64), word_of_int (0x80 + c mod 64)])"

definition utf8_cont :: "byte \<Rightarrow> bool" where
  "utf8_cont b \<longleftrightarrow> 0x80 \<le> uint b \<and> uint b < 0xC0"

fun utf8_decode_char :: "int parser" where
  "utf8_decode_char [] = Inl ValueError"
| "utf8_decode_char (b0 # r) =
     (if uint b0 < 0x80 then Inr (uint b0, r)
      else if uint b0 < 0xC0 then Inl ValueError
      else if uint b0 < 0xE0 then
        (case r of
           b1 # r' \<Rightarrow>
             let c = (uint b0 - 0xC0) * 64 + (uint b1 - 0x80)
             in if utf8_cont b1 \<and> 0x80 \<le> c then Inr (c, r') else Inl ValueError
         | _ \<Rightarrow> Inl ValueError)
      else if uint b0 < 0xF0 then
        (case r of
           b1 # b2 # r' \<Rightarrow>
             let c = (uint b0 - 0xE0) * 4096 + (uint b1 - 0x80) * 64 + (uint b2 - 0x80)
             in if utf8_cont b1 \<and> utf8_cont b2 \<and> 0x800 \<le> c \<and> code_point c then Inr (c, r') else Inl ValueError
         | _ \<Rightarrow> Inl ValueError)
      else if uint b0 < 0xF8 then
        (case r of
           b1 # b2 # b3 # r' \<Rightarrow>
             let c = (uint b0 - 0xF0) * 262144 + (uint b1 - 0x80) * 4096 + (uint b2 - 0x80) * 64 + (uint b3 - 0x80)
             in if utf8_cont b1 \<and> utf8_cont b2 \<and> utf8_cont b3 \<and> 0x10000 \<le> c \<and> code_point c
                then Inr (c, r') else Inl ValueError
         | _ \<Rightarrow> Inl ValueError)
      else Inl ValueError)"

definition utf8_encode :: "ustring \<Rightarrow> bytes res" where
  "utf8_encode s = rbind (rmap utf8_encode_char s) (\<lambda>bs. Inr (concat bs))"

lemma utf8_decode_char_shorter: "utf8_decode_char bs = Inr (c, rest) \<Longrightarrow> length rest < length bs"
  by (cases bs) (auto simp: Let_def split: if_splits list.splits)

function utf8_decode :: "bytes \<Rightarrow> ustring res" where
  "utf8_decode bs =
     (if bs = [] then Inr []
      else rbind (utf8_decode_char bs) (\<lambda>(c, rest). rbind (utf8_decode rest) (\<lambda>cs. Inr (c # cs))))"
  by pat_completeness auto
termination
  by (relation "measure length") (auto dest: utf8_decode_char_shorter)

declare utf8_decode.simps [simp del]

lemma uint_wi: "0 \<le> x \<Longrightarrow> x < 256 \<Longrightarrow> uint (word_of_int x :: byte) = x"
  by (simp add: uint_word_of_int)

lemma wi_uint: "x = uint b \<Longrightarrow> word_of_int x = (b :: byte)"
  by simp

lemma sextets:
  fixes c q z :: int
  assumes "c = q * 64 + z" and "0 \<le> z" and "z < 64"
  shows "c div 64 = q" and "c mod 64 = z"
  using assms by simp_all

lemma div_64s: "(c :: int) div 4096 = c div 64 div 64" "c div 262144 = c div 64 div 64 div 64"
  by (simp_all flip: zdiv_zmult2_eq)

lemma sextet_split: obtains q z where "(c :: int) = q * 64 + z" "0 \<le> z" "z < 64"
  by (rule that [of "c div 64" "c mod 64"]) simp_all

lemma utf8_encode_charE:
  assumes "utf8_encode_char c = Inr bs"
  obtains "0 \<le> c" "c < 0x80" "bs = [word_of_int c]"
  | "0x80 \<le> c" "c < 0x800" "bs = [word_of_int (0xC0 + c div 64), word_of_int (0x80 + c mod 64)]"
  | "0x800 \<le> c" "c < 0x10000" "code_point c"
    "bs = [word_of_int (0xE0 + c div 4096), word_of_int (0x80 + c div 64 mod 64), word_of_int (0x80 + c mod 64)]"
  | "0x10000 \<le> c" "c < 0x110000" "code_point c"
    "bs = [word_of_int (0xF0 + c div 262144), word_of_int (0x80 + c div 4096 mod 64),
           word_of_int (0x80 + c div 64 mod 64), word_of_int (0x80 + c mod 64)]"
  using assms that
  by (auto simp: utf8_encode_char_def code_point_def split: if_splits)

lemma utf8_decode_encode_char:
  assumes "utf8_encode_char c = Inr bs"
  shows "utf8_decode_char (bs @ rest) = Inr (c, rest)"
  using assms
proof (cases rule: utf8_encode_charE)
  case 1
  then show ?thesis by (simp add: uint_wi)
next
  case 2
  obtain q z where c: "c = q * 64 + z" "0 \<le> z" "z < 64" by (rule sextet_split)
  have b: "0 \<le> q" "q < 32" using 2(1,2) c by linarith+
  have e: "c div 64 = q" "c mod 64 = z" by (rule sextets [OF c])+
  have "uint (word_of_int (0xC0 + q) :: byte) = 0xC0 + q" "uint (word_of_int (0x80 + z) :: byte) = 0x80 + z"
    using b c by (intro uint_wi; linarith)+
  then show ?thesis using 2(1,2) b c unfolding 2(3) e by (simp add: utf8_cont_def Let_def)
next
  case 3
  obtain q z where c: "c = q * 64 + z" "0 \<le> z" "z < 64" by (rule sextet_split)
  obtain x y where q: "q = x * 64 + y" "0 \<le> y" "y < 64" by (rule sextet_split)
  have b: "0 \<le> x" "x < 16" using 3(1,2) c q by linarith+
  have e: "c div 64 = q" "c mod 64 = z" "q div 64 = x" "q mod 64 = y" by (rule sextets [OF c] sextets [OF q])+
  have "uint (word_of_int (0xE0 + x) :: byte) = 0xE0 + x" "uint (word_of_int (0x80 + y) :: byte) = 0x80 + y"
    "uint (word_of_int (0x80 + z) :: byte) = 0x80 + z"
    using b c q by (intro uint_wi; linarith)+
  moreover have "x * 4096 + y * 64 + z = c" using c q by simp
  ultimately show ?thesis using 3(1,2,3) b c(2,3) q(2,3) unfolding 3(4) div_64s e
    by (simp add: utf8_cont_def Let_def)
next
  case 4
  obtain q z where c: "c = q * 64 + z" "0 \<le> z" "z < 64" by (rule sextet_split)
  obtain p y where q: "q = p * 64 + y" "0 \<le> y" "y < 64" by (rule sextet_split)
  obtain w x where p: "p = w * 64 + x" "0 \<le> x" "x < 64" by (rule sextet_split)
  have b: "0 \<le> w" "w < 8" using 4(1,2) c q p by linarith+
  have e: "c div 64 = q" "c mod 64 = z" "q div 64 = p" "q mod 64 = y" "p div 64 = w" "p mod 64 = x"
    by (rule sextets [OF c] sextets [OF q] sextets [OF p])+
  have "uint (word_of_int (0xF0 + w) :: byte) = 0xF0 + w" "uint (word_of_int (0x80 + x) :: byte) = 0x80 + x"
    "uint (word_of_int (0x80 + y) :: byte) = 0x80 + y" "uint (word_of_int (0x80 + z) :: byte) = 0x80 + z"
    using b c q p by (intro uint_wi; linarith)+
  moreover have "w * 262144 + (x * 4096 + (y * 64 + z)) = c" using c q p by simp
  ultimately show ?thesis using 4(1,2,3) b c(2,3) q(2,3) p(2,3) unfolding 4(4) div_64s e
    by (simp add: utf8_cont_def Let_def)
qed

lemma utf8_encode_char_bytes:
  "0x80 \<le> c \<Longrightarrow> c < 0x800 \<Longrightarrow>
     utf8_encode_char c = Inr [word_of_int (0xC0 + c div 64), word_of_int (0x80 + c mod 64)]"
  "0x800 \<le> c \<Longrightarrow> c < 0x10000 \<Longrightarrow> code_point c \<Longrightarrow>
     utf8_encode_char c =
       Inr [word_of_int (0xE0 + c div 64 div 64), word_of_int (0x80 + c div 64 mod 64), word_of_int (0x80 + c mod 64)]"
  "0x10000 \<le> c \<Longrightarrow> code_point c \<Longrightarrow>
     utf8_encode_char c =
       Inr [word_of_int (0xF0 + c div 64 div 64 div 64), word_of_int (0x80 + c div 64 div 64 mod 64),
            word_of_int (0x80 + c div 64 mod 64), word_of_int (0x80 + c mod 64)]"
  by (simp_all add: utf8_encode_char_def code_point_def div_64s)

lemma utf8_decode_char_canonical:
  assumes "utf8_decode_char bs = Inr (c, rest)"
  shows "\<exists>e. utf8_encode_char c = Inr e \<and> bs = e @ rest"
proof (cases bs)
  case Nil
  with assms show ?thesis by simp
next
  case (Cons b0 r)
  have b0: "0 \<le> uint b0" by simp
  note a = assms [unfolded Cons utf8_decode_char.simps Let_def]
  show ?thesis
  proof (cases "uint b0 < 0x80")
    case True
    with a Cons b0 show ?thesis by (auto simp: utf8_encode_char_def code_point_def)
  next
    case one: False
    show ?thesis
    proof (cases "uint b0 < 0xE0")
      case True
      with a one obtain b1 where r: "r = b1 # rest" and cont: "utf8_cont b1"
        and c: "c = (uint b0 - 0xC0) * 64 + (uint b1 - 0x80)" "0x80 \<le> c"
        by (auto split: list.splits if_splits)
      from cont have b: "0 \<le> uint b1 - 0x80" "uint b1 - 0x80 < 64" by (simp_all add: utf8_cont_def)
      have "c < 0x800" using b True unfolding c by (simp add: left_diff_distrib)
      from utf8_encode_char_bytes(1) [OF c(2) this] show ?thesis
        unfolding sextets [OF c(1) b] Cons r by simp
    next
      case two: False
      show ?thesis
      proof (cases "uint b0 < 0xF0")
        case True
        with a one two obtain b1 b2 where r: "r = b1 # b2 # rest" and cont: "utf8_cont b1" "utf8_cont b2"
          and c: "c = (uint b0 - 0xE0) * 4096 + (uint b1 - 0x80) * 64 + (uint b2 - 0x80)" "0x800 \<le> c" "code_point c"
          by (auto split: list.splits if_splits)
        from cont have b: "0 \<le> uint b1 - 0x80" "uint b1 - 0x80 < 64" "0 \<le> uint b2 - 0x80" "uint b2 - 0x80 < 64"
          by (simp_all add: utf8_cont_def)
        have c': "c = ((uint b0 - 0xE0) * 64 + (uint b1 - 0x80)) * 64 + (uint b2 - 0x80)" using c by simp
        have "uint b0 \<le> 0xEF" "uint b1 \<le> 0xBF" "uint b2 \<le> 0xBF" using b True by simp_all
        then have "c < 0x10000" unfolding c by (simp add: left_diff_distrib)
        from utf8_encode_char_bytes(2) [OF c(2) this c(3)] show ?thesis
          unfolding sextets [OF c' b(3,4)] sextets [OF refl b(1,2)] Cons r by simp
      next
        case False
        with a one two obtain b1 b2 b3 where r: "r = b1 # b2 # b3 # rest"
          and cont: "utf8_cont b1" "utf8_cont b2" "utf8_cont b3"
          and c: "c = (uint b0 - 0xF0) * 262144 + (uint b1 - 0x80) * 4096 + (uint b2 - 0x80) * 64 + (uint b3 - 0x80)"
            "0x10000 \<le> c" "code_point c"
          by (auto split: list.splits if_splits)
        from cont have b: "0 \<le> uint b1 - 0x80" "uint b1 - 0x80 < 64" "0 \<le> uint b2 - 0x80" "uint b2 - 0x80 < 64"
          "0 \<le> uint b3 - 0x80" "uint b3 - 0x80 < 64"
          by (simp_all add: utf8_cont_def)
        have c': "c = (((uint b0 - 0xF0) * 64 + (uint b1 - 0x80)) * 64 + (uint b2 - 0x80)) * 64 + (uint b3 - 0x80)"
          using c by simp
        from utf8_encode_char_bytes(3) [OF c(2,3)] show ?thesis
          unfolding sextets [OF c' b(5,6)] sextets [OF refl b(3,4)] sextets [OF refl b(1,2)] Cons r by simp
      qed
    qed
  qed
qed

lemma utf8_encode_Nil [simp]: "utf8_encode [] = Inr []"
  by (simp add: utf8_encode_def)

lemma utf8_encode_Cons:
  "utf8_encode (c # cs) = rbind (utf8_encode_char c) (\<lambda>e. rbind (utf8_encode cs) (\<lambda>es. Inr (e @ es)))"
  by (simp add: utf8_encode_def rbind_assoc)

lemma utf8_decode_Nil [simp]: "utf8_decode [] = Inr []"
  by (simp add: utf8_decode.simps)

lemma utf8_decode_encode: "utf8_encode s = Inr bs \<Longrightarrow> utf8_decode bs = Inr s"
proof (induction s arbitrary: bs)
  case (Cons c cs)
  then obtain e es where e: "utf8_encode_char c = Inr e" and es: "utf8_encode cs = Inr es" and "bs = e @ es"
    by (auto simp: utf8_encode_Cons res_conv)
  moreover have "e \<noteq> []" using e by (auto elim: utf8_encode_charE)
  ultimately show ?case
    using Cons.IH [OF es] utf8_decode_encode_char [OF e] by (simp add: utf8_decode.simps [of "e @ es"])
qed simp

lemma utf8_decode_canonical: "utf8_decode bs = Inr s \<Longrightarrow> utf8_encode s = Inr bs"
proof (induction bs arbitrary: s rule: utf8_decode.induct)
  case (1 bs)
  show ?case
  proof (cases "bs = []")
    case True
    with "1.prems" show ?thesis by simp
  next
    case False
    with "1.prems" obtain c rest cs where c: "utf8_decode_char bs = Inr (c, rest)"
      and cs: "utf8_decode rest = Inr cs" and s: "s = c # cs"
      by (auto simp: utf8_decode.simps [of bs] res_conv)
    from "1.IH" [OF False c refl] cs have "utf8_encode cs = Inr rest" by simp
    with utf8_decode_char_canonical [OF c] s show ?thesis by (auto simp: utf8_encode_Cons)
  qed
qed

end
