(* ===== verification/Streamable.thy ===== *)
theory Streamable
  imports Utf8
begin

text \<open>
  \<^verbatim>\<open>hddcoin/util/streamable.py\<close>: the serialization format of every consensus object and message.
  A type annotation is a value of \<open>ty\<close>, an item is a value of \<open>'b val\<close>;
  \<open>parse_one_item\<close> is the parser that \<^verbatim>\<open>function_to_parse_one_item\<close> returns and \<open>stream_one_item\<close>
  the writer. Types whose code is not in the repository enter through a \<open>'b codec\<close>: the BLS types of
  \<^verbatim>\<open>blspy\<close> (read with a size hint) and custom items with their own \<^verbatim>\<open>parse\<close> (CLVM programs).
  Shown here: what is written is read back, so serialization is injective; and where custom items are absent or keep the
  bytes they were read from, the format is a bijection between the well-typed items of a type and the byte strings that parse.
\<close>

section \<open>Condition opcodes\<close>

text \<open>\<^verbatim>\<open>hddcoin/types/condition_opcodes.py\<close>.\<close>

datatype ConditionOpcode =
    AGG_SIG_UNSAFE | AGG_SIG_ME
  | CREATE_COIN | RESERVE_FEE
  | CREATE_COIN_ANNOUNCEMENT | ASSERT_COIN_ANNOUNCEMENT
  | CREATE_PUZZLE_ANNOUNCEMENT | ASSERT_PUZZLE_ANNOUNCEMENT
  | ASSERT_MY_COIN_ID | ASSERT_MY_PARENT_ID | ASSERT_MY_PUZZLEHASH | ASSERT_MY_AMOUNT
  | ASSERT_SECONDS_RELATIVE | ASSERT_SECONDS_ABSOLUTE
  | ASSERT_HEIGHT_RELATIVE | ASSERT_HEIGHT_ABSOLUTE

fun opcode_value :: "ConditionOpcode \<Rightarrow> bytes" where
  "opcode_value AGG_SIG_UNSAFE = [49]"
| "opcode_value AGG_SIG_ME = [50]"
| "opcode_value CREATE_COIN = [51]"
| "opcode_value RESERVE_FEE = [52]"
| "opcode_value CREATE_COIN_ANNOUNCEMENT = [60]"
| "opcode_value ASSERT_COIN_ANNOUNCEMENT = [61]"
| "opcode_value CREATE_PUZZLE_ANNOUNCEMENT = [62]"
| "opcode_value ASSERT_PUZZLE_ANNOUNCEMENT = [63]"
| "opcode_value ASSERT_MY_COIN_ID = [70]"
| "opcode_value ASSERT_MY_PARENT_ID = [71]"
| "opcode_value ASSERT_MY_PUZZLEHASH = [72]"
| "opcode_value ASSERT_MY_AMOUNT = [73]"
| "opcode_value ASSERT_SECONDS_RELATIVE = [80]"
| "opcode_value ASSERT_SECONDS_ABSOLUTE = [81]"
| "opcode_value ASSERT_HEIGHT_RELATIVE = [82]"
| "opcode_value ASSERT_HEIGHT_ABSOLUTE = [83]"

definition all_opcodes :: "ConditionOpcode list" where
  "all_opcodes =
     [AGG_SIG_UNSAFE, AGG_SIG_ME, CREATE_COIN, RESERVE_FEE, CREATE_COIN_ANNOUNCEMENT, ASSERT_COIN_ANNOUNCEMENT,
      CREATE_PUZZLE_ANNOUNCEMENT, ASSERT_PUZZLE_ANNOUNCEMENT, ASSERT_MY_COIN_ID, ASSERT_MY_PARENT_ID,
      ASSERT_MY_PUZZLEHASH, ASSERT_MY_AMOUNT, ASSERT_SECONDS_RELATIVE, ASSERT_SECONDS_ABSOLUTE,
      ASSERT_HEIGHT_RELATIVE, ASSERT_HEIGHT_ABSOLUTE]"

text \<open>\<^verbatim>\<open>ConditionOpcode(blob)\<close> raises \<^verbatim>\<open>ValueError\<close> on a value that is no member.\<close>

definition ConditionOpcode_new :: "bytes \<Rightarrow> ConditionOpcode res" where
  "ConditionOpcode_new blob =
     (case find (\<lambda>c. opcode_value c = blob) all_opcodes of Some c \<Rightarrow> Inr c | None \<Rightarrow> Inl ValueError)"

definition ConditionOpcode_from_bytes :: "bytes \<Rightarrow> ConditionOpcode res" where
  "ConditionOpcode_from_bytes blob = rassert (length blob = 1) (ConditionOpcode_new blob)"

lemma length_opcode_value [simp]: "length (opcode_value c) = 1"
  by (cases c) simp_all

lemma all_opcodes_complete: "c \<in> set all_opcodes"
  by (cases c) (simp_all add: all_opcodes_def)

lemma opcode_value_inject: "opcode_value c = opcode_value d \<longleftrightarrow> c = d"
  by (cases c; cases d; simp)

lemma find_opcode: "find (\<lambda>d. opcode_value d = opcode_value c) all_opcodes = Some c"
proof -
  have "find (\<lambda>d. opcode_value d = opcode_value c) all_opcodes \<noteq> None"
    by (simp add: find_None_iff) (use all_opcodes_complete in blast)
  then obtain d where "find (\<lambda>d. opcode_value d = opcode_value c) all_opcodes = Some d" by blast
  then show ?thesis by (auto simp: find_Some_iff opcode_value_inject)
qed

lemma ConditionOpcode_from_bytes_value: "ConditionOpcode_from_bytes (opcode_value c) = Inr c"
  by (simp add: ConditionOpcode_from_bytes_def ConditionOpcode_new_def find_opcode)

lemma ConditionOpcode_from_bytes_canonical: "ConditionOpcode_from_bytes bs = Inr c \<Longrightarrow> opcode_value c = bs"
  by (auto simp: ConditionOpcode_from_bytes_def ConditionOpcode_new_def rassert_eq_Inr find_Some_iff
      split: option.splits)

section \<open>Types and items\<close>

datatype bls_type = PrivateKey | G1Element | G2Element

datatype ty =
    TBool
  | TOptional ty
  | TStruct pack_fmt
  | TUint128
  | TInt512
  | TSized nat
  | TCustom
  | TBytes
  | TList ty
  | TTuple "ty list"
  | TBls bls_type
  | TOpcode
  | TStr
  | TClass "ty list"

datatype 'b val =
    VBool bool
  | VNone
  | VSome "'b val"
  | VInt int
  | VBytes bytes
  | VList "'b val list"
  | VTuple "'b val list"
  | VBls 'b
  | VOpcode ConditionOpcode
  | VStr ustring
  | VObj "'b val list"
  | VCustom 'b

text \<open>
  The code that is not in the repository: the sizes and the conversions of the BLS types, and
  \<^verbatim>\<open>parse\<close> and \<^verbatim>\<open>stream\<close> of a custom item. \<open>bls_is\<close> and \<open>custom_is\<close> say which values are instances.
\<close>

record 'b codec =
  bls_size :: "bls_type \<Rightarrow> nat"
  bls_from_bytes :: "bls_type \<Rightarrow> bytes \<Rightarrow> 'b res"
  bls_to_bytes :: "'b \<Rightarrow> bytes"
  bls_is :: "bls_type \<Rightarrow> 'b \<Rightarrow> bool"
  custom_parse :: "'b parser"
  custom_stream :: "'b \<Rightarrow> bytes res"
  custom_is :: "'b \<Rightarrow> bool"

section \<open>Parsing\<close>

definition parse_bool :: "bool parser" where
  "parse_bool f =
     (let (bool_byte, f') = f_read 1 f
      in rassert (length bool_byte = 1)
           (if bool_byte = [0] then Inr (False, f')
            else if bool_byte = [1] then Inr (True, f')
            else Inl ValueError))"

definition parse_uint32 :: "int parser" where
  "parse_uint32 f =
     (let (size_bytes, f') = f_read 4 f
      in rassert (length size_bytes = 4) (rbind (uint32 (be_int size_bytes)) (\<lambda>n. Inr (n, f'))))"

definition write_uint32 :: "int \<Rightarrow> bytes res" where
  "write_uint32 value = to_bytes_unsigned 4 value"

definition parse_optional :: "'a parser \<Rightarrow> 'a option parser" where
  "parse_optional parse_inner f =
     (let (is_present_bytes, f') = f_read 1 f
      in rassert (length is_present_bytes = 1)
           (if is_present_bytes = [0] then Inr (None, f')
            else if is_present_bytes = [1] then rbind (parse_inner f') (\<lambda>(x, f''). Inr (Some x, f''))
            else Inl ValueError))"

definition parse_bytes :: "bytes parser" where
  "parse_bytes f =
     rbind (parse_uint32 f) (\<lambda>(list_size, f').
       let (bytes_read, f'') = f_read (nat list_size) f'
       in rassert (int (length bytes_read) = list_size) (Inr (bytes_read, f'')))"

fun parse_times :: "nat \<Rightarrow> 'a parser \<Rightarrow> 'a list parser" where
  "parse_times 0 p f = Inr ([], f)"
| "parse_times (Suc n) p f = rbind (p f) (\<lambda>(x, f'). rbind (parse_times n p f') (\<lambda>(xs, f''). Inr (x # xs, f'')))"

definition parse_list :: "'a parser \<Rightarrow> 'a list parser" where
  "parse_list parse_inner f = rbind (parse_uint32 f) (\<lambda>(list_size, f'). parse_times (nat list_size) parse_inner f')"

fun parse_tuple :: "'a parser list \<Rightarrow> 'a list parser" where
  "parse_tuple [] f = Inr ([], f)"
| "parse_tuple (p # ps) f = rbind (p f) (\<lambda>(x, f'). rbind (parse_tuple ps f') (\<lambda>(xs, f''). Inr (x # xs, f'')))"

definition parse_size_hints :: "(bytes \<Rightarrow> 'a res) \<Rightarrow> nat \<Rightarrow> 'a parser" where
  "parse_size_hints from_bytes bytes_to_read f =
     (let (bytes_read, f') = f_read bytes_to_read f
      in rassert (length bytes_read = bytes_to_read) (rbind (from_bytes bytes_read) (\<lambda>x. Inr (x, f'))))"

definition parse_str :: "ustring parser" where
  "parse_str f =
     rbind (parse_uint32 f) (\<lambda>(str_size, f').
       let (str_read_bytes, f'') = f_read (nat str_size) f'
       in rassert (int (length str_read_bytes) = str_size) (rbind (utf8_decode str_read_bytes) (\<lambda>s. Inr (s, f''))))"

definition map_parser :: "('a \<Rightarrow> 'c) \<Rightarrow> 'a parser \<Rightarrow> 'c parser" where
  "map_parser g p f = rbind (p f) (\<lambda>(x, f'). Inr (g x, f'))"

fun parse_one_item :: "'b codec \<Rightarrow> ty \<Rightarrow> 'b val parser" where
  "parse_one_item K TBool = map_parser VBool parse_bool"
| "parse_one_item K (TOptional t) =
     map_parser (\<lambda>x. case x of None \<Rightarrow> VNone | Some v \<Rightarrow> VSome v) (parse_optional (parse_one_item K t))"
| "parse_one_item K (TStruct p) = map_parser VInt (StructStream_parse p)"
| "parse_one_item K TUint128 = map_parser VInt uint128_parse"
| "parse_one_item K TInt512 = map_parser VInt int512_parse"
| "parse_one_item K (TSized n) = map_parser VBytes (sized_bytes_parse n)"
| "parse_one_item K TCustom = map_parser VCustom (custom_parse K)"
| "parse_one_item K (TClass ts) = map_parser VObj (parse_tuple (map (parse_one_item K) ts))"
| "parse_one_item K TBytes = map_parser VBytes parse_bytes"
| "parse_one_item K (TList t) = map_parser VList (parse_list (parse_one_item K t))"
| "parse_one_item K (TTuple ts) = map_parser VTuple (parse_tuple (map (parse_one_item K) ts))"
| "parse_one_item K (TBls h) = map_parser VBls (parse_size_hints (bls_from_bytes K h) (bls_size K h))"
| "parse_one_item K TOpcode = map_parser VOpcode (parse_size_hints ConditionOpcode_from_bytes 1)"
| "parse_one_item K TStr = map_parser VStr parse_str"

text \<open>\<^verbatim>\<open>Streamable.parse\<close> reads the fields in order; \<^verbatim>\<open>from_bytes\<close> wants the whole blob consumed.\<close>

definition Streamable_parse :: "'b codec \<Rightarrow> ty list \<Rightarrow> 'b val parser" where
  "Streamable_parse K flds f = map_parser VObj (parse_tuple (map (parse_one_item K) flds)) f"

definition Streamable_from_bytes :: "'b codec \<Rightarrow> ty list \<Rightarrow> bytes \<Rightarrow> 'b val res" where
  "Streamable_from_bytes K flds blob =
     rbind (Streamable_parse K flds blob) (\<lambda>(parsed, f). rassert (f = []) (Inr parsed))"

section \<open>Streaming\<close>

lemma zip_size_ty [termination_simp]: "(t, v) \<in> set (zip ts vs) \<Longrightarrow> size t < Suc (size_list size ts)"
  by (auto dest!: set_zip_leftD simp: less_Suc_eq_le intro: size_list_estimation')

fun stream_one_item :: "'b codec \<Rightarrow> ty \<Rightarrow> 'b val \<Rightarrow> bytes res" where
  "stream_one_item K (TOptional u) item =
     (case item of
        VNone \<Rightarrow> Inr [0]
      | VSome v \<Rightarrow> rbind (stream_one_item K u v) (\<lambda>b. Inr ([1] @ b))
      | _ \<Rightarrow> Inl TypeError)"
| "stream_one_item K TBytes item =
     (case item of
        VBytes bs \<Rightarrow> rbind (uint32 (int (length bs))) (\<lambda>n. rbind (write_uint32 n) (\<lambda>h. Inr (h @ bs)))
      | _ \<Rightarrow> Inl TypeError)"
| "stream_one_item K (TStruct p) item = (case item of VInt i \<Rightarrow> StructStream_stream p i | _ \<Rightarrow> Inl TypeError)"
| "stream_one_item K TUint128 item = (case item of VInt i \<Rightarrow> uint128_stream i | _ \<Rightarrow> Inl TypeError)"
| "stream_one_item K TInt512 item = (case item of VInt i \<Rightarrow> int512_stream i | _ \<Rightarrow> Inl TypeError)"
| "stream_one_item K (TSized n) item = (case item of VBytes bs \<Rightarrow> Inr (sized_bytes_stream bs) | _ \<Rightarrow> Inl TypeError)"
| "stream_one_item K TCustom item = (case item of VCustom c \<Rightarrow> custom_stream K c | _ \<Rightarrow> Inl TypeError)"
| "stream_one_item K (TClass ts) item =
     (case item of
        VObj vs \<Rightarrow>
          rassert (length vs = length ts)
            (rbind (rmap (\<lambda>(u, v). stream_one_item K u v) (zip ts vs)) (\<lambda>bs. Inr (concat bs)))
      | _ \<Rightarrow> Inl TypeError)"
| "stream_one_item K (TBls h) item = (case item of VBls b \<Rightarrow> Inr (bls_to_bytes K b) | _ \<Rightarrow> Inl TypeError)"
| "stream_one_item K TOpcode item = (case item of VOpcode c \<Rightarrow> Inr (opcode_value c) | _ \<Rightarrow> Inl TypeError)"
| "stream_one_item K (TList u) item =
     (case item of
        VList vs \<Rightarrow>
          rbind (uint32 (int (length vs))) (\<lambda>n. rbind (write_uint32 n) (\<lambda>h.
            rbind (rmap (stream_one_item K u) vs) (\<lambda>bs. Inr (h @ concat bs))))
      | _ \<Rightarrow> Inl TypeError)"
| "stream_one_item K (TTuple ts) item =
     (case item of
        VTuple vs \<Rightarrow>
          rassert (length vs = length ts)
            (rbind (rmap (\<lambda>(u, v). stream_one_item K u v) (zip ts vs)) (\<lambda>bs. Inr (concat bs)))
      | _ \<Rightarrow> Inl TypeError)"
| "stream_one_item K TStr item =
     (case item of
        VStr s \<Rightarrow>
          rbind (utf8_encode s) (\<lambda>str_bytes.
            rbind (uint32 (int (length str_bytes))) (\<lambda>n. rbind (write_uint32 n) (\<lambda>h. Inr (h @ str_bytes))))
      | _ \<Rightarrow> Inl TypeError)"
| "stream_one_item K TBool item = (case item of VBool b \<Rightarrow> Inr [if b then 1 else 0] | _ \<Rightarrow> Inl TypeError)"

text \<open>\<^verbatim>\<open>Streamable.stream\<close> writes the fields in order; \<^verbatim>\<open>get_hash\<close> hashes the result.\<close>

definition Streamable_stream :: "'b codec \<Rightarrow> ty list \<Rightarrow> 'b val list \<Rightarrow> bytes res" where
  "Streamable_stream K flds vs =
     rbind (rmap (\<lambda>(u, v). stream_one_item K u v) (zip flds vs)) (\<lambda>bs. Inr (concat bs))"

definition Streamable_get_hash :: "(bytes \<Rightarrow> bytes) \<Rightarrow> 'b codec \<Rightarrow> ty list \<Rightarrow> 'b val list \<Rightarrow> bytes res" where
  "Streamable_get_hash std_hash K flds vs = rbind (Streamable_stream K flds vs) (\<lambda>b. bytes32 (std_hash b))"

section \<open>Typing\<close>

text \<open>The items \<^verbatim>\<open>strictdataclass\<close> admits for an annotation, within the 4-byte length prefixes.\<close>

fun has_type :: "'b codec \<Rightarrow> ty \<Rightarrow> 'b val \<Rightarrow> bool" where
  "has_type K TBool item = (case item of VBool b \<Rightarrow> True | _ \<Rightarrow> False)"
| "has_type K (TOptional u) item = (case item of VNone \<Rightarrow> True | VSome v \<Rightarrow> has_type K u v | _ \<Rightarrow> False)"
| "has_type K (TStruct p) item = (case item of VInt i \<Rightarrow> in_fmt p i | _ \<Rightarrow> False)"
| "has_type K TUint128 item = (case item of VInt i \<Rightarrow> 0 \<le> i \<and> i < 2 ^ 128 | _ \<Rightarrow> False)"
| "has_type K TInt512 item = (case item of VInt i \<Rightarrow> - (2 ^ 512) < i \<and> i < 2 ^ 512 | _ \<Rightarrow> False)"
| "has_type K (TSized n) item = (case item of VBytes bs \<Rightarrow> length bs = n | _ \<Rightarrow> False)"
| "has_type K TCustom item = (case item of VCustom c \<Rightarrow> custom_is K c | _ \<Rightarrow> False)"
| "has_type K (TClass ts) item =
     (case item of VObj vs \<Rightarrow> length vs = length ts \<and> list_all (\<lambda>(u, v). has_type K u v) (zip ts vs) | _ \<Rightarrow> False)"
| "has_type K TBytes item = (case item of VBytes bs \<Rightarrow> length bs < 2 ^ 32 | _ \<Rightarrow> False)"
| "has_type K (TList u) item = (case item of VList vs \<Rightarrow> length vs < 2 ^ 32 \<and> list_all (has_type K u) vs | _ \<Rightarrow> False)"
| "has_type K (TTuple ts) item =
     (case item of VTuple vs \<Rightarrow> length vs = length ts \<and> list_all (\<lambda>(u, v). has_type K u v) (zip ts vs) | _ \<Rightarrow> False)"
| "has_type K (TBls h) item = (case item of VBls b \<Rightarrow> bls_is K h b | _ \<Rightarrow> False)"
| "has_type K TOpcode item = (case item of VOpcode c \<Rightarrow> True | _ \<Rightarrow> False)"
| "has_type K TStr item =
     (case item of VStr s \<Rightarrow> (case utf8_encode s of Inl _ \<Rightarrow> False | Inr bs \<Rightarrow> length bs < 2 ^ 32) | _ \<Rightarrow> False)"

text \<open>
  What is relied on of the code outside the repository: the conversions of the BLS types are inverse to each other, and what a custom
  item writes it reads back. A custom item may accept other encodings as well: \<^verbatim>\<open>Program.parse\<close> reads atoms whose size is not written
  in the shortest form.
\<close>

definition codec_ok :: "'b codec \<Rightarrow> bool" where
  "codec_ok K \<longleftrightarrow>
     (\<forall>h b. bls_is K h b \<longrightarrow> length (bls_to_bytes K b) = bls_size K h \<and> bls_from_bytes K h (bls_to_bytes K b) = Inr b) \<and>
     (\<forall>h bs b. length bs = bls_size K h \<and> bls_from_bytes K h bs = Inr b \<longrightarrow> bls_is K h b \<and> bls_to_bytes K b = bs) \<and>
     (\<forall>c. custom_is K c \<longrightarrow> (\<exists>bs. custom_stream K c = Inr bs \<and> (\<forall>rest. custom_parse K (bs @ rest) = Inr (c, rest))))"

text \<open>Custom items that are written as they were read, and annotations without custom items.\<close>

definition custom_canonical :: "'b codec \<Rightarrow> bool" where
  "custom_canonical K \<longleftrightarrow>
     (\<forall>f c rest. custom_parse K f = Inr (c, rest) \<longrightarrow>
        custom_is K c \<and> (\<exists>bs. custom_stream K c = Inr bs \<and> f = bs @ rest))"

fun custom_free :: "ty \<Rightarrow> bool" where
  "custom_free TCustom = False"
| "custom_free (TOptional t) = custom_free t"
| "custom_free (TList t) = custom_free t"
| "custom_free (TTuple ts) = list_all custom_free ts"
| "custom_free (TClass ts) = list_all custom_free ts"
| "custom_free _ = True"

section \<open>Serialized programs\<close>

text \<open>
  \<^verbatim>\<open>SerializedProgram\<close> of \<^verbatim>\<open>types/blockchain_format/program.py\<close>, the custom item of blocks and spends: it keeps the bytes of the first program
  in the buffer. \<open>serialized_length\<close> is the function of \<^verbatim>\<open>clvm_rs\<close>, which finds the end of that program and looks at nothing behind it.
\<close>

definition SerializedProgram_parse :: "(bytes \<Rightarrow> nat res) \<Rightarrow> bytes parser" where
  "SerializedProgram_parse serialized_length f = rbind (serialized_length f) (\<lambda>n. Inr (f_read n f))"

definition SerializedProgram_stream :: "bytes \<Rightarrow> bytes res" where
  "SerializedProgram_stream buf = Inr buf"

definition serialized_length_ok :: "(bytes \<Rightarrow> nat res) \<Rightarrow> bool" where
  "serialized_length_ok serialized_length \<longleftrightarrow>
     (\<forall>f n. serialized_length f = Inr n \<longrightarrow> n \<le> length f \<and> (\<forall>rest. serialized_length (take n f @ rest) = Inr n))"

definition with_serialized_programs :: "(bytes \<Rightarrow> nat res) \<Rightarrow> bytes codec \<Rightarrow> bytes codec" where
  "with_serialized_programs serialized_length K =
     K\<lparr>custom_parse := SerializedProgram_parse serialized_length, custom_stream := SerializedProgram_stream,
       custom_is := (\<lambda>buf. serialized_length buf = Inr (length buf))\<rparr>"

lemma serialized_programs_canonical:
  assumes "serialized_length_ok sl"
  shows "custom_canonical (with_serialized_programs sl K)"
  unfolding custom_canonical_def
proof (intro allI impI)
  fix f c rest assume "custom_parse (with_serialized_programs sl K) f = Inr (c, rest)"
  then obtain n where n: "sl f = Inr n" "c = take n f" "rest = drop n f"
    by (auto simp: with_serialized_programs_def SerializedProgram_parse_def f_read_def elim!: rbind_InrE)
  then have "sl (take n f @ []) = Inr n" "n \<le> length f" using assms unfolding serialized_length_ok_def by blast+
  then show "custom_is (with_serialized_programs sl K) c \<and>
      (\<exists>bs. custom_stream (with_serialized_programs sl K) c = Inr bs \<and> f = bs @ rest)"
    using n by (simp add: with_serialized_programs_def SerializedProgram_stream_def)
qed

lemma serialized_programs_ok:
  assumes "serialized_length_ok sl" "codec_ok K"
  shows "codec_ok (with_serialized_programs sl K)"
proof -
  have "SerializedProgram_parse sl (c @ rest) = Inr (c, rest)" if c: "sl c = Inr (length c)" for c rest
  proof -
    have "sl (take (length c) c @ rest) = Inr (length c)" using assms(1) c unfolding serialized_length_ok_def by blast
    then show ?thesis by (simp add: SerializedProgram_parse_def f_read_def)
  qed
  then show ?thesis using assms(2)
    by (simp add: codec_ok_def with_serialized_programs_def SerializedProgram_stream_def)
qed

section \<open>Item codecs\<close>

text \<open>
  The contract between a parser and a writer: every well-typed item is written, what is written
  is read back wherever it stands in the stream, and a parser that is meant to be canonical (\<open>can\<close>) accepts only what the
  writer produces.
\<close>

locale item_codec =
  fixes p :: "'a parser" and s :: "'a \<Rightarrow> bytes res" and P :: "'a \<Rightarrow> bool" and can :: bool
  assumes round_trip: "P x \<Longrightarrow> \<exists>bs. s x = Inr bs \<and> (\<forall>rest. p (bs @ rest) = Inr (x, rest))"
    and canonical: "can \<Longrightarrow> p f = Inr (x, rest) \<Longrightarrow> P x \<and> (\<exists>bs. s x = Inr bs \<and> f = bs @ rest)"
begin

lemma parse_stream:
  assumes "P x" "s x = Inr bs"
  shows "p (bs @ rest) = Inr (x, rest)"
  using round_trip [OF assms(1)] assms(2) by auto

lemma stream_total: "P x \<Longrightarrow> \<exists>bs. s x = Inr bs"
  using round_trip by blast

lemma stream_inject:
  assumes "P x" "P y" "s x = s y"
  shows "x = y"
proof -
  obtain bs where "s x = Inr bs" using stream_total [OF assms(1)] ..
  with assms parse_stream [of x bs "[]"] parse_stream [of y bs "[]"] show ?thesis by simp
qed

lemma prefix_free:
  assumes "P x" "P y" "s x = Inr bs" "s y = Inr (bs @ ext)"
  shows "x = y \<and> ext = []"
  using parse_stream [OF assms(1,3), of ext] parse_stream [OF assms(2,4), of "[]"] by simp

lemma parse_typed: "can \<Longrightarrow> p f = Inr (x, rest) \<Longrightarrow> P x"
  using canonical by blast

lemma parse_canonical: "can \<Longrightarrow> p f = Inr (x, rest) \<Longrightarrow> \<exists>bs. s x = Inr bs \<and> f = bs @ rest"
  using canonical by blast

end

lemma item_codec_weaken: "item_codec p s P True \<Longrightarrow> item_codec p s P can"
  by (simp add: item_codec_def)

lemma parse_uint32_eq: "parse_uint32 = StructStream_parse FMT_L"
  by (rule ext)
    (simp add: parse_uint32_def StructStream_parse_def uint32_def struct_unpack_def)

lemma write_uint32_eq: "write_uint32 n = (if 0 \<le> n \<and> n < 2 ^ 32 then Inr (be_bytes 4 n) else Inl OverflowError)"
  by (simp add: write_uint32_def to_bytes_unsigned_def)

lemma item_codec_struct: "item_codec (StructStream_parse p) (StructStream_stream p) (in_fmt p) can"
proof unfold_locales
  fix n f rest
  show "in_fmt p n \<Longrightarrow> \<exists>bs. StructStream_stream p n = Inr bs \<and> (\<forall>rest. StructStream_parse p (bs @ rest) = Inr (n, rest))"
    using StructStream_parse_stream [of p n] by blast
  assume "StructStream_parse p f = Inr (n, rest)"
  from StructStream_parse_canonical [OF this] StructStream_parse_stream(1) [of p n]
  show "in_fmt p n \<and> (\<exists>bs. StructStream_stream p n = Inr bs \<and> f = bs @ rest)" by blast
qed

interpretation u32: item_codec parse_uint32 write_uint32 "in_fmt FMT_L" True
proof unfold_locales
  fix n f rest
  show "in_fmt FMT_L n \<Longrightarrow> \<exists>bs. write_uint32 n = Inr bs \<and> (\<forall>rest. parse_uint32 (bs @ rest) = Inr (n, rest))"
    using StructStream_parse_stream(2) [of FMT_L n] by (simp add: parse_uint32_eq write_uint32_eq)
  show "parse_uint32 f = Inr (n, rest) \<Longrightarrow> in_fmt FMT_L n \<and> (\<exists>bs. write_uint32 n = Inr bs \<and> f = bs @ rest)"
    using StructStream_parse_canonical [of FMT_L f n rest] by (simp add: parse_uint32_eq write_uint32_eq)
qed

interpretation u128: item_codec uint128_parse uint128_stream "\<lambda>i. 0 \<le> i \<and> i < 2 ^ 128" True
proof unfold_locales
  fix n f rest
  show "0 \<le> n \<and> n < 2 ^ 128 \<Longrightarrow> \<exists>bs. uint128_stream n = Inr bs \<and> (\<forall>rest. uint128_parse (bs @ rest) = Inr (n, rest))"
    using uint128_parse_stream [of n] by blast
  assume "uint128_parse f = Inr (n, rest)"
  from uint128_parse_canonical [OF this] uint128_parse_stream(1) [of n]
  show "(0 \<le> n \<and> n < 2 ^ 128) \<and> (\<exists>bs. uint128_stream n = Inr bs \<and> f = bs @ rest)" by blast
qed

interpretation i512: item_codec int512_parse int512_stream "\<lambda>i. - (2 ^ 512) < i \<and> i < 2 ^ 512" True
proof unfold_locales
  fix n f rest
  show "- (2 ^ 512) < n \<and> n < 2 ^ 512 \<Longrightarrow> \<exists>bs. int512_stream n = Inr bs \<and> (\<forall>rest. int512_parse (bs @ rest) = Inr (n, rest))"
    using int512_parse_stream [of n] by blast
  assume "int512_parse f = Inr (n, rest)"
  from int512_parse_canonical [OF this] int512_parse_stream(1) [of n]
  show "(- (2 ^ 512) < n \<and> n < 2 ^ 512) \<and> (\<exists>bs. int512_stream n = Inr bs \<and> f = bs @ rest)" by blast
qed

lemma item_codec_sized: "item_codec (sized_bytes_parse n) (\<lambda>b. Inr (sized_bytes_stream b)) (\<lambda>b. length b = n) can"
  by unfold_locales
    (auto simp: sized_bytes_parse_stream sized_bytes_stream_def dest: sized_bytes_parse_canonical)

interpretation bool: item_codec parse_bool "\<lambda>b. Inr [if b then 1 else 0]" "\<lambda>_. True" True
proof unfold_locales
  fix b f rest
  show "\<exists>bs. Inr [if b then 1 else 0] = Inr bs \<and> (\<forall>rest. parse_bool (bs @ rest) = Inr (b, rest))"
    by (simp add: parse_bool_def f_read_def)
  show "parse_bool f = Inr (b, rest) \<Longrightarrow> True \<and> (\<exists>bs. Inr [if b then 1 else 0] = Inr bs \<and> f = bs @ rest)"
    by (cases f) (auto simp: parse_bool_def f_read_def split: if_splits)
qed

text \<open>A parser that reads a fixed number of bytes and converts them.\<close>

lemma item_codec_hint:
  assumes "\<And>x. P x \<Longrightarrow> length (to_bytes x) = n \<and> from_bytes (to_bytes x) = Inr x"
    and "\<And>bs x. length bs = n \<Longrightarrow> from_bytes bs = Inr x \<Longrightarrow> P x \<and> to_bytes x = bs"
  shows "item_codec (parse_size_hints from_bytes n) (\<lambda>x. Inr (to_bytes x)) P can"
proof unfold_locales
  fix x f rest
  show "P x \<Longrightarrow> \<exists>bs. Inr (to_bytes x) = Inr bs \<and> (\<forall>rest. parse_size_hints from_bytes n (bs @ rest) = Inr (x, rest))"
    using assms(1) by (simp add: parse_size_hints_def f_read_def)
  assume "parse_size_hints from_bytes n f = Inr (x, rest)"
  then have "length (take n f) = n" "from_bytes (take n f) = Inr x" "rest = drop n f"
    by (auto simp: parse_size_hints_def f_read_def Let_def res_conv)
  with assms(2) [of "take n f" x] show "P x \<and> (\<exists>bs. Inr (to_bytes x) = Inr bs \<and> f = bs @ rest)" by simp
qed

lemma item_codec_times:
  assumes "item_codec p s P can"
  shows "item_codec (parse_times n p) (\<lambda>xs. rbind (rmap s xs) (\<lambda>bs. Inr (concat bs)))
           (\<lambda>xs. length xs = n \<and> list_all P xs) can"
proof (induction n)
  case 0
  show ?case by unfold_locales auto
next
  case (Suc n)
  show ?case
  proof unfold_locales
    fix xs assume "length xs = Suc n \<and> list_all P xs"
    then obtain y ys where xs: "xs = y # ys" and y: "P y" and ys: "length ys = n \<and> list_all P ys"
      by (cases xs) auto
    from item_codec.round_trip [OF assms y] item_codec.round_trip [OF Suc ys]
    show "\<exists>bs. rbind (rmap s xs) (\<lambda>bs. Inr (concat bs)) = Inr bs \<and>
            (\<forall>rest. parse_times (Suc n) p (bs @ rest) = Inr (xs, rest))"
      by (auto simp: xs res_conv)
  next
    fix f xs rest assume can and "parse_times (Suc n) p f = Inr (xs, rest)"
    then obtain y f' ys where "can" "p f = Inr (y, f')" "parse_times n p f' = Inr (ys, rest)" "xs = y # ys"
      by (auto simp: res_conv)
    with item_codec.canonical [OF assms] item_codec.canonical [OF Suc]
    show "(length xs = Suc n \<and> list_all P xs) \<and> (\<exists>bs. rbind (rmap s xs) (\<lambda>bs. Inr (concat bs)) = Inr bs \<and> f = bs @ rest)"
      by (fastforce simp: res_conv)
  qed
qed

lemma item_codec_tuple:
  assumes "\<And>t. t \<in> set ts \<Longrightarrow> item_codec (p t) (s t) (P t) can"
  shows "item_codec (parse_tuple (map p ts))
           (\<lambda>vs. rassert (length vs = length ts) (rbind (rmap (\<lambda>(u, v). s u v) (zip ts vs)) (\<lambda>bs. Inr (concat bs))))
           (\<lambda>vs. length vs = length ts \<and> list_all (\<lambda>(u, v). P u v) (zip ts vs)) can"
  using assms
proof (induction ts)
  case Nil
  show ?case by unfold_locales auto
next
  case (Cons t ts)
  have t: "item_codec (p t) (s t) (P t) can" by (rule Cons.prems) simp
  note IH = Cons.IH [OF Cons.prems, simplified]
  show ?case
  proof unfold_locales
    fix xs assume "length xs = length (t # ts) \<and> list_all (\<lambda>(u, v). P u v) (zip (t # ts) xs)"
    then obtain y ys where xs: "xs = y # ys" and y: "P t y"
      and ys: "length ys = length ts \<and> list_all (\<lambda>(u, v). P u v) (zip ts ys)"
      by (cases xs) auto
    from item_codec.round_trip [OF t y] item_codec.round_trip [OF IH ys]
    show "\<exists>bs. rassert (length xs = length (t # ts))
              (rbind (rmap (\<lambda>(u, v). s u v) (zip (t # ts) xs)) (\<lambda>bs. Inr (concat bs))) = Inr bs \<and>
            (\<forall>rest. parse_tuple (map p (t # ts)) (bs @ rest) = Inr (xs, rest))"
      by (auto simp: xs res_conv)
  next
    fix f xs rest assume c: can and "parse_tuple (map p (t # ts)) f = Inr (xs, rest)"
    then obtain y f' ys where *: "p t f = Inr (y, f')" "parse_tuple (map p ts) f' = Inr (ys, rest)" "xs = y # ys"
      by (auto simp: res_conv)
    from item_codec.canonical [OF t c *(1)] item_codec.canonical [OF IH c *(2)] *(3)
    show "(length xs = length (t # ts) \<and> list_all (\<lambda>(u, v). P u v) (zip (t # ts) xs)) \<and>
          (\<exists>bs. rassert (length xs = length (t # ts))
              (rbind (rmap (\<lambda>(u, v). s u v) (zip (t # ts) xs)) (\<lambda>bs. Inr (concat bs))) = Inr bs \<and> f = bs @ rest)"
      by (auto simp: res_conv)
  qed
qed

lemma item_codec_map:
  assumes "item_codec p s P can" and "\<And>x. P x \<Longrightarrow> s' (g x) = s x" and "\<And>v. P' v \<longleftrightarrow> (\<exists>x. v = g x \<and> P x)"
  shows "item_codec (map_parser g p) s' P' can"
proof unfold_locales
  fix v f rest
  show "\<exists>bs. s' v = Inr bs \<and> (\<forall>rest. map_parser g p (bs @ rest) = Inr (v, rest))" if "P' v"
  proof -
    from that assms(3) obtain x where v: "v = g x" and x: "P x" by blast
    from item_codec.round_trip [OF assms(1) x] assms(2) [OF x] show ?thesis
      by (auto simp: map_parser_def v)
  qed
  assume c: can and "map_parser g p f = Inr (v, rest)"
  then obtain x where x: "p f = Inr (x, rest)" and v: "v = g x" by (auto simp: map_parser_def res_conv)
  from item_codec.canonical [OF assms(1) c x] assms(2,3) v
  show "P' v \<and> (\<exists>bs. s' v = Inr bs \<and> f = bs @ rest)" by auto
qed

lemma item_codec_optional:
  assumes "item_codec p s P can"
  shows "item_codec (parse_optional p)
           (\<lambda>x. case x of None \<Rightarrow> Inr [0] | Some v \<Rightarrow> rbind (s v) (\<lambda>b. Inr ([1] @ b))) (pred_option P) can"
proof unfold_locales
  fix x f rest
  show "\<exists>bs. (case x of None \<Rightarrow> Inr [0] | Some v \<Rightarrow> rbind (s v) (\<lambda>b. Inr ([1] @ b))) = Inr bs \<and>
          (\<forall>rest. parse_optional p (bs @ rest) = Inr (x, rest))" if "pred_option P x"
    using that item_codec.round_trip [OF assms]
    by (cases x) (fastforce simp: parse_optional_def f_read_def)+
  assume can and "parse_optional p f = Inr (x, rest)"
  then show "pred_option P x \<and>
      (\<exists>bs. (case x of None \<Rightarrow> Inr [0] | Some v \<Rightarrow> rbind (s v) (\<lambda>b. Inr ([1] @ b))) = Inr bs \<and> f = bs @ rest)"
    using item_codec.canonical [OF assms]
    by (cases f) (fastforce simp: parse_optional_def f_read_def res_conv split: if_splits)+
qed

text \<open>A 4-byte length prefix in front of an item.\<close>

lemma item_codec_prefixed:
  assumes c: "\<And>n. item_codec (q n) s (\<lambda>x. P x \<and> len x = n) can"
    and p: "\<And>f. p f = rbind (parse_uint32 f) (\<lambda>(n, f'). q (nat n) f')"
    and s': "\<And>x bs. P x \<Longrightarrow> s x = Inr bs \<Longrightarrow>
               s' x = rbind (uint32 (int (len x))) (\<lambda>n. rbind (write_uint32 n) (\<lambda>h. Inr (h @ bs)))"
  shows "item_codec p s' (\<lambda>x. len x < 2 ^ 32 \<and> P x) can"
proof unfold_locales
  fix x f rest
  show "\<exists>bs. s' x = Inr bs \<and> (\<forall>rest. p (bs @ rest) = Inr (x, rest))" if x: "len x < 2 ^ 32 \<and> P x"
  proof -
    have n: "in_fmt FMT_L (int (len x))" using x by simp
    from item_codec.round_trip [OF c, of x "len x"] x obtain bs where
      bs: "s x = Inr bs" "\<And>rest. q (len x) (bs @ rest) = Inr (x, rest)" by blast
    from u32.round_trip [OF n] obtain h where
      h: "write_uint32 (int (len x)) = Inr h" "\<And>rest. parse_uint32 (h @ rest) = Inr (int (len x), rest)" by blast
    have "s' x = Inr (h @ bs)" using s' [OF _ bs(1)] x n h(1) by (simp add: uint32_eq)
    moreover have "p ((h @ bs) @ rest) = Inr (x, rest)" for rest by (simp add: p h bs)
    ultimately show ?thesis by blast
  qed
  assume can: can and "p f = Inr (x, rest)"
  then obtain n f' where n: "parse_uint32 f = Inr (n, f')" and x: "q (nat n) f' = Inr (x, rest)"
    by (auto simp: p res_conv)
  from u32.canonical [OF TrueI n] obtain h where h: "in_fmt FMT_L n" "write_uint32 n = Inr h" "f = h @ f'" by blast
  from item_codec.canonical [OF c can x] obtain bs where
    bs: "P x" "len x = nat n" "s x = Inr bs" "f' = bs @ rest" by blast
  have l: "int (len x) = n" using bs(2) h(1) by simp
  have "s' x = Inr (h @ bs)" using s' [OF bs(1,3)] h l by (simp add: uint32_eq)
  moreover have "len x < 2 ^ 32" using l h(1) by simp
  ultimately show "(len x < 2 ^ 32 \<and> P x) \<and> (\<exists>bs. s' x = Inr bs \<and> f = bs @ rest)"
    using h bs by simp
qed

interpretation byt: item_codec parse_bytes
  "\<lambda>bs. rbind (uint32 (int (length bs))) (\<lambda>n. rbind (write_uint32 n) (\<lambda>h. Inr (h @ bs)))"
  "\<lambda>bs. length bs < 2 ^ 32 \<and> True" True
proof (rule item_codec_prefixed [where q = sized_bytes_parse and s = "\<lambda>b. Inr (sized_bytes_stream b)"])
  show "item_codec (sized_bytes_parse n) (\<lambda>b. Inr (sized_bytes_stream b)) (\<lambda>x. True \<and> length x = n) True" for n
    using item_codec_sized by simp
  show "parse_bytes f = rbind (parse_uint32 f) (\<lambda>(n, f'). sized_bytes_parse (nat n) f')" for f
  proof (cases "parse_uint32 f")
    case (Inr a)
    then obtain n f' where "parse_uint32 f = Inr (n, f')" "0 \<le> n"
      using u32.parse_typed [OF TrueI, of f] by (cases a) fastforce
    then show ?thesis
      by (auto simp: parse_bytes_def sized_bytes_parse_def f_read_def sized_bytes_new_def rassert_def)
  qed (simp add: parse_bytes_def)
qed (simp add: sized_bytes_stream_def)

definition str_fits :: "nat \<Rightarrow> ustring \<Rightarrow> bool" where
  "str_fits n x \<longleftrightarrow> (\<exists>bs. utf8_encode x = Inr bs \<and> length bs = n)"

lemma item_codec_utf8: "item_codec (parse_size_hints utf8_decode n) utf8_encode (str_fits n) can"
proof unfold_locales
  fix x f rest
  show "\<exists>bs. utf8_encode x = Inr bs \<and> (\<forall>rest. parse_size_hints utf8_decode n (bs @ rest) = Inr (x, rest))"
    if "str_fits n x"
    using that utf8_decode_encode by (auto simp: parse_size_hints_def f_read_def str_fits_def)
  assume "parse_size_hints utf8_decode n f = Inr (x, rest)"
  then have "length (take n f) = n" "utf8_decode (take n f) = Inr x" "rest = drop n f"
    by (auto simp: parse_size_hints_def f_read_def Let_def res_conv)
  with utf8_decode_canonical [of "take n f" x]
  show "str_fits n x \<and> (\<exists>bs. utf8_encode x = Inr bs \<and> f = bs @ rest)" by (auto simp: str_fits_def)
qed

lemma item_codec_list:
  assumes "item_codec p s P can"
  shows "item_codec (parse_list p)
           (\<lambda>vs. rbind (uint32 (int (length vs))) (\<lambda>n. rbind (write_uint32 n) (\<lambda>h.
                   rbind (rmap s vs) (\<lambda>bs. Inr (h @ concat bs)))))
           (\<lambda>vs. length vs < 2 ^ 32 \<and> list_all P vs) can"
proof (rule item_codec_prefixed [where q = "\<lambda>n. parse_times n p" and s = "\<lambda>xs. rbind (rmap s xs) (\<lambda>bs. Inr (concat bs))"])
  show "item_codec (parse_times n p) (\<lambda>xs. rbind (rmap s xs) (\<lambda>bs. Inr (concat bs)))
          (\<lambda>x. list_all P x \<and> length x = n) can" for n
    using item_codec_times [OF assms, of n] by (simp add: conj_commute)
qed (auto simp: parse_list_def res_conv)

definition utf8_length :: "ustring \<Rightarrow> nat" where
  "utf8_length s = (case utf8_encode s of Inl _ \<Rightarrow> 0 | Inr bs \<Rightarrow> length bs)"

interpretation str: item_codec parse_str
  "\<lambda>s. rbind (utf8_encode s) (\<lambda>str_bytes.
     rbind (uint32 (int (length str_bytes))) (\<lambda>n. rbind (write_uint32 n) (\<lambda>h. Inr (h @ str_bytes))))"
  "\<lambda>s. utf8_length s < 2 ^ 32 \<and> (\<exists>bs. utf8_encode s = Inr bs)" True
proof (rule item_codec_prefixed [where q = "parse_size_hints utf8_decode" and s = utf8_encode])
  show "item_codec (parse_size_hints utf8_decode n) utf8_encode (\<lambda>x. (\<exists>bs. utf8_encode x = Inr bs) \<and> utf8_length x = n) True" for n
  proof -
    have "str_fits n = (\<lambda>x. (\<exists>bs. utf8_encode x = Inr bs) \<and> utf8_length x = n)"
      by (rule ext) (auto simp: str_fits_def utf8_length_def)
    with item_codec_utf8 [of n True] show ?thesis by simp
  qed
  show "parse_str f = rbind (parse_uint32 f) (\<lambda>(n, f'). parse_size_hints utf8_decode (nat n) f')" for f
  proof (cases "parse_uint32 f")
    case (Inr a)
    then obtain n f' where "parse_uint32 f = Inr (n, f')" "0 \<le> n"
      using u32.parse_typed [OF TrueI, of f] by (cases a) fastforce
    then show ?thesis
      by (auto simp: parse_str_def parse_size_hints_def f_read_def rassert_def)
  qed (simp add: parse_str_def)
qed (auto simp: utf8_length_def)

lemma has_type_strings:
  "(case utf8_encode s of Inl _ \<Rightarrow> False | Inr bs \<Rightarrow> length bs < 2 ^ 32) \<longleftrightarrow>
     utf8_length s < 2 ^ 32 \<and> (\<exists>bs. utf8_encode s = Inr bs)"
  by (simp add: utf8_length_def split: sum.splits)

lemma codec_ok_bls:
  assumes "codec_ok K"
  shows "item_codec (parse_size_hints (bls_from_bytes K h) (bls_size K h)) (\<lambda>b. Inr (bls_to_bytes K b)) (bls_is K h) can"
  using assms by (intro item_codec_hint) (auto simp: codec_ok_def)

lemma codec_ok_custom: "codec_ok K \<Longrightarrow> (can \<longrightarrow> custom_canonical K) \<Longrightarrow> item_codec (custom_parse K) (custom_stream K) (custom_is K) can"
  by unfold_locales (auto simp: codec_ok_def custom_canonical_def)

lemma item_codec_opcode: "item_codec (parse_size_hints ConditionOpcode_from_bytes 1) (\<lambda>c. Inr (opcode_value c)) (\<lambda>_. True) can"
  by (rule item_codec_hint)
    (auto simp: ConditionOpcode_from_bytes_value dest: ConditionOpcode_from_bytes_canonical)

text \<open>Every annotation has a codec: by induction on the annotation, one combinator per branch.\<close>

lemma item_codec_one:
  assumes "codec_ok K" "can \<longrightarrow> custom_free t \<or> custom_canonical K"
  shows "item_codec (parse_one_item K t) (stream_one_item K t) (has_type K t) can"
  using assms(2)
proof (induction t)
  case TBool
  show ?case unfolding parse_one_item.simps
    by (rule item_codec_map [OF item_codec_weaken [OF bool.item_codec_axioms]]) (auto split: val.splits)
next
  case (TOptional t)
  show ?case unfolding parse_one_item.simps
    by (rule item_codec_map [OF item_codec_optional [OF TOptional.IH]])
      (use TOptional.prems in \<open>auto split: option.splits val.splits simp: pred_option_def split_option_ex\<close>)
next
  case (TStruct p)
  show ?case unfolding parse_one_item.simps
    by (rule item_codec_map [OF item_codec_struct]) (auto split: val.splits)
next
  case TUint128
  show ?case unfolding parse_one_item.simps
    by (rule item_codec_map [OF item_codec_weaken [OF u128.item_codec_axioms]]) (auto split: val.splits)
next
  case TInt512
  show ?case unfolding parse_one_item.simps
    by (rule item_codec_map [OF item_codec_weaken [OF i512.item_codec_axioms]]) (auto split: val.splits)
next
  case (TSized n)
  show ?case unfolding parse_one_item.simps
    by (rule item_codec_map [OF item_codec_sized]) (auto split: val.splits)
next
  case TCustom
  show ?case unfolding parse_one_item.simps
    by (rule item_codec_map [OF codec_ok_custom [OF assms(1)]]) (use TCustom.prems in \<open>auto split: val.splits\<close>)
next
  case TBytes
  show ?case unfolding parse_one_item.simps
    by (rule item_codec_map [OF item_codec_weaken [OF byt.item_codec_axioms]]) (auto split: val.splits)
next
  case (TList t)
  show ?case unfolding parse_one_item.simps
    by (rule item_codec_map [OF item_codec_list [OF TList.IH]]) (use TList.prems in \<open>auto split: val.splits\<close>)
next
  case (TTuple ts)
  show ?case unfolding parse_one_item.simps
    by (rule item_codec_map [OF item_codec_tuple [OF TTuple.IH]]) (use TTuple.prems in \<open>auto simp: list_all_iff split: val.splits\<close>)
next
  case (TBls h)
  show ?case unfolding parse_one_item.simps
    by (rule item_codec_map [OF codec_ok_bls [OF assms(1)]]) (auto split: val.splits)
next
  case TOpcode
  show ?case unfolding parse_one_item.simps
    by (rule item_codec_map [OF item_codec_opcode]) (auto split: val.splits)
next
  case TStr
  show ?case unfolding parse_one_item.simps
    by (rule item_codec_map [OF item_codec_weaken [OF str.item_codec_axioms]]) (auto simp: has_type_strings split: val.splits)
next
  case (TClass ts)
  show ?case unfolding parse_one_item.simps
    by (rule item_codec_map [OF item_codec_tuple [OF TClass.IH]]) (use TClass.prems in \<open>auto simp: list_all_iff split: val.splits\<close>)
qed

section \<open>The bijection\<close>

lemma Streamable_parse_eq: "Streamable_parse K flds = parse_one_item K (TClass flds)"
  by (simp add: Streamable_parse_def fun_eq_iff)

lemma Streamable_stream_eq:
  "length vs = length flds \<Longrightarrow> Streamable_stream K flds vs = stream_one_item K (TClass flds) (VObj vs)"
  by (simp add: Streamable_stream_def)

text \<open>A concrete codec: group elements of 32, 48 and 96 bytes kept as bytes, and an atom as custom item.\<close>

definition raw_codec :: "bytes codec" where
  "raw_codec =
     \<lparr> bls_size = (\<lambda>h. case h of PrivateKey \<Rightarrow> 32 | G1Element \<Rightarrow> 48 | G2Element \<Rightarrow> 96),
       bls_from_bytes = (\<lambda>h bs. Inr bs),
       bls_to_bytes = (\<lambda>b. b),
       bls_is = (\<lambda>h b. length b = (case h of PrivateKey \<Rightarrow> 32 | G1Element \<Rightarrow> 48 | G2Element \<Rightarrow> 96)),
       custom_parse = sized_bytes_parse 1,
       custom_stream = (\<lambda>b. Inr (sized_bytes_stream b)),
       custom_is = (\<lambda>b. length b = 1) \<rparr>"

lemma raw_codec_ok: "codec_ok raw_codec"
  unfolding codec_ok_def raw_codec_def
  by (auto simp: sized_bytes_parse_stream sized_bytes_stream_def dest: sized_bytes_parse_canonical)

text \<open>
  C1. A well-typed object is always serialized, and deserializing the bytes gives the object
  back with nothing left over.
\<close>

theorem Streamable_roundtrip:
  assumes "codec_ok K" and "has_type K (TClass flds) (VObj vs)"
  shows "\<exists>bs. Streamable_stream K flds vs = Inr bs \<and> Streamable_from_bytes K flds bs = Inr (VObj vs)"
proof -
  from item_codec.round_trip [OF item_codec_one [where can = False, OF assms(1)] assms(2)] obtain bs where
    bs: "stream_one_item K (TClass flds) (VObj vs) = Inr bs"
      "\<And>rest. parse_one_item K (TClass flds) (bs @ rest) = Inr (VObj vs, rest)" by blast
  have "length vs = length flds" using assms(2) by simp
  with bs(1) have "Streamable_stream K flds vs = Inr bs" by (simp only: Streamable_stream_eq)
  moreover have "Streamable_from_bytes K flds bs = Inr (VObj vs)"
    using bs(2) [of "[]"] by (simp only: Streamable_from_bytes_def Streamable_parse_eq append_Nil2) simp
  ultimately show ?thesis by blast
qed

theorem Streamable_roundtrip_witness:
  "\<exists>bs. Streamable_stream raw_codec [TBool, TOptional (TStruct FMT_H), TList TOpcode, TStr]
            [VBool True, VSome (VInt 513), VList [VOpcode CREATE_COIN], VStr [233, 128512]] = Inr bs \<and>
         Streamable_from_bytes raw_codec [TBool, TOptional (TStruct FMT_H), TList TOpcode, TStr] bs =
           Inr (VObj [VBool True, VSome (VInt 513), VList [VOpcode CREATE_COIN], VStr [233, 128512]])"
  by (rule Streamable_roundtrip [OF raw_codec_ok]) (simp add: utf8_encode_def utf8_encode_char_def code_point_def)

text \<open>
  C2. Deserialization accepts only the canonical encoding: if a blob is accepted, the object is
  well typed and serializing it gives exactly the blob. This holds for the classes without custom items, and for those whose
  custom items are written as they were read, as \<^verbatim>\<open>SerializedProgram\<close> is; it is not claimed for classes with a field of type \<^verbatim>\<open>Program\<close>.
\<close>

theorem Streamable_canonical:
  assumes "codec_ok K" and "list_all custom_free flds \<or> custom_canonical K" and "Streamable_from_bytes K flds blob = Inr obj"
  shows "\<exists>vs. obj = VObj vs \<and> has_type K (TClass flds) (VObj vs) \<and> Streamable_stream K flds vs = Inr blob"
proof -
  have "parse_one_item K (TClass flds) blob = Inr (obj, [])"
    using assms(3) by (auto simp: Streamable_from_bytes_def Streamable_parse_eq res_conv simp del: parse_one_item.simps)
  from item_codec.canonical [OF item_codec_one [where can = True, OF assms(1)] TrueI this] assms(2)
  have ty: "has_type K (TClass flds) obj" and st: "stream_one_item K (TClass flds) obj = Inr blob" by auto
  from ty obtain vs where "obj = VObj vs" "length vs = length flds" by (auto split: val.splits)
  with ty st show ?thesis using Streamable_stream_eq [of vs flds K] by simp
qed

text \<open>A length function for programs that are one atom below 128, which is written as itself.\<close>

definition atom_length :: "bytes \<Rightarrow> nat res" where
  "atom_length f = (case f of [] \<Rightarrow> Inl ValueError | b # _ \<Rightarrow> if b < 128 then Inr 1 else Inl ValueError)"

lemma atom_length_ok: "serialized_length_ok atom_length"
  by (auto simp: serialized_length_ok_def atom_length_def split: list.splits if_splits)

theorem Streamable_canonical_witness:
  "Streamable_from_bytes raw_codec [TBool, TStruct FMT_H] [1, 2, 3] = Inr (VObj [VBool True, VInt 515]) \<and>
   (\<exists>vs. VObj [VBool True, VInt 515] = VObj vs \<and> has_type raw_codec (TClass [TBool, TStruct FMT_H]) (VObj vs) \<and>
         Streamable_stream raw_codec [TBool, TStruct FMT_H] vs = Inr [1, 2, 3]) \<and>
   (\<exists>vs. VObj [VBool False, VCustom [7]] = VObj vs \<and>
         Streamable_stream (with_serialized_programs atom_length raw_codec) [TBool, TCustom] vs = Inr [0, 7])"
proof (intro conjI)
  show e: "Streamable_from_bytes raw_codec [TBool, TStruct FMT_H] [1, 2, 3] = Inr (VObj [VBool True, VInt 515])"
    by (simp add: Streamable_from_bytes_def Streamable_parse_def map_parser_def parse_bool_def f_read_def
        StructStream_parse_def struct_unpack_def be_int_def StructStream_new_eq)
  show "\<exists>vs. VObj [VBool True, VInt 515] = VObj vs \<and> has_type raw_codec (TClass [TBool, TStruct FMT_H]) (VObj vs) \<and>
         Streamable_stream raw_codec [TBool, TStruct FMT_H] vs = Inr [1, 2, 3]"
    by (rule Streamable_canonical [OF raw_codec_ok _ e]) simp
  let ?K = "with_serialized_programs atom_length raw_codec"
  have p: "Streamable_from_bytes ?K [TBool, TCustom] [0, 7] = Inr (VObj [VBool False, VCustom [7]])"
    by (simp add: Streamable_from_bytes_def Streamable_parse_def map_parser_def parse_bool_def f_read_def
        with_serialized_programs_def SerializedProgram_parse_def atom_length_def)
  show "\<exists>vs. VObj [VBool False, VCustom [7]] = VObj vs \<and> Streamable_stream ?K [TBool, TCustom] vs = Inr [0, 7]"
    using Streamable_canonical [OF serialized_programs_ok [OF atom_length_ok raw_codec_ok] _ p] serialized_programs_canonical [OF atom_length_ok, of raw_codec]
    by blast
qed

text \<open>
  C3. Two well-typed objects of one class with the same hash are equal, unless their
  serializations are a collision of the hash function: a block, coin or spend bundle hash commits
  to every field.
\<close>

theorem get_hash_commits:
  assumes "codec_ok K" and "has_type K (TClass flds) (VObj vs)" and "has_type K (TClass flds) (VObj ws)"
    and "Streamable_get_hash std_hash K flds vs = Inr h" and "Streamable_get_hash std_hash K flds ws = Inr h"
  shows "vs = ws \<or>
    (\<exists>a b. Streamable_stream K flds vs = Inr a \<and> Streamable_stream K flds ws = Inr b \<and> a \<noteq> b \<and> std_hash a = std_hash b)"
proof -
  from assms(4,5) obtain a b where
    ab: "Streamable_stream K flds vs = Inr a" "Streamable_stream K flds ws = Inr b" "std_hash a = std_hash b"
    by (auto simp: Streamable_get_hash_def res_conv bytes32_def sized_bytes_new_def split: if_splits)
  have len: "length vs = length flds" "length ws = length flds" using assms(2,3) by simp_all
  show ?thesis
  proof (cases "a = b")
    case True
    then have "stream_one_item K (TClass flds) (VObj vs) = stream_one_item K (TClass flds) (VObj ws)"
      using ab len by (simp only: Streamable_stream_eq)
    from item_codec.stream_inject [OF item_codec_one [where can = False, OF assms(1)] assms(2,3) this] show ?thesis by simp
  qed (use ab in blast)
qed

text \<open>A toy digest: the first 32 bytes of the zero-padded input.\<close>

definition pad_hash :: "bytes \<Rightarrow> bytes" where
  "pad_hash b = take 32 (b @ replicate 32 0)"

theorem get_hash_commits_witness:
  "Streamable_get_hash pad_hash raw_codec [TStruct FMT_B] [VInt 7] = Inr (pad_hash [7]) \<and>
   ([VInt 7 :: bytes val] = [VInt 7] \<or>
    (\<exists>a b. Streamable_stream raw_codec [TStruct FMT_B] [VInt 7] = Inr a \<and>
       Streamable_stream raw_codec [TStruct FMT_B] [VInt 7] = Inr b \<and> a \<noteq> b \<and> pad_hash a = pad_hash b))"
proof
  show e: "Streamable_get_hash pad_hash raw_codec [TStruct FMT_B] [VInt 7] = Inr (pad_hash [7])"
    by (simp add: Streamable_get_hash_def Streamable_stream_def StructStream_stream_def struct_pack_eq
        bytes32_def sized_bytes_new_def pad_hash_def)
  show "[VInt 7 :: bytes val] = [VInt 7] \<or>
    (\<exists>a b. Streamable_stream raw_codec [TStruct FMT_B] [VInt 7] = Inr a \<and>
       Streamable_stream raw_codec [TStruct FMT_B] [VInt 7] = Inr b \<and> a \<noteq> b \<and> pad_hash a = pad_hash b)"
    by (rule get_hash_commits [OF raw_codec_ok _ _ e e]) simp_all
qed

end
