(* ===== verification/Coins.thy ===== *)
theory Coins
  imports PyFloat Constants Streamable "HOL-Library.List_Lexorder" "HOL-Library.Multiset"
begin

text \<open>
  \<^verbatim>\<open>hddcoin/types/blockchain_format/coin.py\<close>, \<^verbatim>\<open>consensus/block_rewards.py\<close> and \<^verbatim>\<open>consensus/coinbase.py\<close>: coins, their
  names, the reward schedule and the coins that pay it. The hash function of \<^verbatim>\<open>blspy\<close> and the
  integer casts of \<^verbatim>\<open>clvm\<close> are not part of the repository; they are the fields of \<open>crypto\<close>, with the
  serialization of BLS elements and programs, which are represented by their bytes.
\<close>

record crypto =
  hash256 :: "bytes \<Rightarrow> bytes"
  int_to_bytes :: "int \<Rightarrow> bytes"
  int_from_bytes :: "bytes \<Rightarrow> int"
  bls_codec :: "bytes codec"

text \<open>What is relied on: digests have 32 bytes, and the two casts are inverse to each other.\<close>

definition crypto_ok :: "crypto \<Rightarrow> bool" where
  "crypto_ok E \<longleftrightarrow> (\<forall>b. length (hash256 E b) = 32) \<and> (\<forall>i. int_from_bytes E (int_to_bytes E i) = i) \<and> codec_ok (bls_codec E)"

text \<open>\<^verbatim>\<open>std_hash\<close>; the constructor \<^verbatim>\<open>bytes32\<close> passes a digest of 32 bytes through.\<close>

definition std_hash :: "crypto \<Rightarrow> bytes \<Rightarrow> bytes" where
  "std_hash E b = hash256 E b"

record Coin =
  parent_coin_info :: bytes
  puzzle_hash :: bytes
  amount :: int

definition Coin_preimage :: "crypto \<Rightarrow> Coin \<Rightarrow> bytes" where
  "Coin_preimage E c = parent_coin_info c @ puzzle_hash c @ int_to_bytes E (amount c)"

definition Coin_get_hash :: "crypto \<Rightarrow> Coin \<Rightarrow> bytes" where
  "Coin_get_hash E c = std_hash E (Coin_preimage E c)"

definition Coin_name :: "crypto \<Rightarrow> Coin \<Rightarrow> bytes" where
  "Coin_name E c = Coin_get_hash E c"

text \<open>\<^verbatim>\<open>bytes.hex\<close>: two code points per byte.\<close>

definition hex_digit :: "int \<Rightarrow> int" where
  "hex_digit d = (if d < 10 then 48 + d else 87 + d)"

definition bytes_hex :: "bytes \<Rightarrow> int list" where
  "bytes_hex b = concat (map (\<lambda>x. [hex_digit (uint x div 16), hex_digit (uint x mod 16)]) b)"

definition Coin_name_str :: "crypto \<Rightarrow> Coin \<Rightarrow> int list" where
  "Coin_name_str E c = bytes_hex (Coin_name E c)"

text \<open>\<^verbatim>\<open>sort(key=..., reverse=True)\<close> is stable: elements with one key keep their order.\<close>

definition sort_reverse :: "('a \<Rightarrow> 'k :: linorder) \<Rightarrow> 'a list \<Rightarrow> 'a list" where
  "sort_reverse f xs = rev (sort_key f (rev xs))"

definition hash_coin_list :: "crypto \<Rightarrow> Coin list \<Rightarrow> bytes" where
  "hash_coin_list E coin_list = std_hash E (concat (map (Coin_name E) (sort_reverse (Coin_name_str E) coin_list)))"

section \<open>Rewards\<close>

definition byte_per_hddcoin :: int where "byte_per_hddcoin = 1000000000000"
definition blocks_per_year :: int where "blocks_per_year = 1681920"

text \<open>\<^verbatim>\<open>uint64(int(share * factor * _byte_per_hddcoin))\<close>, in floats.\<close>

definition reward_share :: "rat \<Rightarrow> rat \<Rightarrow> int res" where
  "reward_share share factor = uint64 (py_int (py_fmul (py_fmul share factor) (py_float byte_per_hddcoin)))"

definition calculate_pool_reward :: "int \<Rightarrow> int res" where
  "calculate_pool_reward height =
     rbind (py_true_div 7 8) (\<lambda>share.
       if height = 0 then reward_share share (py_float 3500000)
       else if height < 3 * blocks_per_year then reward_share share (py_float 2)
       else if height < 6 * blocks_per_year then reward_share share (py_float 1)
       else if height < 9 * blocks_per_year then reward_share share (1 / 2)
       else if height < 12 * blocks_per_year then reward_share share (1 / 4)
       else reward_share share (1 / 8))"

definition calculate_base_farmer_reward :: "int \<Rightarrow> int res" where
  "calculate_base_farmer_reward height =
     rbind (py_true_div 1 8) (\<lambda>share.
       if height = 0 then reward_share share (py_float 3500000)
       else if height < 3 * blocks_per_year then reward_share share (py_float 2)
       else if height < 6 * blocks_per_year then reward_share share (py_float 1)
       else if height < 9 * blocks_per_year then reward_share share (1 / 2)
       else if height < 12 * blocks_per_year then reward_share share (1 / 4)
       else reward_share share (1 / 8))"

lemma pow2_minus: "pow2 (- int k) = 1 / 2 ^ k"
  by (cases "k = 0") (simp_all add: pow2_def)

lemma fl_fraction: "\<bar>m\<bar> < 2 ^ 53 \<Longrightarrow> fl (of_int m / 2 ^ k) = of_int m / 2 ^ k"
  using fl_dyadic [of m "- int k"] by (simp add: pow2_minus)

lemma fl_multiple: "\<bar>m\<bar> < 2 ^ 53 \<Longrightarrow> fl (of_int m * 2 ^ k) = of_int m * 2 ^ k"
  using fl_dyadic [of m "int k"] by (simp add: pow2_def)

lemma eighths: "py_true_div 7 8 = Inr (7 / 8)" "py_true_div 1 8 = Inr (1 / 8)"
  using fl_fraction [of 7 3] fl_fraction [of 1 3] by (simp_all add: py_true_div_def)

lemma py_float_small: "\<bar>n\<bar> < 2 ^ 53 \<Longrightarrow> py_float n = of_int n"
  by (simp add: py_float_def fl_int)

text \<open>All products of the schedule are doubles, so no rounding takes place.\<close>

lemma reward_share_exact:
  assumes "share * factor = of_int m / 2 ^ j" "0 \<le> m" "m * 244140625 < 2 ^ 53" "j \<le> 12"
    "m * 244140625 * 2 ^ (12 - j) < 2 ^ 64"
  shows "reward_share share factor = Inr (m * 244140625 * 2 ^ (12 - j))"
proof -
  have 1: "fl (share * factor) = of_int m / 2 ^ j" using fl_fraction [of m j] assms(2,3) by (simp add: assms(1))
  have 2: "py_float byte_per_hddcoin = 1000000000000" by (simp add: py_float_small byte_per_hddcoin_def)
  have "rat_of_int m / 2 ^ j * 1000000000000 = of_int (m * 244140625) * (2 ^ 12 / 2 ^ j)" by simp
  also have "2 ^ 12 / 2 ^ j = (2 ^ (12 - j) :: rat)" using assms(4) by (simp add: power_diff del: power_numeral)
  finally have 3: "rat_of_int m / 2 ^ j * 1000000000000 = of_int (m * 244140625) * 2 ^ (12 - j)" .
  have "fl (of_int (m * 244140625) * 2 ^ (12 - j)) = of_int (m * 244140625) * 2 ^ (12 - j)"
    by (rule fl_multiple) (use assms(2,3) in simp)
  then have "py_fmul (py_fmul share factor) (py_float byte_per_hddcoin) = of_int (m * 244140625 * 2 ^ (12 - j))"
    unfolding py_fmul_def 1 2 3 by simp
  then have "py_int (py_fmul (py_fmul share factor) (py_float byte_per_hddcoin)) = m * 244140625 * 2 ^ (12 - j)"
    using assms(2) by (simp only: py_int_def floor_of_int) simp
  then show ?thesis using assms(2,5) by (simp add: reward_share_def uint64_eq)
qed

lemma pool_reward_eq:
  "calculate_pool_reward height = Inr (
     if height = 0 then 3062500000000000000
     else if height < 5045760 then 1750000000000
     else if height < 10091520 then 875000000000
     else if height < 15137280 then 437500000000
     else if height < 20183040 then 218750000000
     else 109375000000)"
  using reward_share_exact [of "7 / 8" 3500000 3062500 0] reward_share_exact [of "7 / 8" 2 7 2]
    reward_share_exact [of "7 / 8" 1 7 3] reward_share_exact [of "7 / 8" "1 / 2" 7 4]
    reward_share_exact [of "7 / 8" "1 / 4" 7 5] reward_share_exact [of "7 / 8" "1 / 8" 7 6]
  by (simp add: calculate_pool_reward_def eighths py_float_small blocks_per_year_def)

lemma farmer_reward_eq:
  "calculate_base_farmer_reward height = Inr (
     if height = 0 then 437500000000000000
     else if height < 5045760 then 250000000000
     else if height < 10091520 then 125000000000
     else if height < 15137280 then 62500000000
     else if height < 20183040 then 31250000000
     else 15625000000)"
  using reward_share_exact [of "1 / 8" 3500000 437500 0] reward_share_exact [of "1 / 8" 2 1 2]
    reward_share_exact [of "1 / 8" 1 1 3] reward_share_exact [of "1 / 8" "1 / 2" 1 4]
    reward_share_exact [of "1 / 8" "1 / 4" 1 5] reward_share_exact [of "1 / 8" "1 / 8" 1 6]
  by (simp add: calculate_base_farmer_reward_def eighths py_float_small blocks_per_year_def)

text \<open>The schedule the comments describe: the prefarm, then 2 coins per block, halved every three years until 1/8.\<close>

definition block_reward :: "int \<Rightarrow> int" where
  "block_reward height =
     (if height = 0 then 3500000 * byte_per_hddcoin
      else 2 * byte_per_hddcoin div 2 ^ nat (min 4 (height div (3 * blocks_per_year))))"

text \<open>
  C25. The reward functions never raise and no float rounding shows: at every height pool and farmer together
  receive exactly the scheduled reward, the pool seven eighths of it; after genesis the reward never increases.
\<close>

theorem reward_schedule:
  assumes "0 \<le> h"
  shows "\<exists>p f. calculate_pool_reward h = Inr p \<and> calculate_base_farmer_reward h = Inr f \<and>
           p = 7 * f \<and> p + f = block_reward h \<and> 0 < f \<and> (\<forall>h'. 0 < h' \<and> h' \<le> h \<longrightarrow> block_reward h \<le> block_reward h')"
proof -
  have br: "block_reward x = (if x = 0 then 3500000000000000000 else if x < 5045760 then 2000000000000
      else if x < 10091520 then 1000000000000 else if x < 15137280 then 500000000000
      else if x < 20183040 then 250000000000 else 125000000000)" if "0 \<le> x" for x
  proof -
    define q z where "q = x div 5045760" and "z = x mod 5045760"
    have x: "x = q * 5045760 + z" "0 \<le> z" "z < 5045760" by (simp_all add: q_def z_def)
    have "0 \<le> q" using that by (simp add: q_def pos_imp_zdiv_nonneg_iff)
    then consider "q = 0" | "q = 1" | "q = 2" | "q = 3" | "4 \<le> q" by linarith
    moreover have "block_reward x = (if x = 0 then 3500000000000000000 else 2000000000000 div 2 ^ nat (min 4 q))"
      by (simp add: block_reward_def byte_per_hddcoin_def blocks_per_year_def q_def)
    ultimately show ?thesis by cases (use x in auto)
  qed
  show ?thesis using assms by (simp add: pool_reward_eq farmer_reward_eq br)
qed

theorem reward_schedule_witness:
  "\<exists>p f. calculate_pool_reward 6000000 = Inr p \<and> calculate_base_farmer_reward 6000000 = Inr f \<and>
           p = 7 * f \<and> p + f = block_reward 6000000 \<and> 0 < f \<and>
           (\<forall>h'. 0 < h' \<and> h' \<le> 6000000 \<longrightarrow> block_reward 6000000 \<le> block_reward h')"
  by (rule reward_schedule) simp

section \<open>Coinbase coins\<close>

definition pool_parent_id :: "int \<Rightarrow> bytes \<Rightarrow> bytes res" where
  "pool_parent_id block_height genesis_challenge =
     rbind (to_bytes_unsigned 16 block_height) (\<lambda>h. bytes32 (take 16 genesis_challenge @ h))"

definition farmer_parent_id :: "int \<Rightarrow> bytes \<Rightarrow> bytes res" where
  "farmer_parent_id block_height genesis_challenge =
     rbind (to_bytes_unsigned 16 block_height) (\<lambda>h. bytes32 (drop 16 genesis_challenge @ h))"

definition create_pool_coin :: "int \<Rightarrow> bytes \<Rightarrow> int \<Rightarrow> bytes \<Rightarrow> Coin res" where
  "create_pool_coin block_height ph reward genesis_challenge =
     rbind (pool_parent_id block_height genesis_challenge) (\<lambda>parent_id.
       Inr \<lparr> parent_coin_info = parent_id, puzzle_hash = ph, amount = reward \<rparr>)"

definition create_farmer_coin :: "int \<Rightarrow> bytes \<Rightarrow> int \<Rightarrow> bytes \<Rightarrow> Coin res" where
  "create_farmer_coin block_height ph reward genesis_challenge =
     rbind (farmer_parent_id block_height genesis_challenge) (\<lambda>parent_id.
       Inr \<lparr> parent_coin_info = parent_id, puzzle_hash = ph, amount = reward \<rparr>)"

lemma pool_coin_eq:
  assumes "length g = 32" "0 \<le> h" "h < 2 ^ 32"
  shows "create_pool_coin h ph r g = Inr \<lparr> parent_coin_info = take 16 g @ be_bytes 16 h, puzzle_hash = ph, amount = r \<rparr>"
  using assms by (simp add: create_pool_coin_def pool_parent_id_def to_bytes_unsigned_def bytes32_def sized_bytes_new_def)

lemma farmer_coin_eq:
  assumes "length g = 32" "0 \<le> h" "h < 2 ^ 32"
  shows "create_farmer_coin h ph r g = Inr \<lparr> parent_coin_info = drop 16 g @ be_bytes 16 h, puzzle_hash = ph, amount = r \<rparr>"
  using assms by (simp add: create_farmer_coin_def farmer_parent_id_def to_bytes_unsigned_def bytes32_def sized_bytes_new_def)

lemma be_bytes_16_inject:
  assumes "0 \<le> h" "h < 2 ^ 32" "0 \<le> h'" "h' < 2 ^ 32"
  shows "be_bytes 16 h = be_bytes 16 h' \<longleftrightarrow> h = h'"
proof
  assume "be_bytes 16 h = be_bytes 16 h'"
  then have "be_int (be_bytes 16 h) = be_int (be_bytes 16 h')" by simp
  then show "h = h'" using assms by (simp add: be_int_be_bytes)
qed simp

text \<open>The hashed bytes determine the coin: a coin name commits to parent, puzzle hash and amount.\<close>

lemma Coin_preimage_inject:
  assumes "crypto_ok E" "Coin_preimage E c = Coin_preimage E d"
    and "length (parent_coin_info c) = 32" "length (puzzle_hash c) = 32" "length (parent_coin_info d) = 32" "length (puzzle_hash d) = 32"
  shows "c = d"
proof -
  have "parent_coin_info c = parent_coin_info d" "puzzle_hash c = puzzle_hash d"
    and i: "int_to_bytes E (amount c) = int_to_bytes E (amount d)"
    using assms(2-6) by (simp_all add: Coin_preimage_def)
  moreover have "amount c = amount d"
    using arg_cong [OF i, of "int_from_bytes E"] assms(1) by (simp add: crypto_ok_def)
  ultimately show ?thesis by simp
qed

lemma reward_coin_eq:
  assumes "create \<in> {create_pool_coin, create_farmer_coin}" "length g = 32" "0 \<le> h" "h < 2 ^ 32" "create h ph r g = Inr c"
  shows "c = \<lparr> parent_coin_info = (if create = create_pool_coin then take 16 g else drop 16 g) @ be_bytes 16 h,
               puzzle_hash = ph, amount = r \<rparr>"
  using assms pool_coin_eq [OF assms(2-4)] farmer_coin_eq [OF assms(2-4)] by (auto split: if_splits)

text \<open>
  C26. The reward coins of two heights, and the pool and farmer coin of one height, never share a name where the
  hash function has no collision, provided the halves of the genesis challenge differ: a reward is never lost to a
  duplicate coin.
\<close>

theorem reward_coins_distinct:
  assumes "crypto_ok E" "length g = 32" "take 16 g \<noteq> drop 16 g"
    and "0 \<le> h" "h < 2 ^ 32" "0 \<le> h'" "h' < 2 ^ 32"
    and "length ph = 32" "length ph' = 32"
    and "create \<in> {create_pool_coin, create_farmer_coin}" "create' \<in> {create_pool_coin, create_farmer_coin}"
    and "(create, h) \<noteq> (create', h')"
    and "create h ph r g = Inr c" "create' h' ph' r' g = Inr c'"
    and "inj_on (hash256 E) S" "Coin_preimage E c \<in> S" "Coin_preimage E c' \<in> S"
  shows "Coin_name E c \<noteq> Coin_name E c'"
proof
  note c = reward_coin_eq [OF assms(10,2,4,5,13)] and c' = reward_coin_eq [OF assms(11,2,6,7,14)]
  assume "Coin_name E c = Coin_name E c'"
  then have "Coin_preimage E c = Coin_preimage E c'"
    using assms(15-17) by (simp add: Coin_name_def Coin_get_hash_def std_hash_def inj_on_eq_iff)
  then have "c = c'"
    by (rule Coin_preimage_inject [OF assms(1)]) (use c c' assms(2,8,9) in auto)
  then have "(if create = create_pool_coin then take 16 g else drop 16 g) @ be_bytes 16 h =
      (if create' = create_pool_coin then take 16 g else drop 16 g) @ be_bytes 16 h'"
    using c c' by simp
  then have "h = h'" "create = create_pool_coin \<longleftrightarrow> create' = create_pool_coin"
    using assms(2,3) be_bytes_16_inject [OF assms(4-7)] by (auto split: if_splits)
  with assms(10-12) show False by auto
qed

text \<open>A concrete instance of the parameters: minimal signed big-endian integers and a truncating digest.\<close>

definition signed_bytes :: "int \<Rightarrow> bytes" where
  "signed_bytes i = be_bytes ((bit_length i + 8) div 8) i"

lemma signed_bytes_inverse: "be_int_signed (signed_bytes i) = i"
proof -
  let ?n = "(bit_length i + 8) div 8"
  have n: "bit_length i \<le> 8 * ?n - 1" by presburger
  have "\<bar>i\<bar> < 2 ^ bit_length i" using bit_length_bound [of "\<bar>i\<bar>"] by simp
  also have "\<dots> \<le> 2 ^ (8 * ?n - 1)" using n by (rule power_increasing) simp
  finally show ?thesis unfolding signed_bytes_def by (intro be_int_signed_be_bytes) auto
qed

definition demo_crypto :: crypto where
  "demo_crypto =
     \<lparr> hash256 = (\<lambda>b. take 32 (b @ replicate 32 0)),
       int_to_bytes = (\<lambda>i. if i = 0 then [] else signed_bytes i),
       int_from_bytes = be_int_signed,
       bls_codec = raw_codec \<rparr>"

lemma demo_crypto_ok: "crypto_ok demo_crypto"
proof -
  have "be_int_signed [] = 0" by (simp add: be_int_signed_def)
  then show ?thesis by (auto simp: crypto_ok_def demo_crypto_def signed_bytes_inverse raw_codec_ok)
qed

theorem reward_coins_distinct_witness:
  "Coin_name demo_crypto \<lparr> parent_coin_info = replicate 16 0 @ be_bytes 16 7, puzzle_hash = replicate 32 1, amount = 5 \<rparr> \<noteq>
   Coin_name demo_crypto \<lparr> parent_coin_info = replicate 16 9 @ be_bytes 16 7, puzzle_hash = replicate 32 1, amount = 5 \<rparr>"
  (is "Coin_name _ ?c \<noteq> Coin_name _ ?d")
proof (rule reward_coins_distinct [OF demo_crypto_ok, where g = "replicate 16 0 @ replicate 16 9" and h = 7 and h' = 7 and
      ph = "replicate 32 1" and ph' = "replicate 32 1" and r = 5 and r' = 5 and create = create_pool_coin and
      create' = create_farmer_coin and S = "{Coin_preimage demo_crypto ?c, Coin_preimage demo_crypto ?d}"])
  have "take 16 (replicate 16 (0 :: byte)) \<noteq> take 16 (replicate 16 9)" by simp
  then show "inj_on (hash256 demo_crypto) {Coin_preimage demo_crypto ?c, Coin_preimage demo_crypto ?d}"
    by (auto simp: demo_crypto_def Coin_preimage_def)
  show "(create_pool_coin, 7) \<noteq> (create_farmer_coin, 7)"
    using pool_coin_eq [of "replicate 16 0 @ replicate 16 9" 7 "[]" 5] farmer_coin_eq [of "replicate 16 0 @ replicate 16 9" 7 "[]" 5]
    by (auto simp: replicate_eq_replicate)
  show "create_pool_coin 7 (replicate 32 1) 5 (replicate 16 0 @ replicate 16 9) = Inr ?c"
    by (subst pool_coin_eq) simp_all
  show "create_farmer_coin 7 (replicate 32 1) 5 (replicate 16 0 @ replicate 16 9) = Inr ?d"
    by (subst farmer_coin_eq) simp_all
qed simp_all

end
