(* ===== verification/Blocks.thy ===== *)
theory Blocks
  imports Coins
begin

text \<open>
  The block formats of \<^verbatim>\<open>hddcoin/types\<close>: VDF values, slots, the reward chain block, the foliage and full
  blocks, with the annotations from which \<^verbatim>\<open>streamable\<close> derives their serialization. Each class \<open>C\<close> is a
  record, its annotations are \<open>C_fields\<close> and its items \<open>C_items\<close>; hashes are then those of the streamable format.
  BLS elements and programs are represented by their serialization.
\<close>

type_synonym item = "bytes val"

definition get_hash :: "crypto \<Rightarrow> ty list \<Rightarrow> item list \<Rightarrow> bytes res" where
  "get_hash E flds vs = Streamable_get_hash (hash256 E) (bls_codec E) flds vs"

definition VOpt :: "('a \<Rightarrow> item) \<Rightarrow> 'a option \<Rightarrow> item" where
  "VOpt f x = (case x of None \<Rightarrow> VNone | Some v \<Rightarrow> VSome (f v))"

abbreviation TU8 where "TU8 \<equiv> TStruct FMT_B"
abbreviation TU32 where "TU32 \<equiv> TStruct FMT_L"
abbreviation TU64 where "TU64 \<equiv> TStruct FMT_Q"
abbreviation TB32 where "TB32 \<equiv> TSized 32"

section \<open>VDF values\<close>

record ClassgroupElement =
  data :: bytes

definition ClassgroupElement_fields :: "ty list" where
  "ClassgroupElement_fields = [TSized 100]"

definition ClassgroupElement_items :: "ClassgroupElement \<Rightarrow> item list" where
  "ClassgroupElement_items x = [VBytes (data x)]"

definition ClassgroupElement_from_bytes :: "bytes \<Rightarrow> ClassgroupElement res" where
  "ClassgroupElement_from_bytes d =
     (let d' = (if length d < 100 then d @ replicate (100 - length d) 0 else d)
      in rbind (sized_bytes_new 100 d') (\<lambda>v. Inr \<lparr> data = v \<rparr>))"

definition get_default_element :: "ClassgroupElement res" where
  "get_default_element = ClassgroupElement_from_bytes [8]"

record VDFInfo =
  challenge :: bytes
  number_of_iterations :: int
  vdf_output :: ClassgroupElement

definition VDFInfo_fields :: "ty list" where
  "VDFInfo_fields = [TB32, TU64, TClass ClassgroupElement_fields]"

definition VDFInfo_items :: "VDFInfo \<Rightarrow> item list" where
  "VDFInfo_items x = [VBytes (challenge x), VInt (number_of_iterations x), VObj (ClassgroupElement_items (vdf_output x))]"

record VDFProof =
  witness_type :: int
  witness :: bytes
  normalized_to_identity :: bool

section \<open>Slots\<close>

record ChallengeChainSubSlot =
  challenge_chain_end_of_slot_vdf :: VDFInfo
  cc_infused_challenge_chain_sub_slot_hash :: "bytes option"
  subepoch_summary_hash :: "bytes option"
  cc_new_sub_slot_iters :: "int option"
  cc_new_difficulty :: "int option"

definition ChallengeChainSubSlot_fields :: "ty list" where
  "ChallengeChainSubSlot_fields =
     [TClass VDFInfo_fields, TOptional TB32, TOptional TB32, TOptional TU64, TOptional TU64]"

definition ChallengeChainSubSlot_items :: "ChallengeChainSubSlot \<Rightarrow> item list" where
  "ChallengeChainSubSlot_items x =
     [VObj (VDFInfo_items (challenge_chain_end_of_slot_vdf x)),
      VOpt VBytes (cc_infused_challenge_chain_sub_slot_hash x),
      VOpt VBytes (subepoch_summary_hash x),
      VOpt VInt (cc_new_sub_slot_iters x),
      VOpt VInt (cc_new_difficulty x)]"

record InfusedChallengeChainSubSlot =
  infused_challenge_chain_end_of_slot_vdf :: VDFInfo

definition InfusedChallengeChainSubSlot_fields :: "ty list" where
  "InfusedChallengeChainSubSlot_fields = [TClass VDFInfo_fields]"

definition InfusedChallengeChainSubSlot_items :: "InfusedChallengeChainSubSlot \<Rightarrow> item list" where
  "InfusedChallengeChainSubSlot_items x = [VObj (VDFInfo_items (infused_challenge_chain_end_of_slot_vdf x))]"

record RewardChainSubSlot =
  end_of_slot_vdf :: VDFInfo
  challenge_chain_sub_slot_hash :: bytes
  rc_infused_challenge_chain_sub_slot_hash :: "bytes option"
  rc_deficit :: int

definition RewardChainSubSlot_fields :: "ty list" where
  "RewardChainSubSlot_fields = [TClass VDFInfo_fields, TB32, TOptional TB32, TU8]"

definition RewardChainSubSlot_items :: "RewardChainSubSlot \<Rightarrow> item list" where
  "RewardChainSubSlot_items x =
     [VObj (VDFInfo_items (end_of_slot_vdf x)),
      VBytes (challenge_chain_sub_slot_hash x),
      VOpt VBytes (rc_infused_challenge_chain_sub_slot_hash x),
      VInt (rc_deficit x)]"

record SubSlotProofs =
  challenge_chain_slot_proof :: VDFProof
  infused_challenge_chain_slot_proof :: "VDFProof option"
  reward_chain_slot_proof :: VDFProof

record EndOfSubSlotBundle =
  challenge_chain :: ChallengeChainSubSlot
  infused_challenge_chain :: "InfusedChallengeChainSubSlot option"
  reward_chain :: RewardChainSubSlot
  proofs :: SubSlotProofs

record SubEpochSummary =
  prev_subepoch_summary_hash :: bytes
  reward_chain_hash :: bytes
  num_blocks_overflow :: int
  new_difficulty :: "int option"
  new_sub_slot_iters :: "int option"

definition SubEpochSummary_fields :: "ty list" where
  "SubEpochSummary_fields = [TB32, TB32, TU8, TOptional TU64, TOptional TU64]"

definition SubEpochSummary_items :: "SubEpochSummary \<Rightarrow> item list" where
  "SubEpochSummary_items x =
     [VBytes (prev_subepoch_summary_hash x), VBytes (reward_chain_hash x), VInt (num_blocks_overflow x),
      VOpt VInt (new_difficulty x), VOpt VInt (new_sub_slot_iters x)]"

section \<open>Proof of space and the reward chain block\<close>

record ProofOfSpace =
  pos_challenge :: bytes
  pool_public_key :: "bytes option"
  pool_contract_puzzle_hash :: "bytes option"
  plot_public_key :: bytes
  pos_size :: int
  pos_proof :: bytes

definition ProofOfSpace_fields :: "ty list" where
  "ProofOfSpace_fields = [TB32, TOptional (TBls G1Element), TOptional TB32, TBls G1Element, TU8, TBytes]"

definition ProofOfSpace_items :: "ProofOfSpace \<Rightarrow> item list" where
  "ProofOfSpace_items x =
     [VBytes (pos_challenge x), VOpt VBls (pool_public_key x), VOpt VBytes (pool_contract_puzzle_hash x),
      VBls (plot_public_key x), VInt (pos_size x), VBytes (pos_proof x)]"

record RewardChainBlockUnfinished =
  un_total_iters :: int
  un_signage_point_index :: int
  un_pos_ss_cc_challenge_hash :: bytes
  un_proof_of_space :: ProofOfSpace
  un_challenge_chain_sp_vdf :: "VDFInfo option"
  un_challenge_chain_sp_signature :: bytes
  un_reward_chain_sp_vdf :: "VDFInfo option"
  un_reward_chain_sp_signature :: bytes

definition RewardChainBlockUnfinished_fields :: "ty list" where
  "RewardChainBlockUnfinished_fields =
     [TUint128, TU8, TB32, TClass ProofOfSpace_fields, TOptional (TClass VDFInfo_fields), TBls G2Element,
      TOptional (TClass VDFInfo_fields), TBls G2Element]"

definition RewardChainBlockUnfinished_items :: "RewardChainBlockUnfinished \<Rightarrow> item list" where
  "RewardChainBlockUnfinished_items x =
     [VInt (un_total_iters x), VInt (un_signage_point_index x), VBytes (un_pos_ss_cc_challenge_hash x),
      VObj (ProofOfSpace_items (un_proof_of_space x)),
      VOpt (\<lambda>v. VObj (VDFInfo_items v)) (un_challenge_chain_sp_vdf x), VBls (un_challenge_chain_sp_signature x),
      VOpt (\<lambda>v. VObj (VDFInfo_items v)) (un_reward_chain_sp_vdf x), VBls (un_reward_chain_sp_signature x)]"

record RewardChainBlock =
  rcb_weight :: int
  rcb_height :: int
  rcb_total_iters :: int
  rcb_signage_point_index :: int
  pos_ss_cc_challenge_hash :: bytes
  proof_of_space :: ProofOfSpace
  challenge_chain_sp_vdf :: "VDFInfo option"
  challenge_chain_sp_signature :: bytes
  challenge_chain_ip_vdf :: VDFInfo
  reward_chain_sp_vdf :: "VDFInfo option"
  reward_chain_sp_signature :: bytes
  reward_chain_ip_vdf :: VDFInfo
  infused_challenge_chain_ip_vdf :: "VDFInfo option"
  rcb_is_transaction_block :: bool

definition RewardChainBlock_fields :: "ty list" where
  "RewardChainBlock_fields =
     [TUint128, TU32, TUint128, TU8, TB32, TClass ProofOfSpace_fields, TOptional (TClass VDFInfo_fields), TBls G2Element,
      TClass VDFInfo_fields, TOptional (TClass VDFInfo_fields), TBls G2Element, TClass VDFInfo_fields,
      TOptional (TClass VDFInfo_fields), TBool]"

definition RewardChainBlock_items :: "RewardChainBlock \<Rightarrow> item list" where
  "RewardChainBlock_items x =
     [VInt (rcb_weight x), VInt (rcb_height x), VInt (rcb_total_iters x), VInt (rcb_signage_point_index x),
      VBytes (pos_ss_cc_challenge_hash x), VObj (ProofOfSpace_items (proof_of_space x)),
      VOpt (\<lambda>v. VObj (VDFInfo_items v)) (challenge_chain_sp_vdf x), VBls (challenge_chain_sp_signature x),
      VObj (VDFInfo_items (challenge_chain_ip_vdf x)),
      VOpt (\<lambda>v. VObj (VDFInfo_items v)) (reward_chain_sp_vdf x), VBls (reward_chain_sp_signature x),
      VObj (VDFInfo_items (reward_chain_ip_vdf x)),
      VOpt (\<lambda>v. VObj (VDFInfo_items v)) (infused_challenge_chain_ip_vdf x), VBool (rcb_is_transaction_block x)]"

definition get_unfinished :: "RewardChainBlock \<Rightarrow> RewardChainBlockUnfinished" where
  "get_unfinished x =
     \<lparr> un_total_iters = rcb_total_iters x,
       un_signage_point_index = rcb_signage_point_index x,
       un_pos_ss_cc_challenge_hash = pos_ss_cc_challenge_hash x,
       un_proof_of_space = proof_of_space x,
       un_challenge_chain_sp_vdf = challenge_chain_sp_vdf x,
       un_challenge_chain_sp_signature = challenge_chain_sp_signature x,
       un_reward_chain_sp_vdf = reward_chain_sp_vdf x,
       un_reward_chain_sp_signature = reward_chain_sp_signature x \<rparr>"

section \<open>Foliage\<close>

record PoolTarget =
  pt_puzzle_hash :: bytes
  max_height :: int

record TransactionsInfo =
  generator_root :: bytes
  generator_refs_root :: bytes
  aggregated_signature :: bytes
  ti_fees :: int
  ti_cost :: int
  ti_reward_claims_incorporated :: "Coin list"

definition Coin_fields :: "ty list" where
  "Coin_fields = [TB32, TB32, TU64]"

definition Coin_items :: "Coin \<Rightarrow> item list" where
  "Coin_items c = [VBytes (parent_coin_info c), VBytes (puzzle_hash c), VInt (amount c)]"

definition TransactionsInfo_fields :: "ty list" where
  "TransactionsInfo_fields = [TB32, TB32, TBls G2Element, TU64, TU64, TList (TClass Coin_fields)]"

definition TransactionsInfo_items :: "TransactionsInfo \<Rightarrow> item list" where
  "TransactionsInfo_items x =
     [VBytes (generator_root x), VBytes (generator_refs_root x), VBls (aggregated_signature x), VInt (ti_fees x),
      VInt (ti_cost x), VList (map (\<lambda>c. VObj (Coin_items c)) (ti_reward_claims_incorporated x))]"

record FoliageTransactionBlock =
  ftb_prev_transaction_block_hash :: bytes
  ftb_timestamp :: int
  filter_hash :: bytes
  additions_root :: bytes
  removals_root :: bytes
  transactions_info_hash :: bytes

definition FoliageTransactionBlock_fields :: "ty list" where
  "FoliageTransactionBlock_fields = [TB32, TU64, TB32, TB32, TB32, TB32]"

definition FoliageTransactionBlock_items :: "FoliageTransactionBlock \<Rightarrow> item list" where
  "FoliageTransactionBlock_items x =
     [VBytes (ftb_prev_transaction_block_hash x), VInt (ftb_timestamp x), VBytes (filter_hash x),
      VBytes (additions_root x), VBytes (removals_root x), VBytes (transactions_info_hash x)]"

record FoliageBlockData =
  unfinished_reward_block_hash :: bytes
  pool_target :: PoolTarget
  pool_signature :: "bytes option"
  farmer_reward_puzzle_hash :: bytes
  extension_data :: bytes

definition FoliageBlockData_fields :: "ty list" where
  "FoliageBlockData_fields = [TB32, TClass [TB32, TU32], TOptional (TBls G2Element), TB32, TB32]"

definition FoliageBlockData_items :: "FoliageBlockData \<Rightarrow> item list" where
  "FoliageBlockData_items x =
     [VBytes (unfinished_reward_block_hash x),
      VObj [VBytes (pt_puzzle_hash (pool_target x)), VInt (max_height (pool_target x))],
      VOpt VBls (pool_signature x), VBytes (farmer_reward_puzzle_hash x), VBytes (extension_data x)]"

record Foliage =
  prev_block_hash :: bytes
  reward_block_hash :: bytes
  foliage_block_data :: FoliageBlockData
  foliage_block_data_signature :: bytes
  foliage_transaction_block_hash :: "bytes option"
  foliage_transaction_block_signature :: "bytes option"

definition Foliage_fields :: "ty list" where
  "Foliage_fields =
     [TB32, TB32, TClass FoliageBlockData_fields, TBls G2Element, TOptional TB32, TOptional (TBls G2Element)]"

definition Foliage_items :: "Foliage \<Rightarrow> item list" where
  "Foliage_items x =
     [VBytes (prev_block_hash x), VBytes (reward_block_hash x), VObj (FoliageBlockData_items (foliage_block_data x)),
      VBls (foliage_block_data_signature x), VOpt VBytes (foliage_transaction_block_hash x),
      VOpt VBls (foliage_transaction_block_signature x)]"

section \<open>Full blocks\<close>

record FullBlock =
  finished_sub_slots :: "EndOfSubSlotBundle list"
  reward_chain_block :: RewardChainBlock
  challenge_chain_sp_proof :: "VDFProof option"
  challenge_chain_ip_proof :: VDFProof
  reward_chain_sp_proof :: "VDFProof option"
  reward_chain_ip_proof :: VDFProof
  infused_challenge_chain_ip_proof :: "VDFProof option"
  foliage :: Foliage
  foliage_transaction_block :: "FoliageTransactionBlock option"
  transactions_info :: "TransactionsInfo option"
  transactions_generator :: "bytes option"
  transactions_generator_ref_list :: "int list"

definition prev_header_hash :: "FullBlock \<Rightarrow> bytes" where
  "prev_header_hash b = prev_block_hash (foliage b)"

definition FullBlock_height :: "FullBlock \<Rightarrow> int" where
  "FullBlock_height b = rcb_height (reward_chain_block b)"

definition FullBlock_weight :: "FullBlock \<Rightarrow> int" where
  "FullBlock_weight b = rcb_weight (reward_chain_block b)"

definition FullBlock_total_iters :: "FullBlock \<Rightarrow> int" where
  "FullBlock_total_iters b = rcb_total_iters (reward_chain_block b)"

definition FullBlock_header_hash :: "crypto \<Rightarrow> FullBlock \<Rightarrow> bytes res" where
  "FullBlock_header_hash E b = get_hash E Foliage_fields (Foliage_items (foliage b))"

definition FullBlock_is_transaction_block :: "FullBlock \<Rightarrow> bool" where
  "FullBlock_is_transaction_block b \<longleftrightarrow> foliage_transaction_block b \<noteq> None"

text \<open>A Python set of coins in an order of insertion; equality tests compare the elements.\<close>

definition get_included_reward_coins :: "FullBlock \<Rightarrow> Coin list res" where
  "get_included_reward_coins b =
     (if \<not> FullBlock_is_transaction_block b then Inr []
      else case transactions_info b of
             None \<Rightarrow> Inl AssertionError
           | Some ti \<Rightarrow> Inr (remdups (ti_reward_claims_incorporated ti)))"

record UnfinishedBlock =
  ub_finished_sub_slots :: "EndOfSubSlotBundle list"
  ub_reward_chain_block :: RewardChainBlockUnfinished
  ub_challenge_chain_sp_proof :: "VDFProof option"
  ub_reward_chain_sp_proof :: "VDFProof option"
  ub_foliage :: Foliage
  ub_foliage_transaction_block :: "FoliageTransactionBlock option"
  ub_transactions_info :: "TransactionsInfo option"
  ub_transactions_generator :: "bytes option"
  ub_transactions_generator_ref_list :: "int list"

definition UnfinishedBlock_partial_hash :: "crypto \<Rightarrow> UnfinishedBlock \<Rightarrow> bytes res" where
  "UnfinishedBlock_partial_hash E b = get_hash E RewardChainBlockUnfinished_fields (RewardChainBlockUnfinished_items (ub_reward_chain_block b))"

definition UnfinishedBlock_is_transaction_block :: "UnfinishedBlock \<Rightarrow> bool" where
  "UnfinishedBlock_is_transaction_block b \<longleftrightarrow> foliage_transaction_block_hash (ub_foliage b) \<noteq> None"

definition UnfinishedBlock_total_iters :: "UnfinishedBlock \<Rightarrow> int" where
  "UnfinishedBlock_total_iters b = un_total_iters (ub_reward_chain_block b)"

definition compact_proof :: "VDFProof \<Rightarrow> bool" where
  "compact_proof p \<longleftrightarrow> \<not> (witness_type p \<noteq> 0 \<or> \<not> normalized_to_identity p)"

definition is_fully_compactified :: "FullBlock \<Rightarrow> bool" where
  "is_fully_compactified b \<longleftrightarrow>
     list_all (\<lambda>sub_slot.
       compact_proof (challenge_chain_slot_proof (proofs sub_slot)) \<and>
       (case infused_challenge_chain_slot_proof (proofs sub_slot) of None \<Rightarrow> True | Some p \<Rightarrow> compact_proof p))
       (finished_sub_slots b) \<and>
     (case challenge_chain_sp_proof b of None \<Rightarrow> True | Some p \<Rightarrow> compact_proof p) \<and>
     compact_proof (challenge_chain_ip_proof b)"

section \<open>Types\<close>

text \<open>Records within the ranges of their annotations are well-typed items, so their hashes are defined.\<close>

lemma get_hash_total:
  assumes "crypto_ok E" "has_type (bls_codec E) (TClass flds) (VObj vs)"
  shows "\<exists>h. get_hash E flds vs = Inr h \<and> length h = 32"
proof -
  have "length vs = length flds" using assms(2) by simp
  moreover obtain bs where "stream_one_item (bls_codec E) (TClass flds) (VObj vs) = Inr bs"
    using item_codec.stream_total [OF item_codec_one [where can = False] assms(2)] assms(1) by (auto simp: crypto_ok_def)
  ultimately have "Streamable_stream (bls_codec E) flds vs = Inr bs" by (simp only: Streamable_stream_eq)
  with assms(1) show ?thesis
    by (simp add: get_hash_def Streamable_get_hash_def bytes32_def sized_bytes_new_def crypto_ok_def)
qed

end
