(* ===== verification/BlockRecords.thy ===== *)
theory BlockRecords
  imports Blocks
begin

text \<open>
  \<^verbatim>\<open>hddcoin/consensus/block_record.py\<close>, \<^verbatim>\<open>blockchain_interface.py\<close>, \<^verbatim>\<open>deficit.py\<close>, \<^verbatim>\<open>find_fork_point.py\<close> and
  \<^verbatim>\<open>get_block_challenge.py\<close>. The interface through which consensus code sees the chain is a record of its queries;
  \<open>block_tree\<close> is the contract every implementation keeps: records are filed under their hash and a parent is one lower.
  Shown: the fork point is the height of the highest common ancestor and the search terminates; the
  deficit stays within its range and counts down within a slot.
\<close>

section \<open>Block records\<close>

record BlockRecord =
  header_hash :: bytes
  prev_hash :: bytes
  height :: int
  weight :: int
  total_iters :: int
  signage_point_index :: int
  challenge_vdf_output :: ClassgroupElement
  infused_challenge_vdf_output :: "ClassgroupElement option"
  reward_infusion_new_challenge :: bytes
  challenge_block_info_hash :: bytes
  sub_slot_iters :: int
  pool_puzzle_hash :: bytes
  farmer_puzzle_hash :: bytes
  required_iters :: int
  deficit :: int
  overflow :: bool
  prev_transaction_block_height :: int
  timestamp :: "int option"
  prev_transaction_block_hash :: "bytes option"
  fees :: "int option"
  reward_claims_incorporated :: "Coin list option"
  finished_challenge_slot_hashes :: "bytes list option"
  finished_infused_challenge_slot_hashes :: "bytes list option"
  finished_reward_slot_hashes :: "bytes list option"
  sub_epoch_summary_included :: "SubEpochSummary option"

definition is_transaction_block :: "BlockRecord \<Rightarrow> bool" where
  "is_transaction_block b \<longleftrightarrow> timestamp b \<noteq> None"

definition first_in_sub_slot :: "BlockRecord \<Rightarrow> bool" where
  "first_in_sub_slot b \<longleftrightarrow> finished_challenge_slot_hashes b \<noteq> None"

definition is_challenge_block :: "ConsensusConstants \<Rightarrow> BlockRecord \<Rightarrow> bool" where
  "is_challenge_block constants b \<longleftrightarrow> deficit b = MIN_BLOCKS_PER_CHALLENGE_BLOCK constants - 1"

definition sp_iters :: "ConsensusConstants \<Rightarrow> BlockRecord \<Rightarrow> int res" where
  "sp_iters constants b = calculate_sp_iters constants (sub_slot_iters b) (signage_point_index b)"

definition ip_iters :: "ConsensusConstants \<Rightarrow> BlockRecord \<Rightarrow> int res" where
  "ip_iters constants b =
     calculate_ip_iters constants (sub_slot_iters b) (signage_point_index b) (required_iters b)"

definition sp_sub_slot_total_iters :: "ConsensusConstants \<Rightarrow> BlockRecord \<Rightarrow> int res" where
  "sp_sub_slot_total_iters constants b =
     (if overflow b then rbind (ip_iters constants b) (\<lambda>i. uint128 (total_iters b - i - sub_slot_iters b))
      else rbind (ip_iters constants b) (\<lambda>i. uint128 (total_iters b - i)))"

definition ip_sub_slot_total_iters :: "ConsensusConstants \<Rightarrow> BlockRecord \<Rightarrow> int res" where
  "ip_sub_slot_total_iters constants b = rbind (ip_iters constants b) (\<lambda>i. uint128 (total_iters b - i))"

definition sp_total_iters :: "ConsensusConstants \<Rightarrow> BlockRecord \<Rightarrow> int res" where
  "sp_total_iters constants b =
     rbind (sp_sub_slot_total_iters constants b) (\<lambda>s. rbind (sp_iters constants b) (\<lambda>i. Inr (s + i)))"

text \<open>
  The signage point of a block lies before its infusion point: by \<open>NUM_SP_INTERVALS_EXTRA\<close> intervals and the required
  iterations, also across the end of a sub-slot.
\<close>

lemma sp_before_ip:
  assumes "constants_wf c" "sub_slot_iters b = n * NUM_SPS_SUB_SLOT c" "sub_slot_iters b < 2 ^ 64"
    and "0 \<le> signage_point_index b" "signage_point_index b < NUM_SPS_SUB_SLOT c" "0 < required_iters b" "required_iters b < n"
    and "is_overflow_block c (signage_point_index b) = Inr (overflow b)"
    and "sp_total_iters c b = Inr sp"
  shows "sp = total_iters b - NUM_SP_INTERVALS_EXTRA c * n - required_iters b"
proof -
  have sp: "sp_iters c b = Inr (n * signage_point_index b)"
    unfolding sp_iters_def by (rule sp_iters_eq) (use assms constants_wf_pos [OF assms(1)] in auto)
  have ip: "ip_iters c b = Inr (n * signage_point_index b + NUM_SP_INTERVALS_EXTRA c * n + required_iters b -
         (if signage_point_index b \<ge> NUM_SPS_SUB_SLOT c - NUM_SP_INTERVALS_EXTRA c then sub_slot_iters b else 0))"
    unfolding ip_iters_def by (rule ip_iters_eq) (use assms in auto)
  have ov: "overflow b \<longleftrightarrow> signage_point_index b \<ge> NUM_SPS_SUB_SLOT c - NUM_SP_INTERVALS_EXTRA c"
    using assms(5,8) by (auto simp: is_overflow_block_def)
  show ?thesis using assms(9)
    by (auto simp: sp_total_iters_def sp_sub_slot_total_iters_def sp ip ov uint128_eq res_conv split: if_splits)
qed

section \<open>The chain interface\<close>

record BlockchainInterface =
  contains_block :: "bytes \<Rightarrow> bool"
  block_record :: "bytes \<Rightarrow> BlockRecord res"
  contains_height :: "int \<Rightarrow> bool"
  height_to_hash :: "int \<Rightarrow> bytes option res"

text \<open>\<^verbatim>\<open>blocks.block_record(None)\<close> is a failed lookup.\<close>

definition height_to_block_record :: "BlockchainInterface \<Rightarrow> int \<Rightarrow> BlockRecord res" where
  "height_to_block_record blocks h =
     rbind (height_to_hash blocks h) (\<lambda>x. case x of None \<Rightarrow> Inl KeyError | Some hh \<Rightarrow> block_record blocks hh)"

definition try_block_record :: "BlockchainInterface \<Rightarrow> bytes \<Rightarrow> BlockRecord option res" where
  "try_block_record blocks hh =
     (if contains_block blocks hh then rbind (block_record blocks hh) (\<lambda>b. Inr (Some b)) else Inr None)"

definition block_tree :: "BlockchainInterface \<Rightarrow> bool" where
  "block_tree B \<longleftrightarrow>
     (\<forall>hh b. block_record B hh = Inr b \<longrightarrow> header_hash b = hh \<and> 0 \<le> height b \<and>
        (0 < height b \<longrightarrow> (\<exists>p. block_record B (prev_hash b) = Inr p \<and> height p = height b - 1)))"

definition in_tree :: "BlockchainInterface \<Rightarrow> BlockRecord \<Rightarrow> bool" where
  "in_tree B b \<longleftrightarrow> block_record B (header_hash b) = Inr b"

inductive ancestor :: "BlockchainInterface \<Rightarrow> BlockRecord \<Rightarrow> BlockRecord \<Rightarrow> bool" for B where
  refl: "ancestor B b b"
| step: "0 < height b \<Longrightarrow> block_record B (prev_hash b) = Inr p \<Longrightarrow> ancestor B p a \<Longrightarrow> ancestor B b a"

inductive_simps ancestor_iff: "ancestor B b a"

lemma in_tree_same: "in_tree B b \<Longrightarrow> in_tree B c \<Longrightarrow> header_hash b = header_hash c \<Longrightarrow> b = c"
  by (simp add: in_tree_def)

lemma in_tree_height: "block_tree B \<Longrightarrow> in_tree B b \<Longrightarrow> 0 \<le> height b"
  unfolding block_tree_def in_tree_def by blast

lemma in_tree_parent:
  assumes "block_tree B" "in_tree B b" "0 < height b"
  obtains p where "block_record B (prev_hash b) = Inr p" "height p = height b - 1" "in_tree B p"
proof -
  from assms obtain p where p: "block_record B (prev_hash b) = Inr p" "height p = height b - 1"
    unfolding block_tree_def in_tree_def by blast
  with assms(1) have "header_hash p = prev_hash b" unfolding block_tree_def by blast
  with p that show ?thesis by (simp add: in_tree_def)
qed

lemma ancestor_height:
  assumes "ancestor B b a" "block_tree B" "in_tree B b"
  shows "in_tree B a \<and> height a \<le> height b"
  using assms(1,3)
proof (induction rule: ancestor.induct)
  case (step b p a)
  from in_tree_parent [OF assms(2) step.prems step.hyps(1)] step show ?case by fastforce
qed simp

lemma ancestor_trans: "ancestor B b a \<Longrightarrow> ancestor B a c \<Longrightarrow> ancestor B b c"
  by (induction rule: ancestor.induct) (auto intro: ancestor.intros)

lemma ancestor_genesis: "\<not> 0 < height b \<Longrightarrow> ancestor B b a \<longleftrightarrow> a = b"
  by (auto simp: ancestor_iff [of B b])

text \<open>An ancestor other than the block itself is an ancestor of its parent.\<close>

lemma ancestor_parent:
  "ancestor B b a \<Longrightarrow> a \<noteq> b \<Longrightarrow> block_record B (prev_hash b) = Inr p \<Longrightarrow> ancestor B p a"
  by (auto simp: ancestor_iff [of B b])

lemma ancestor_unique:
  assumes "ancestor B b x" "ancestor B b y" "height x = height y" "block_tree B" "in_tree B b"
  shows "x = y"
  using assms(1,2,3,5)
proof (induction arbitrary: y rule: ancestor.induct)
  case (refl b)
  show ?case using refl(1)
  proof (cases rule: ancestor.cases)
    case (step p)
    from in_tree_parent [OF assms(4) refl(3) step(1)] step(2) obtain "in_tree B p" "height p = height b - 1" by auto
    with ancestor_height [OF step(3) assms(4)] refl(2) show ?thesis by simp
  qed simp
next
  case (step b p a)
  from in_tree_parent [OF assms(4) step.prems(3) step.hyps(1)] step.hyps(2)
  have p: "in_tree B p" "height p = height b - 1" by auto
  have "height a < height b" using ancestor_height [OF step.hyps(3) assms(4) p(1)] p(2) by simp
  with step.prems(2) have "y \<noteq> b" by auto
  with ancestor_parent [OF step.prems(1) _ step.hyps(2)] have "ancestor B p y" by simp
  with step.IH step.prems(2) p(1) show ?case by blast
qed

section \<open>The fork point\<close>

text \<open>The loop state: both blocks and the value of an early \<^verbatim>\<open>return\<close>.\<close>

definition fork_step :: "BlockchainInterface \<Rightarrow> BlockRecord \<times> BlockRecord \<times> int option \<Rightarrow> (BlockRecord \<times> BlockRecord \<times> int option) res" where
  "fork_step blocks = (\<lambda>(block_1, block_2, ret).
     if height block_2 > height block_1 then
       rbind (block_record blocks (prev_hash block_2)) (\<lambda>b2. Inr (block_1, b2, None))
     else if height block_1 > height block_2 then
       rbind (block_record blocks (prev_hash block_1)) (\<lambda>b1. Inr (b1, block_2, None))
     else if header_hash block_2 = header_hash block_1 then Inr (block_1, block_2, Some (height block_2))
     else
       rbind (block_record blocks (prev_hash block_2)) (\<lambda>b2.
       rbind (block_record blocks (prev_hash block_1)) (\<lambda>b1. Inr (b1, b2, None))))"

definition find_fork_point_in_chain :: "BlockchainInterface \<Rightarrow> BlockRecord \<Rightarrow> BlockRecord \<Rightarrow> int res" where
  "find_fork_point_in_chain blocks block_1 block_2 =
     rbind (py_while (\<lambda>(b1, b2, ret). ret = None \<and> (height b2 > 0 \<or> height b1 > 0)) (fork_step blocks) (block_1, block_2, None))
       (\<lambda>(b1, b2, ret). case ret of
            Some h \<Rightarrow> Inr h
          | None \<Rightarrow> if b2 \<noteq> b1 then Inr (- 1) else Inr 0)"

definition common_ancestor :: "BlockchainInterface \<Rightarrow> BlockRecord \<Rightarrow> BlockRecord \<Rightarrow> BlockRecord \<Rightarrow> bool" where
  "common_ancestor B b1 b2 a \<longleftrightarrow> ancestor B b1 a \<and> ancestor B b2 a"

lemma common_ancestor_sym: "common_ancestor B b1 b2 a \<longleftrightarrow> common_ancestor B b2 b1 a"
  by (auto simp: common_ancestor_def)

text \<open>Stepping back from the higher block, or from two different blocks of one height, loses no common ancestor.\<close>

lemma common_ancestor_up:
  assumes "block_tree B" "in_tree B b1" "in_tree B b2" "height b1 \<le> height b2" "b1 \<noteq> b2"
    and "0 < height b2" "block_record B (prev_hash b2) = Inr p"
  shows "common_ancestor B b1 b2 a \<longleftrightarrow> common_ancestor B b1 p a"
proof
  assume c: "common_ancestor B b1 b2 a"
  have "a \<noteq> b2"
  proof
    assume "a = b2"
    with c have "ancestor B b1 b2" by (simp add: common_ancestor_def)
    moreover from this ancestor_height [OF _ assms(1,2)] assms(4) have "height b1 = height b2" by fastforce
    ultimately show False
      using assms(5)
    proof (cases rule: ancestor.cases)
      case (step p')
      from in_tree_parent [OF assms(1,2) step(1)] step(2) obtain "in_tree B p'" "height p' = height b1 - 1" by auto
      with ancestor_height [OF step(3) assms(1)] \<open>height b1 = height b2\<close> show False by simp
    qed simp
  qed
  with c assms(7) ancestor_parent [of B b2 a p] show "common_ancestor B b1 p a" by (simp add: common_ancestor_def)
next
  assume "common_ancestor B b1 p a"
  with assms(6,7) show "common_ancestor B b1 b2 a" by (auto simp: common_ancestor_def intro: ancestor.step)
qed

definition fork_inv :: "BlockchainInterface \<Rightarrow> BlockRecord \<Rightarrow> BlockRecord \<Rightarrow> BlockRecord \<times> BlockRecord \<times> int option \<Rightarrow> bool" where
  "fork_inv B b1 b2 = (\<lambda>(x1, x2, ret).
     in_tree B x1 \<and> in_tree B x2 \<and> (\<forall>a. common_ancestor B b1 b2 a \<longleftrightarrow> common_ancestor B x1 x2 a) \<and>
     (\<forall>r. ret = Some r \<longrightarrow> x1 = x2 \<and> r = height x1))"

lemma fork_step_progress:
  assumes "block_tree B" "fork_inv B b1 b2 (x1, x2, None)" "height x2 > 0 \<or> height x1 > 0"
  shows "\<exists>y1 y2 r. fork_step B (x1, x2, None) = Inr (y1, y2, r) \<and> fork_inv B b1 b2 (y1, y2, r) \<and>
    nat (height y1) + nat (height y2) + (if r = None then 1 else 0) < nat (height x1) + nat (height x2) + 1"
proof -
  from assms(2) have x: "in_tree B x1" "in_tree B x2"
    and c: "\<And>a. common_ancestor B b1 b2 a \<longleftrightarrow> common_ancestor B x1 x2 a"
    by (auto simp: fork_inv_def)
  note h = in_tree_height [OF assms(1) x(1)] in_tree_height [OF assms(1) x(2)]
  consider (up2) "height x1 < height x2" | (up1) "height x2 < height x1"
    | (same) "height x1 = height x2" "x1 = x2" | (both) "height x1 = height x2" "x1 \<noteq> x2" by linarith
  then show ?thesis
  proof cases
    case up2
    with h obtain p where p: "block_record B (prev_hash x2) = Inr p" "height p = height x2 - 1" "in_tree B p"
      using in_tree_parent [OF assms(1) x(2)] by (metis le_less_trans)
    with up2 h x c common_ancestor_up [OF assms(1) x, of p]
    show ?thesis by (auto simp: fork_step_def fork_inv_def)
  next
    case up1
    with h obtain p where p: "block_record B (prev_hash x1) = Inr p" "height p = height x1 - 1" "in_tree B p"
      using in_tree_parent [OF assms(1) x(1)] by (metis le_less_trans)
    with up1 h x c common_ancestor_up [OF assms(1) x(2,1), of p] common_ancestor_sym [of B x1 x2]
      common_ancestor_sym [of B p x2]
    show ?thesis by (auto simp: fork_step_def fork_inv_def)
  next
    case same
    with x c show ?thesis by (auto simp: fork_step_def fork_inv_def)
  next
    case both
    with assms(3) have pos: "0 < height x1" "0 < height x2" by auto
    from in_tree_parent [OF assms(1) x(1) pos(1)] obtain p1 where
      p1: "block_record B (prev_hash x1) = Inr p1" "height p1 = height x1 - 1" "in_tree B p1" by blast
    from in_tree_parent [OF assms(1) x(2) pos(2)] obtain p2 where
      p2: "block_record B (prev_hash x2) = Inr p2" "height p2 = height x2 - 1" "in_tree B p2" by blast
    have "common_ancestor B x1 x2 a \<longleftrightarrow> common_ancestor B x1 p2 a" for a
      by (rule common_ancestor_up [OF assms(1) x _ both(2) pos(2) p2(1)]) (simp add: both)
    moreover have "common_ancestor B p2 x1 a \<longleftrightarrow> common_ancestor B p2 p1 a" for a
      by (rule common_ancestor_up [OF assms(1) p2(3) x(1) _ _ pos(1) p1(1)]) (use both p2 in auto)
    ultimately have "common_ancestor B b1 b2 a \<longleftrightarrow> common_ancestor B p1 p2 a" for a
      using c common_ancestor_sym by blast
    moreover have "header_hash x2 \<noteq> header_hash x1" using in_tree_same [OF x(2,1)] both(2) by auto
    ultimately show ?thesis using both pos p1 p2 by (auto simp: fork_step_def fork_inv_def)
  qed
qed

text \<open>
  C9. In a block tree the search for the fork point of two blocks terminates and returns the height of their highest
  common ancestor; it returns \<open>- 1\<close> exactly when they have none.
\<close>

theorem fork_point_highest_common_ancestor:
  assumes "block_tree B" "in_tree B b1" "in_tree B b2"
  shows "\<exists>r. find_fork_point_in_chain B b1 b2 = Inr r \<and>
    (if \<exists>a. common_ancestor B b1 b2 a
     then (\<exists>a. common_ancestor B b1 b2 a \<and> height a = r) \<and> (\<forall>a. common_ancestor B b1 b2 a \<longrightarrow> height a \<le> r)
     else r = - 1)"
proof -
  let ?m = "\<lambda>(x1, x2, r). nat (height x1) + nat (height x2) + (if r = (None :: int option) then 1 else 0)"
  have "\<exists>t. py_while (\<lambda>(b1, b2, ret). ret = None \<and> (height b2 > 0 \<or> height b1 > 0)) (fork_step B) (b1, b2, None) = Inr t \<and>
      fork_inv B b1 b2 t \<and> \<not> (\<lambda>(b1, b2, ret). ret = None \<and> (height b2 > 0 \<or> height b1 > 0)) t"
  proof (rule py_while_total [where m = ?m])
    show "fork_inv B b1 b2 (b1, b2, None)" using assms by (simp add: fork_inv_def)
  next
    fix s assume "fork_inv B b1 b2 s" "(\<lambda>(b1, b2, ret). ret = None \<and> (height b2 > 0 \<or> height b1 > 0)) s"
    then show "\<exists>t. fork_step B s = Inr t \<and> fork_inv B b1 b2 t \<and> ?m t < ?m s"
      using fork_step_progress [OF assms(1)] by (cases s) fastforce
  qed
  then obtain x1 x2 ret where w:
    "py_while (\<lambda>(b1, b2, ret). ret = None \<and> (height b2 > 0 \<or> height b1 > 0)) (fork_step B) (b1, b2, None) = Inr (x1, x2, ret)"
    and inv: "fork_inv B b1 b2 (x1, x2, ret)" and stop: "ret = None \<Longrightarrow> \<not> 0 < height x2 \<and> \<not> 0 < height x1"
    by auto
  from inv have x: "in_tree B x1" "in_tree B x2" and c: "\<And>a. common_ancestor B b1 b2 a \<longleftrightarrow> common_ancestor B x1 x2 a"
    by (auto simp: fork_inv_def)
  have self: "common_ancestor B x1 x1 x1" by (simp add: common_ancestor_def ancestor.refl)
  have le: "common_ancestor B x1 x1 a \<Longrightarrow> height a \<le> height x1" for a
    using ancestor_height [OF _ assms(1) x(1)] by (auto simp: common_ancestor_def)
  show ?thesis
  proof (cases ret)
    case (Some r)
    with inv have "x1 = x2" "r = height x1" by (auto simp: fork_inv_def)
    with w Some c self le show ?thesis by (auto simp: find_fork_point_in_chain_def)
  next
    case None
    with stop have g: "\<not> 0 < height x1" "\<not> 0 < height x2" by auto
    with in_tree_height [OF assms(1)] x have "height x1 = 0" by (simp add: order_antisym)
    then show ?thesis
      using w None c self le ancestor_genesis [OF g(1)] ancestor_genesis [OF g(2)]
      by (auto simp: find_fork_point_in_chain_def common_ancestor_def)
  qed
qed

section \<open>A cache of block records\<close>

text \<open>\<^verbatim>\<open>hddcoin/util/block_cache.py\<close>, the implementation of the interface on two dictionaries.\<close>

record BlockCache =
  bc_block_records :: "(bytes, BlockRecord) dict"
  bc_height_to_hash :: "(int, bytes) dict"

definition BlockCache_interface :: "BlockCache \<Rightarrow> BlockchainInterface" where
  "BlockCache_interface bc =
     \<lparr> contains_block = (\<lambda>hh. din hh (bc_block_records bc)),
       block_record = (\<lambda>hh. dget (bc_block_records bc) hh),
       contains_height = (\<lambda>h. din h (bc_height_to_hash bc)),
       height_to_hash = (\<lambda>h.
         if \<not> din h (bc_height_to_hash bc) then Inr None
         else rbind (dget (bc_height_to_hash bc) h) (\<lambda>hh. Inr (Some hh))) \<rparr>"

definition BlockCache_add_block_record :: "BlockRecord \<Rightarrow> BlockCache \<Rightarrow> BlockCache" where
  "BlockCache_add_block_record b bc = bc\<lparr>bc_block_records := dput (header_hash b) b (bc_block_records bc)\<rparr>"

definition BlockCache_remove_block_record :: "bytes \<Rightarrow> BlockCache \<Rightarrow> BlockCache res" where
  "BlockCache_remove_block_record hh bc =
     rbind (ddel hh (bc_block_records bc)) (\<lambda>d. Inr (bc\<lparr>bc_block_records := d\<rparr>))"

text \<open>Adding a child of a known block under a fresh hash keeps the tree.\<close>

lemma block_tree_extend:
  assumes B: "block_tree B" and b: "0 \<le> height b"
    and B': "\<And>hh. block_record B' hh = (if hh = header_hash b then Inr b else block_record B hh)"
    and fresh: "\<And>c. block_record B (header_hash b) = Inr c \<Longrightarrow> c = b"
    and par: "0 < height b \<Longrightarrow> \<exists>p. block_record B (prev_hash b) = Inr p \<and> height p = height b - 1"
  shows "block_tree B'"
proof -
  have keep: "block_record B' hh = Inr c" if "block_record B hh = Inr c" for hh c
    using that fresh [of c] by (cases "hh = header_hash b") (auto simp: B')
  show ?thesis
    unfolding block_tree_def
  proof (intro allI impI)
    fix hh c assume c: "block_record B' hh = Inr c"
    show "header_hash c = hh \<and> 0 \<le> height c \<and>
        (0 < height c \<longrightarrow> (\<exists>p. block_record B' (prev_hash c) = Inr p \<and> height p = height c - 1))"
    proof (cases "hh = header_hash b")
      case True
      with c B' have "c = b" by simp
      with True b par keep show ?thesis by blast
    next
      case False
      with c B' have "block_record B hh = Inr c" by simp
      with B keep show ?thesis unfolding block_tree_def by blast
    qed
  qed
qed

lemma BlockCache_add_record:
  "block_record (BlockCache_interface (BlockCache_add_block_record b bc)) hh =
     (if hh = header_hash b then Inr b else block_record (BlockCache_interface bc) hh)"
  by (simp add: BlockCache_interface_def BlockCache_add_block_record_def dget_def)

lemma BlockCache_add_tree:
  assumes "block_tree (BlockCache_interface bc)" "0 \<le> height b"
    and "\<And>c. block_record (BlockCache_interface bc) (header_hash b) = Inr c \<Longrightarrow> c = b"
    and "0 < height b \<Longrightarrow> \<exists>p. block_record (BlockCache_interface bc) (prev_hash b) = Inr p \<and> height p = height b - 1"
  shows "block_tree (BlockCache_interface (BlockCache_add_block_record b bc))"
  using assms(1,2) BlockCache_add_record assms(3,4) by (rule block_tree_extend)

lemma BlockCache_empty_tree: "block_tree (BlockCache_interface \<lparr> bc_block_records = [], bc_height_to_hash = [] \<rparr>)"
  by (simp add: block_tree_def BlockCache_interface_def dget_def)

text \<open>A small tree for the witnesses: genesis and two children.\<close>

definition demo_record :: "bytes \<Rightarrow> bytes \<Rightarrow> int \<Rightarrow> BlockRecord" where
  "demo_record hh ph h =
     \<lparr> header_hash = hh, prev_hash = ph, height = h, weight = 10 * (h + 1), total_iters = 10000000 * (h + 1),
       signage_point_index = 0, challenge_vdf_output = \<lparr> data = [] \<rparr>, infused_challenge_vdf_output = None,
       reward_infusion_new_challenge = [], challenge_block_info_hash = [], sub_slot_iters = 134217728,
       pool_puzzle_hash = [], farmer_puzzle_hash = [], required_iters = 1, deficit = 0, overflow = False,
       prev_transaction_block_height = 0, timestamp = Some (600 * h), prev_transaction_block_hash = None,
       fees = None, reward_claims_incorporated = None, finished_challenge_slot_hashes = None,
       finished_infused_challenge_slot_hashes = None, finished_reward_slot_hashes = None,
       sub_epoch_summary_included = None \<rparr>"

lemma demo_record_simps [simp]:
  "header_hash (demo_record hh ph h) = hh" "prev_hash (demo_record hh ph h) = ph" "height (demo_record hh ph h) = h"
  "weight (demo_record hh ph h) = 10 * (h + 1)" "timestamp (demo_record hh ph h) = Some (600 * h)" "deficit (demo_record hh ph h) = 0"
  "total_iters (demo_record hh ph h) = 10000000 * (h + 1)"
  "sub_epoch_summary_included (demo_record hh ph h) = None" "sub_slot_iters (demo_record hh ph h) = 134217728"
  by (simp_all add: demo_record_def)

definition demo_cache :: BlockCache where
  "demo_cache =
     BlockCache_add_block_record (demo_record [3] [1] 1) (BlockCache_add_block_record (demo_record [2] [1] 1)
       (BlockCache_add_block_record (demo_record [1] [0] 0) \<lparr> bc_block_records = [], bc_height_to_hash = [] \<rparr>))"

lemma demo_cache_record:
  "block_record (BlockCache_interface \<lparr> bc_block_records = [], bc_height_to_hash = [] \<rparr>) hh = Inl KeyError"
  by (simp add: BlockCache_interface_def dget_def)

lemma demo_cache_tree: "block_tree (BlockCache_interface demo_cache)"
  unfolding demo_cache_def
  by (intro BlockCache_add_tree BlockCache_empty_tree) (simp_all add: BlockCache_add_record demo_cache_record)

lemma demo_cache_in:
  "in_tree (BlockCache_interface demo_cache) (demo_record [2] [1] 1)"
  "in_tree (BlockCache_interface demo_cache) (demo_record [3] [1] 1)"
  by (simp_all add: in_tree_def demo_cache_def BlockCache_add_record)

theorem fork_point_highest_common_ancestor_witness:
  "\<exists>r. find_fork_point_in_chain (BlockCache_interface demo_cache) (demo_record [2] [1] 1) (demo_record [3] [1] 1) = Inr r \<and>
    (if \<exists>a. common_ancestor (BlockCache_interface demo_cache) (demo_record [2] [1] 1) (demo_record [3] [1] 1) a
     then (\<exists>a. common_ancestor (BlockCache_interface demo_cache) (demo_record [2] [1] 1) (demo_record [3] [1] 1) a \<and> height a = r) \<and>
          (\<forall>a. common_ancestor (BlockCache_interface demo_cache) (demo_record [2] [1] 1) (demo_record [3] [1] 1) a \<longrightarrow> height a \<le> r)
     else r = - 1)"
  by (rule fork_point_highest_common_ancestor [OF demo_cache_tree demo_cache_in])

section \<open>Deficit\<close>

definition calculate_deficit :: "ConsensusConstants \<Rightarrow> int \<Rightarrow> BlockRecord option \<Rightarrow> bool \<Rightarrow> int \<Rightarrow> int res" where
  "calculate_deficit constants h prev_b ovf num_finished_sub_slots =
     (if h = 0 then uint8 (MIN_BLOCKS_PER_CHALLENGE_BLOCK constants - 1)
      else case prev_b of
        None \<Rightarrow> Inl AssertionError
      | Some pb \<Rightarrow>
          let prev_deficit = deficit pb
          in if prev_deficit = MIN_BLOCKS_PER_CHALLENGE_BLOCK constants then
               (if ovf then
                  (if num_finished_sub_slots > 0 then uint8 (prev_deficit - 1) else uint8 prev_deficit)
                else uint8 (prev_deficit - 1))
             else if prev_deficit = 0 then
               (if num_finished_sub_slots = 0 then uint8 0
                else if num_finished_sub_slots = 1 then
                  (if ovf then uint8 (MIN_BLOCKS_PER_CHALLENGE_BLOCK constants)
                   else uint8 (MIN_BLOCKS_PER_CHALLENGE_BLOCK constants - 1))
                else uint8 (MIN_BLOCKS_PER_CHALLENGE_BLOCK constants - 1))
             else uint8 (prev_deficit - 1))"

text \<open>
  C24. The deficit of a block is always defined and between 0 and \<^verbatim>\<open>MIN_BLOCKS_PER_CHALLENGE_BLOCK\<close>; the maximum is
  reached only by overflow blocks; within a challenge slot it counts down by one per block; and a deficit
  of zero is left only when a sub-slot finished.
\<close>

theorem deficit_invariant:
  assumes "constants_wf c" "h \<noteq> 0" "0 \<le> deficit p" "deficit p \<le> MIN_BLOCKS_PER_CHALLENGE_BLOCK c" "0 \<le> n"
  shows "\<exists>d. calculate_deficit c h (Some p) ov n = Inr d \<and> 0 \<le> d \<and> d \<le> MIN_BLOCKS_PER_CHALLENGE_BLOCK c \<and>
    (d = MIN_BLOCKS_PER_CHALLENGE_BLOCK c \<longrightarrow> ov) \<and>
    (0 < deficit p \<and> deficit p < MIN_BLOCKS_PER_CHALLENGE_BLOCK c \<longrightarrow> d = deficit p - 1) \<and>
    (deficit p = 0 \<and> d \<noteq> 0 \<longrightarrow> 0 < n)"
  using assms constants_wf_pos(4,5) [OF assms(1)]
  by (auto simp: calculate_deficit_def Let_def uint8_eq)

theorem deficit_invariant_witness:
  "\<exists>d. calculate_deficit DEFAULT_CONSTANTS 5 (Some (demo_record [2] [1] 4)) True 1 = Inr d \<and> 0 \<le> d \<and>
    d \<le> MIN_BLOCKS_PER_CHALLENGE_BLOCK DEFAULT_CONSTANTS \<and>
    (d = MIN_BLOCKS_PER_CHALLENGE_BLOCK DEFAULT_CONSTANTS \<longrightarrow> True) \<and>
    (0 < deficit (demo_record [2] [1] 4) \<and> deficit (demo_record [2] [1] 4) < MIN_BLOCKS_PER_CHALLENGE_BLOCK DEFAULT_CONSTANTS \<longrightarrow>
       d = deficit (demo_record [2] [1] 4) - 1) \<and>
    (deficit (demo_record [2] [1] 4) = 0 \<and> d \<noteq> 0 \<longrightarrow> 0 < (1 :: int))"
  by (rule deficit_invariant [OF default_constants_wf]) (simp_all add: DEFAULT_CONSTANTS_def)

section \<open>The challenge of a block\<close>

text \<open>A header block enters through the fields the code reads: \<^verbatim>\<open>finished_sub_slots\<close>, \<^verbatim>\<open>prev_header_hash\<close> and \<^verbatim>\<open>total_iters\<close>.\<close>

definition final_eos_is_already_included ::
  "BlockchainInterface \<Rightarrow> EndOfSubSlotBundle list \<Rightarrow> bytes \<Rightarrow> int \<Rightarrow> int \<Rightarrow> bool res" where
  "final_eos_is_already_included blocks fss prev_hh hb_total_iters ssi =
     (if length fss > 0 then Inr False
      else rbind (block_record blocks prev_hh) (\<lambda>b0.
        let close = (\<lambda>curr. overflow curr \<and> hb_total_iters - total_iters curr < ssi div 2)
        in rbind (py_while (\<lambda>(curr, seen). \<not> first_in_sub_slot curr \<and> \<not> height curr = 0)
                    (\<lambda>(curr, seen). rbind (block_record blocks (prev_hash curr)) (\<lambda>b. Inr (b, seen \<or> close curr)))
                    (b0, close b0))
             (\<lambda>(curr, seen_overflow_block). Inr (first_in_sub_slot curr \<and> seen_overflow_block))))"

definition get_block_challenge ::
  "crypto \<Rightarrow> ConsensusConstants \<Rightarrow> EndOfSubSlotBundle list \<Rightarrow> bytes \<Rightarrow> BlockchainInterface \<Rightarrow> bool \<Rightarrow> bool \<Rightarrow> bool \<Rightarrow> bytes res" where
  "get_block_challenge E constants fss prev_hh blocks genesis_block ovf skip_overflow_last_ss_validation =
     (if length fss > 0 then
        (if ovf then
           (if skip_overflow_last_ss_validation
            then get_hash E ChallengeChainSubSlot_fields (ChallengeChainSubSlot_items (challenge_chain (last fss)))
            else Inr (challenge (challenge_chain_end_of_slot_vdf (challenge_chain (last fss)))))
         else get_hash E ChallengeChainSubSlot_fields (ChallengeChainSubSlot_items (challenge_chain (last fss))))
      else if genesis_block then Inr (GENESIS_CHALLENGE constants)
      else
        let challenges_to_look_for = (if ovf then (if skip_overflow_last_ss_validation then 1 else 2) else 1)
        in rbind (block_record blocks prev_hh) (\<lambda>b0.
           rbind (py_while (\<lambda>(curr, rev_hashes, stop). \<not> stop \<and> length rev_hashes < challenges_to_look_for)
             (\<lambda>(curr, rev_hashes, stop).
                let rev_hashes' = (case finished_challenge_slot_hashes curr of None \<Rightarrow> rev_hashes | Some hs \<Rightarrow> rev_hashes @ rev hs)
                in if height curr = 0 then
                     (case finished_challenge_slot_hashes curr of
                        None \<Rightarrow> Inl AssertionError
                      | Some hs \<Rightarrow> rassert (length hs > 0) (Inr (curr, rev_hashes', True)))
                   else rbind (block_record blocks (prev_hash curr)) (\<lambda>b. Inr (b, rev_hashes', False)))
             (b0, [], False))
           (\<lambda>(curr, reversed_challenge_hashes, stop).
              if challenges_to_look_for - 1 < length reversed_challenge_hashes
              then Inr (reversed_challenge_hashes ! (challenges_to_look_for - 1))
              else Inl IndexError)))"

text \<open>Walking back in a tree ends: every loop that replaces the current block by its parent terminates.\<close>

lemma walk_back_terminates:
  fixes c :: "BlockRecord \<times> 's \<Rightarrow> (BlockRecord \<times> 's) res"
  assumes "block_tree B" "in_tree B b"
    and "\<And>x s. in_tree B x \<Longrightarrow> g (x, s) \<Longrightarrow> 0 < height x"
    and "\<And>x s p. in_tree B x \<Longrightarrow> g (x, s) \<Longrightarrow> block_record B (prev_hash x) = Inr p \<Longrightarrow> \<exists>s'. c (x, s) = Inr (p, s')"
  shows "\<exists>x s'. py_while g c (b, s) = Inr (x, s') \<and> in_tree B x \<and> ancestor B b x \<and> \<not> g (x, s')"
proof -
  have "\<exists>t. py_while g c (b, s) = Inr t \<and> (in_tree B (fst t) \<and> ancestor B b (fst t)) \<and> \<not> g t"
  proof (rule py_while_total [where P = "\<lambda>t. in_tree B (fst t) \<and> ancestor B b (fst t)" and m = "\<lambda>t. nat (height (fst t))"])
    show "in_tree B (fst (b, s)) \<and> ancestor B b (fst (b, s))" using assms(2) by (simp add: ancestor.refl)
  next
    fix t assume t: "in_tree B (fst t) \<and> ancestor B b (fst t)" "g t"
    obtain x s1 where x: "t = (x, s1)" by (cases t)
    have pos: "0 < height x" using assms(3) t by (simp add: x)
    then obtain p where p: "block_record B (prev_hash x) = Inr p" "height p = height x - 1" "in_tree B p"
      using in_tree_parent [OF assms(1)] t by (auto simp: x)
    obtain s2 where "c t = Inr (p, s2)" using assms(4) [of x s1 p] t p by (auto simp: x)
    moreover have "ancestor B b p"
      using t ancestor_trans [of B b x p] ancestor.step [OF pos p(1) ancestor.refl] by (simp add: x)
    ultimately show "\<exists>t'. c t = Inr t' \<and> (in_tree B (fst t') \<and> ancestor B b (fst t')) \<and> nat (height (fst t')) < nat (height (fst t))"
      using p pos by (auto simp: x)
  qed
  then show ?thesis by (metis prod.collapse)
qed

text \<open>Walks that may raise: in a tree whose genesis blocks have no parent they end, with a value or an exception.\<close>

definition grounded :: "BlockchainInterface \<Rightarrow> bool" where
  "grounded B \<longleftrightarrow>
     (\<forall>hh b p. block_record B hh = Inr b \<and> height b = 0 \<longrightarrow> block_record B (prev_hash b) \<noteq> Inr p) \<and>
     (\<forall>hh. halts (block_record B hh)) \<and> (\<forall>h. halts (height_to_hash B h))"

lemma grounded_parent:
  assumes "block_tree B" "grounded B" "in_tree B x" "block_record B (prev_hash x) = Inr p"
  shows "in_tree B p" "height p = height x - 1" "0 < height x"
proof -
  have "height x \<noteq> 0" using assms(2-4) unfolding grounded_def in_tree_def by blast
  with in_tree_height [OF assms(1,3)] show "0 < height x" by simp
  from in_tree_parent [OF assms(1,3) this] assms(4) show "in_tree B p" "height p = height x - 1" by auto
qed

lemma walk_back_halts:
  fixes c :: "BlockRecord \<times> 's \<Rightarrow> (BlockRecord \<times> 's) res"
  assumes "block_tree B" "grounded B" "in_tree B b"
    and "\<And>x s. in_tree B x \<Longrightarrow> g (x, s) \<Longrightarrow> halts (c (x, s))"
    and "\<And>x s y s'. in_tree B x \<Longrightarrow> g (x, s) \<Longrightarrow> c (x, s) = Inr (y, s') \<Longrightarrow>
           block_record B (prev_hash x) = Inr y \<or> y = x \<and> \<not> g (x, s')"
  shows "halts (py_while g c (b, s))"
  unfolding halts_def
proof (rule py_while_not_diverges [where P = "\<lambda>(x, s). in_tree B x" and m = "\<lambda>(x, s). 2 * nat (height x) + (if g (x, s) then 1 else 0)"])
  show "case (b, s) of (x, s) \<Rightarrow> in_tree B x" using assms(3) by simp
next
  fix t u assume "case t of (x, s) \<Rightarrow> in_tree B x" "g t" "c t = Inr u"
  moreover obtain x s y s' where "t = (x, s)" "u = (y, s')" by (cases t, cases u)
  ultimately show "(case u of (x, s) \<Rightarrow> in_tree B x) \<and>
      (case u of (x, s) \<Rightarrow> 2 * nat (height x) + (if g (x, s) then 1 else 0)) <
      (case t of (x, s) \<Rightarrow> 2 * nat (height x) + (if g (x, s) then 1 else 0))"
    using assms(5) [of x s y s'] grounded_parent [OF assms(1,2), of x y] by auto
next
  fix t assume "case t of (x, s) \<Rightarrow> in_tree B x" "g t"
  then show "c t \<noteq> Inl Diverges" using assms(4) by (cases t) (auto simp: halts_def)
qed

lemma final_eos_total:
  assumes "block_tree B" "block_record B prev_hh = Inr b"
  shows "\<exists>r. final_eos_is_already_included B fss prev_hh ti ssi = Inr r"
proof -
  have b: "in_tree B b" using assms by (auto simp: block_tree_def in_tree_def)
  let ?close = "\<lambda>curr. overflow curr \<and> ti - total_iters curr < ssi div 2"
  have "\<exists>x s'. py_while (\<lambda>(curr, seen). \<not> first_in_sub_slot curr \<and> \<not> height curr = 0)
      (\<lambda>(curr, seen). rbind (block_record B (prev_hash curr)) (\<lambda>b. Inr (b, seen \<or> ?close curr))) (b, ?close b) = Inr (x, s') \<and>
      in_tree B x \<and> ancestor B b x \<and> \<not> (\<lambda>(curr, seen). \<not> first_in_sub_slot curr \<and> \<not> height curr = 0) (x, s')"
    by (rule walk_back_terminates [OF assms(1) b]) (use in_tree_height [OF assms(1)] in \<open>fastforce simp: order_less_le\<close>)+
  then show ?thesis using assms(2) by (auto simp: final_eos_is_already_included_def Let_def)
qed

end
