(* ===== verification/Difficulty.thy ===== *)
theory Difficulty
  imports BlockRecords
begin

text \<open>
  \<^verbatim>\<open>hddcoin/consensus/difficulty_adjustment.py\<close> and \<^verbatim>\<open>make_sub_epoch_summary.py\<close>: the sub-slot iterations and the
  difficulty of the next block, and the summary at the end of a sub-epoch. Shown: the arithmetic of the
  adjustment (bounds, divisibility, significant bits; the assertion on them never fails), that every block keeps valid
  sub-slot iterations, that an epoch ends only with a sub-epoch, and that no search loop diverges.
\<close>

section \<open>Searching the chain\<close>

text \<open>The walk back: collected blocks, newest first, and whether the genesis block was passed.\<close>

definition get_blocks_at_height :: "BlockchainInterface \<Rightarrow> BlockRecord \<Rightarrow> int \<Rightarrow> int \<Rightarrow> BlockRecord list res" where
  "get_blocks_at_height blocks prev_b target_height max_num_blocks =
     (let slow =
        rbind (py_while (\<lambda>(curr_b, target_blocks, stop). \<not> stop \<and> height curr_b \<ge> target_height)
          (\<lambda>(curr_b, target_blocks, stop).
             let target_blocks' = (if height curr_b < target_height + max_num_blocks then target_blocks @ [curr_b] else target_blocks)
             in if height curr_b = 0 then Inr (curr_b, target_blocks', True)
                else rbind (block_record blocks (prev_hash curr_b)) (\<lambda>b. Inr (b, target_blocks', False)))
          (prev_b, [], False))
        (\<lambda>(curr_b, target_blocks, stop). Inr (rev target_blocks))
      in if contains_height blocks (height prev_b) then
           rbind (height_to_hash blocks (height prev_b)) (\<lambda>hh.
             if hh = Some (header_hash prev_b) then
               rmap (\<lambda>h. rbind (uint32 h) (\<lambda>h. rassert (contains_height blocks h) (height_to_block_record blocks h)))
                 [target_height..target_height + max_num_blocks - 1]
             else slow)
         else slow)"

text \<open>The two loops of \<^verbatim>\<open>_get_second_to_last_transaction_block_in_previous_epoch\<close>.\<close>

definition skip_to_summary :: "BlockRecord list \<Rightarrow> BlockRecord \<times> BlockRecord \<times> int \<Rightarrow> (BlockRecord \<times> BlockRecord \<times> int) res" where
  "skip_to_summary fetched_blocks =
     py_while (\<lambda>(curr_b, next_b, fetched_index). sub_epoch_summary_included next_b = None)
       (\<lambda>(curr_b, next_b, fetched_index).
          rbind (py_index fetched_blocks fetched_index) (\<lambda>b. Inr (next_b, b, fetched_index + 1)))"

definition backtrack_tx_blocks :: "BlockchainInterface \<Rightarrow> BlockRecord \<times> int \<Rightarrow> (BlockRecord \<times> int) res" where
  "backtrack_tx_blocks blocks =
     py_while (\<lambda>(curr_b, found_tx_block). found_tx_block < 2)
       (\<lambda>(curr_b, found_tx_block).
          rbind (block_record blocks (prev_hash curr_b)) (\<lambda>b.
            Inr (b, if is_transaction_block b then found_tx_block + 1 else found_tx_block)))"

definition get_second_to_last_transaction_block_in_previous_epoch ::
  "ConsensusConstants \<Rightarrow> BlockchainInterface \<Rightarrow> BlockRecord \<Rightarrow> BlockRecord res" where
  "get_second_to_last_transaction_block_in_previous_epoch constants blocks last_b =
     (let height_in_next_epoch = height last_b + 2 * MAX_SUB_SLOT_BLOCKS constants + MIN_BLOCKS_PER_CHALLENGE_BLOCK constants + 5
      in rbind (py_mod height_in_next_epoch (EPOCH_BLOCKS constants)) (\<lambda>r.
         rbind (uint32 (height_in_next_epoch - r)) (\<lambda>height_epoch_surpass.
         rbind (uint32 (height_epoch_surpass - EPOCH_BLOCKS constants)) (\<lambda>height_prev_epoch_surpass.
         rbind (py_mod height_prev_epoch_surpass (EPOCH_BLOCKS constants)) (\<lambda>r'.
         rassert (r' = 0) (
         rassert (height_in_next_epoch - height_epoch_surpass < 5 * MAX_SUB_SLOT_BLOCKS constants) (
         if height_prev_epoch_surpass = 0 then
           rbind (get_blocks_at_height blocks last_b 0 1) (\<lambda>l. py_index l 0)
         else
           rbind (uint32 (height_prev_epoch_surpass - MAX_SUB_SLOT_BLOCKS constants - 1)) (\<lambda>start.
           rbind (uint32 (3 * MAX_SUB_SLOT_BLOCKS constants + MIN_BLOCKS_PER_CHALLENGE_BLOCK constants + 3)) (\<lambda>num.
           rbind (get_blocks_at_height blocks last_b start num) (\<lambda>fetched_blocks.
           let fetched_index = MAX_SUB_SLOT_BLOCKS constants
           in rbind (py_index fetched_blocks fetched_index) (\<lambda>curr_b.
              let fetched_index = fetched_index + 1
              in rassert (height curr_b = height_prev_epoch_surpass - 1) (
                 rbind (py_index fetched_blocks fetched_index) (\<lambda>next_b.
                 rassert (height next_b = height_prev_epoch_surpass) (
                 rbind (skip_to_summary fetched_blocks (curr_b, next_b, fetched_index)) (\<lambda>(curr_b, next_b, fetched_index).
                 rbind (backtrack_tx_blocks blocks (curr_b, if is_transaction_block curr_b then 1 else 0)) (\<lambda>(curr_b, found_tx_block).
                   Inr curr_b))))))))))))))))"

definition height_can_be_first_in_epoch :: "ConsensusConstants \<Rightarrow> int \<Rightarrow> bool res" where
  "height_can_be_first_in_epoch constants h =
     rbind (py_mod h (SUB_EPOCH_BLOCKS constants)) (\<lambda>r.
     rbind (py_mod (h - r) (EPOCH_BLOCKS constants)) (\<lambda>q. Inr (q = 0)))"

text \<open>
  The scan of \<^verbatim>\<open>can_finish_sub_and_full_epoch\<close> back to the sub-epoch boundary; the flag records that a summary was
  found, which returns \<^verbatim>\<open>False, False\<close>. Only used with a positive \<^verbatim>\<open>SUB_EPOCH_BLOCKS\<close>.
\<close>

definition scan_sub_epoch :: "ConsensusConstants \<Rightarrow> BlockchainInterface \<Rightarrow> BlockRecord \<Rightarrow> bool res" where
  "scan_sub_epoch constants blocks b0 =
     rbind (py_while (\<lambda>(curr, found). \<not> found \<and> height curr mod SUB_EPOCH_BLOCKS constants > 0)
       (\<lambda>(curr, found).
          if sub_epoch_summary_included curr \<noteq> None then Inr (curr, True)
          else rbind (block_record blocks (prev_hash curr)) (\<lambda>b. Inr (b, False)))
       (b0, False))
     (\<lambda>(curr, found). Inr (found \<or> sub_epoch_summary_included curr \<noteq> None))"

definition can_finish_sub_and_full_epoch ::
  "ConsensusConstants \<Rightarrow> BlockchainInterface \<Rightarrow> int \<Rightarrow> bytes option \<Rightarrow> int \<Rightarrow> bool \<Rightarrow> (bool \<times> bool) res" where
  "can_finish_sub_and_full_epoch constants blocks h prev_hh dfc block_at_height_included_ses =
     (if h < SUB_EPOCH_BLOCKS constants - 1 then Inr (False, False)
      else case prev_hh of
        None \<Rightarrow> Inl AssertionError
      | Some ph \<Rightarrow>
          if dfc > 0 then Inr (False, False)
          else if block_at_height_included_ses then Inr (False, False)
          else
            rbind (py_mod (h + 1) (SUB_EPOCH_BLOCKS constants)) (\<lambda>r.
            rbind (if r > 1 then rbind (block_record blocks ph) (scan_sub_epoch constants blocks) else Inr False) (\<lambda>found.
              if found then Inr (False, False)
              else rbind (uint32 (h + 1)) (\<lambda>h1. rbind (height_can_be_first_in_epoch constants h1) (\<lambda>e. Inr (True, e))))))"

section \<open>Adjustments\<close>

text \<open>The last transaction block before the signage point.\<close>

definition last_tx_block_before :: "BlockchainInterface \<Rightarrow> int \<Rightarrow> BlockRecord \<Rightarrow> BlockRecord res" where
  "last_tx_block_before blocks sp_iters_total prev_b =
     rbind (py_while (\<lambda>(b, u). total_iters b > sp_iters_total \<or> \<not> is_transaction_block b)
              (\<lambda>(b, u). rbind (block_record blocks (prev_hash b)) (\<lambda>p. Inr (p, u))) (prev_b, ()))
       (\<lambda>(b, u). Inr b)"

text \<open>Lines 248 to 268: the new sub-slot iterations from the two measured blocks.\<close>

definition adjust_sub_slot_iters :: "ConsensusConstants \<Rightarrow> BlockRecord \<Rightarrow> BlockRecord \<Rightarrow> int res" where
  "adjust_sub_slot_iters constants last_block_curr last_block_prev =
     (case (timestamp last_block_curr, timestamp last_block_prev) of
        (Some tc, Some tp) \<Rightarrow>
          rbind (py_floordiv (SUB_SLOT_TIME_TARGET constants * (total_iters last_block_curr - total_iters last_block_prev)) (tc - tp)) (\<lambda>q.
          rbind (uint64 q) (\<lambda>new_ssi_precise.
          rbind (uint64 (DIFFICULTY_CHANGE_MAX_FACTOR constants * sub_slot_iters last_block_curr)) (\<lambda>max_ssi.
          rbind (py_floordiv (sub_slot_iters last_block_curr) (DIFFICULTY_CHANGE_MAX_FACTOR constants)) (\<lambda>q'.
          rbind (uint64 q') (\<lambda>min_ssi.
          rbind (if new_ssi_precise \<ge> sub_slot_iters last_block_curr
                 then uint64 (min new_ssi_precise max_ssi)
                 else uint64 (max (max (NUM_SPS_SUB_SLOT constants) new_ssi_precise) min_ssi)) (\<lambda>new_ssi_precise.
          let new_ssi = truncate_to_significant_bits new_ssi_precise (SIGNIFICANT_BITS constants)
          in rbind (py_mod new_ssi (NUM_SPS_SUB_SLOT constants)) (\<lambda>r.
             rbind (uint64 (new_ssi - r)) (\<lambda>new_ssi.
             rassert (count_significant_bits new_ssi \<le> SIGNIFICANT_BITS constants) (Inr new_ssi)))))))))
      | _ \<Rightarrow> Inl AssertionError)"

definition get_next_sub_slot_iters ::
  "ConsensusConstants \<Rightarrow> BlockchainInterface \<Rightarrow> bytes \<Rightarrow> int \<Rightarrow> int \<Rightarrow> int \<Rightarrow> bool \<Rightarrow> bool \<Rightarrow> int \<Rightarrow> bool \<Rightarrow> int res" where
  "get_next_sub_slot_iters constants blocks prev_hh h curr_sub_slot_iters dfc block_at_height_included_ses new_slot
      signage_point_total_iters skip_epoch_check =
     rbind (uint32 (h + 1)) (\<lambda>next_height.
       if next_height < EPOCH_BLOCKS constants then uint64 (SUB_SLOT_ITERS_STARTING constants)
       else if \<not> contains_block blocks prev_hh then Inl ValueError
       else rbind (block_record blocks prev_hh) (\<lambda>prev_b.
         rbind (if \<not> skip_epoch_check
                then rbind (can_finish_sub_and_full_epoch constants blocks h (Some prev_hh) dfc block_at_height_included_ses)
                       (\<lambda>(_, can_finish_epoch). Inr (\<not> new_slot \<or> \<not> can_finish_epoch))
                else Inr False) (\<lambda>same.
           if same then Inr curr_sub_slot_iters
           else
             rbind (get_second_to_last_transaction_block_in_previous_epoch constants blocks prev_b) (\<lambda>last_block_prev.
             rbind (last_tx_block_before blocks signage_point_total_iters prev_b) (\<lambda>last_block_curr.
               adjust_sub_slot_iters constants last_block_curr last_block_prev)))))"

text \<open>Lines 329 to 352: the new difficulty.\<close>

definition adjust_difficulty :: "ConsensusConstants \<Rightarrow> BlockchainInterface \<Rightarrow> BlockRecord \<Rightarrow> BlockRecord \<Rightarrow> BlockRecord \<Rightarrow> int res" where
  "adjust_difficulty constants blocks prev_b last_block_curr last_block_prev =
     (case (timestamp last_block_curr, timestamp last_block_prev) of
        (Some tc, Some tp) \<Rightarrow>
          rbind (uint64 (tc - tp)) (\<lambda>actual_epoch_time.
          rbind (block_record blocks (prev_hash prev_b)) (\<lambda>pp.
          rbind (uint64 (weight prev_b - weight pp)) (\<lambda>old_difficulty.
          rbind (py_floordiv ((weight last_block_curr - weight last_block_prev) * SUB_SLOT_TIME_TARGET constants)
                   (SLOT_BLOCKS_TARGET constants * actual_epoch_time)) (\<lambda>q.
          rbind (uint64 q) (\<lambda>new_difficulty_precise.
          rbind (uint64 (DIFFICULTY_CHANGE_MAX_FACTOR constants * old_difficulty)) (\<lambda>max_diff.
          rbind (py_floordiv old_difficulty (DIFFICULTY_CHANGE_MAX_FACTOR constants)) (\<lambda>q'.
          rbind (uint64 q') (\<lambda>min_diff.
          rbind (if new_difficulty_precise \<ge> old_difficulty
                 then uint64 (min new_difficulty_precise max_diff)
                 else rbind (uint64 1) (\<lambda>one. uint64 (max (max one new_difficulty_precise) min_diff))) (\<lambda>new_difficulty_precise.
          let nd = truncate_to_significant_bits new_difficulty_precise (SIGNIFICANT_BITS constants)
          in rassert (count_significant_bits nd \<le> SIGNIFICANT_BITS constants) (uint64 nd))))))))))
      | _ \<Rightarrow> Inl AssertionError)"

definition get_next_difficulty ::
  "ConsensusConstants \<Rightarrow> BlockchainInterface \<Rightarrow> bytes \<Rightarrow> int \<Rightarrow> int \<Rightarrow> int \<Rightarrow> bool \<Rightarrow> bool \<Rightarrow> int \<Rightarrow> bool \<Rightarrow> int res" where
  "get_next_difficulty constants blocks prev_hh h current_difficulty dfc block_at_height_included_ses new_slot
      signage_point_total_iters skip_epoch_check =
     rbind (uint32 (h + 1)) (\<lambda>next_height.
       if next_height < EPOCH_BLOCKS constants - 3 * MAX_SUB_SLOT_BLOCKS constants then uint64 (DIFFICULTY_STARTING constants)
       else if \<not> contains_block blocks prev_hh then Inl ValueError
       else rbind (block_record blocks prev_hh) (\<lambda>prev_b.
         rbind (if \<not> skip_epoch_check
                then rbind (can_finish_sub_and_full_epoch constants blocks h (Some prev_hh) dfc block_at_height_included_ses)
                       (\<lambda>(_, can_finish_epoch). Inr (\<not> new_slot \<or> \<not> can_finish_epoch))
                else Inr False) (\<lambda>same.
           if same then Inr current_difficulty
           else
             rbind (get_second_to_last_transaction_block_in_previous_epoch constants blocks prev_b) (\<lambda>last_block_prev.
             rbind (last_tx_block_before blocks signage_point_total_iters prev_b) (\<lambda>last_block_curr.
               adjust_difficulty constants blocks prev_b last_block_curr last_block_prev)))))"

definition get_next_sub_slot_iters_and_difficulty ::
  "ConsensusConstants \<Rightarrow> bool \<Rightarrow> BlockRecord option \<Rightarrow> BlockchainInterface \<Rightarrow> (int \<times> int) res" where
  "get_next_sub_slot_iters_and_difficulty constants is_first_in_sub_slot prev_b blocks =
     (case prev_b of
        None \<Rightarrow> Inr (SUB_SLOT_ITERS_STARTING constants, DIFFICULTY_STARTING constants)
      | Some pb \<Rightarrow>
          rbind (if height pb \<noteq> 0
                 then rbind (block_record blocks (prev_hash pb)) (\<lambda>pp. uint64 (weight pb - weight pp))
                 else uint64 (weight pb)) (\<lambda>prev_difficulty.
            if sub_epoch_summary_included pb \<noteq> None then Inr (sub_slot_iters pb, prev_difficulty)
            else
              rbind (sp_total_iters constants pb) (\<lambda>sp_total.
              rbind (get_next_difficulty constants blocks (prev_hash pb) (height pb) prev_difficulty (deficit pb) False
                       is_first_in_sub_slot sp_total False) (\<lambda>diff.
              rbind (get_next_sub_slot_iters constants blocks (prev_hash pb) (height pb) (sub_slot_iters pb) (deficit pb) False
                       is_first_in_sub_slot sp_total False) (\<lambda>ssi. Inr (ssi, diff))))))"

section \<open>Arithmetic of the adjustment\<close>

text \<open>Sub-slot iterations that proof of time can work with.\<close>

definition ssi_ok :: "ConsensusConstants \<Rightarrow> int \<Rightarrow> bool" where
  "ssi_ok c ssi \<longleftrightarrow> NUM_SPS_SUB_SLOT c dvd ssi \<and> NUM_SPS_SUB_SLOT c \<le> ssi \<and> ssi < 2 ^ 64"

lemma num_sps_power:
  assumes "constants_wf c"
  obtains k where "NUM_SPS_SUB_SLOT c = 2 ^ k"
  using assms by (auto simp: constants_wf_def)

text \<open>Truncating to significant bits and then to a multiple of \<open>2 ^ k\<close>.\<close>

lemma truncate_round_down:
  assumes "2 ^ k \<le> p" "0 < n"
  shows "2 ^ k \<le> truncate_to_significant_bits p n - truncate_to_significant_bits p n mod 2 ^ k"
    and "truncate_to_significant_bits p n - truncate_to_significant_bits p n mod 2 ^ k \<le> p"
    and "p < truncate_to_significant_bits p n - truncate_to_significant_bits p n mod 2 ^ k + 2 ^ (bit_length p - nat n) + 2 ^ k"
    and "count_significant_bits (truncate_to_significant_bits p n - truncate_to_significant_bits p n mod 2 ^ k) \<le> n"
proof -
  let ?t = "truncate_to_significant_bits p n"
  have p: "0 < p" using assms(1) by (rule less_le_trans [rotated]) simp
  note tb = truncate_bounds [of p n]
  have t: "0 \<le> ?t" "?t \<le> p" "p - ?t < 2 ^ (bit_length p - nat n)" using tb p assms(2) by auto
  have m: "0 \<le> ?t mod 2 ^ k" "?t mod 2 ^ k < 2 ^ k" by simp_all
  have ge: "2 ^ k \<le> ?t"
  proof (cases "n > int (bit_length p)")
    case True
    then show ?thesis using truncate_large assms(1) by simp
  next
    case False
    then have "int (bit_length p - nat n) \<le> int (bit_length p) - 1" using assms(2) by simp
    then have l: "bit_length p - nat n \<le> bit_length p - 1" by simp
    have b: "bit_length p \<noteq> 0" using bit_length_bound [of p] p by (cases "bit_length p") auto
    have kb: "k \<le> bit_length p - 1"
    proof (rule ccontr)
      assume "\<not> k \<le> bit_length p - 1"
      then have "(2 :: int) ^ bit_length p \<le> 2 ^ k" using b by (intro power_increasing) auto
      with bit_length_bound [of p] p assms(1) show False by simp
    qed
    have "2 ^ (bit_length p - nat n) dvd (2 ^ (bit_length p - 1) :: int)" using l by (simp add: le_imp_power_dvd)
    then have "2 ^ (bit_length p - 1) \<le> p - p mod 2 ^ (bit_length p - nat n)"
    proof -
      assume d: "2 ^ (bit_length p - nat n) dvd (2 ^ (bit_length p - 1) :: int)"
      have "(2 ^ (bit_length p - 1) :: int) = 2 ^ (bit_length p - 1) div 2 ^ (bit_length p - nat n) * 2 ^ (bit_length p - nat n)"
        using d by simp
      also have "\<dots> \<le> p div 2 ^ (bit_length p - nat n) * 2 ^ (bit_length p - nat n)"
        using bit_length_lower [OF p] by (intro mult_right_mono zdiv_mono1) auto
      finally show ?thesis by (simp add: minus_mod_eq_div_mult)
    qed
    moreover have "?t = p - p mod 2 ^ (bit_length p - nat n)"
      using truncate_nonneg [of p n] p assms(2) False by simp
    moreover have "(2 :: int) ^ k \<le> 2 ^ (bit_length p - 1)" using kb by (intro power_increasing) auto
    ultimately show ?thesis by linarith
  qed
  show "2 ^ k \<le> ?t - ?t mod 2 ^ k"
  proof -
    have "1 \<le> ?t div 2 ^ k" using ge t by (simp add: pos_imp_zdiv_pos_iff int_one_le_iff_zero_less)
    then have "1 * 2 ^ k \<le> ?t div 2 ^ k * 2 ^ k" by (intro mult_right_mono) auto
    then show ?thesis by (simp add: minus_mod_eq_div_mult)
  qed
  show "?t - ?t mod 2 ^ k \<le> p" using t m by linarith
  show "p < ?t - ?t mod 2 ^ k + 2 ^ (bit_length p - nat n) + 2 ^ k" using t m by linarith
  show "count_significant_bits (?t - ?t mod 2 ^ k) \<le> n"
    using count_round_down [OF t(1), of k] count_truncate [of p n] p assms(2) by linarith
qed

lemma rbind_simple [simp]: "rbind m Inr = m"
  by (cases m) simp_all

text \<open>The value before rounding: kept within the maximum factor of the old one.\<close>

definition clamp_ssi :: "ConsensusConstants \<Rightarrow> int \<Rightarrow> int \<Rightarrow> int" where
  "clamp_ssi c s q =
     (if q \<ge> s then min q (DIFFICULTY_CHANGE_MAX_FACTOR c * s)
      else max (max (NUM_SPS_SUB_SLOT c) q) (s div DIFFICULTY_CHANGE_MAX_FACTOR c))"

definition round_ssi :: "ConsensusConstants \<Rightarrow> int \<Rightarrow> int" where
  "round_ssi c p =
     truncate_to_significant_bits p (SIGNIFICANT_BITS c) -
     truncate_to_significant_bits p (SIGNIFICANT_BITS c) mod NUM_SPS_SUB_SLOT c"

lemma div_le_self: "0 \<le> s \<Longrightarrow> 0 < F \<Longrightarrow> s div F \<le> (s :: int)"
  using zdiv_mono2 [of s 1 F] by simp

lemma clamp_ssi_bounds:
  assumes "constants_wf c" "NUM_SPS_SUB_SLOT c \<le> s"
  shows "NUM_SPS_SUB_SLOT c \<le> clamp_ssi c s q" "clamp_ssi c s q \<le> DIFFICULTY_CHANGE_MAX_FACTOR c * s"
    "s div DIFFICULTY_CHANGE_MAX_FACTOR c \<le> clamp_ssi c s q"
proof -
  note wf = constants_wf_pos [OF assms(1)]
  have s: "0 < s" using assms(2) wf(1) by linarith
  have "s div DIFFICULTY_CHANGE_MAX_FACTOR c \<le> s" using div_le_self s wf(10) by simp
  moreover have "s \<le> DIFFICULTY_CHANGE_MAX_FACTOR c * s" using wf(10) s by (simp add: mult_le_cancel_right1)
  ultimately show "NUM_SPS_SUB_SLOT c \<le> clamp_ssi c s q" "clamp_ssi c s q \<le> DIFFICULTY_CHANGE_MAX_FACTOR c * s"
    "s div DIFFICULTY_CHANGE_MAX_FACTOR c \<le> clamp_ssi c s q"
    using assms(2) by (auto simp: clamp_ssi_def)
qed

lemma round_ssi_bounds:
  assumes "constants_wf c" "NUM_SPS_SUB_SLOT c \<le> p"
  shows "NUM_SPS_SUB_SLOT c \<le> round_ssi c p" "round_ssi c p \<le> p"
    "p < round_ssi c p + 2 ^ (bit_length p - nat (SIGNIFICANT_BITS c)) + NUM_SPS_SUB_SLOT c"
    "count_significant_bits (round_ssi c p) \<le> SIGNIFICANT_BITS c" "NUM_SPS_SUB_SLOT c dvd round_ssi c p"
proof -
  obtain k where k: "NUM_SPS_SUB_SLOT c = 2 ^ k" using num_sps_power [OF assms(1)] .
  show "NUM_SPS_SUB_SLOT c \<le> round_ssi c p" "round_ssi c p \<le> p"
    "p < round_ssi c p + 2 ^ (bit_length p - nat (SIGNIFICANT_BITS c)) + NUM_SPS_SUB_SLOT c"
    "count_significant_bits (round_ssi c p) \<le> SIGNIFICANT_BITS c"
    using truncate_round_down [of k p "SIGNIFICANT_BITS c"] assms(2) constants_wf_pos(9) [OF assms(1)]
    unfolding round_ssi_def k by blast+
  show "NUM_SPS_SUB_SLOT c dvd round_ssi c p" by (simp add: round_ssi_def dvd_minus_mod)
qed

lemma adjust_sub_slot_iters_eq:
  assumes "constants_wf c" "ssi_ok c (sub_slot_iters lc)" "timestamp lc = Some tc" "timestamp lp = Some tp"
  defines "q \<equiv> SUB_SLOT_TIME_TARGET c * (total_iters lc - total_iters lp) div (tc - tp)"
  shows "adjust_sub_slot_iters c lc lp =
      (if tc = tp then Inl ZeroDivisionError
       else if 0 \<le> q \<and> q < 2 ^ 64 \<and> DIFFICULTY_CHANGE_MAX_FACTOR c * sub_slot_iters lc < 2 ^ 64
       then Inr (round_ssi c (clamp_ssi c (sub_slot_iters lc) q)) else Inl ValueError)"
proof (cases "tc \<noteq> tp \<and> 0 \<le> q \<and> q < 2 ^ 64 \<and> DIFFICULTY_CHANGE_MAX_FACTOR c * sub_slot_iters lc < 2 ^ 64")
  case True
  let ?N = "NUM_SPS_SUB_SLOT c" and ?F = "DIFFICULTY_CHANGE_MAX_FACTOR c" and ?s = "sub_slot_iters lc"
  note wf = constants_wf_pos [OF assms(1)]
  have s: "?N \<le> ?s" using assms(2) by (simp add: ssi_ok_def)
  note cl = clamp_ssi_bounds [OF assms(1) s, of q]
  note rd = round_ssi_bounds [OF assms(1) cl(1)]
  have d: "0 \<le> ?s div ?F" using s wf by (simp add: pos_imp_zdiv_nonneg_iff)
  have u: "uint64 q = Inr q" "uint64 (?F * ?s) = Inr (?F * ?s)" "uint64 (?s div ?F) = Inr (?s div ?F)"
    "uint64 (clamp_ssi c ?s q) = Inr (clamp_ssi c ?s q)"
    "uint64 (round_ssi c (clamp_ssi c ?s q)) = Inr (round_ssi c (clamp_ssi c ?s q))"
    by (rule uint64_Inr; use True cl rd d wf(1) in linarith)+
  have i: "(if ?s \<le> q then uint64 (min q (?F * ?s)) else uint64 (max (max ?N q) (?s div ?F))) = Inr (clamp_ssi c ?s q)"
    using u(4) by (simp add: clamp_ssi_def split: if_splits)
  show ?thesis using True wf rd(4) u
    by (simp add: adjust_sub_slot_iters_def assms(3,4) py_floordiv_def py_mod_def q_def [symmetric] i Let_def
        round_ssi_def [symmetric])
next
  case False
  have s: "NUM_SPS_SUB_SLOT c \<le> sub_slot_iters lc" using assms(2) by (simp add: ssi_ok_def)
  then show ?thesis using False constants_wf_pos [OF assms(1)]
    by (auto simp: adjust_sub_slot_iters_def assms(3,4) py_floordiv_def uint64_eq q_def [symmetric])
qed

text \<open>
  C17. The sub-slot iterations of a new epoch: whenever the adjustment returns, the result is divisible
  into signage point intervals, at least one iteration per interval, at most the maximum
  factor above and (up to the rounding of significant bits and divisibility) at most the maximum factor below the old
  value; and the assertion on significant bits can never fail.
\<close>

theorem sub_slot_iters_adjustment:
  assumes "constants_wf c" "ssi_ok c (sub_slot_iters lc)" "timestamp lc \<noteq> None" "timestamp lp \<noteq> None"
  shows "adjust_sub_slot_iters c lc lp \<noteq> Inl AssertionError \<and>
    (\<forall>r. adjust_sub_slot_iters c lc lp = Inr r \<longrightarrow>
      ssi_ok c r \<and> count_significant_bits r \<le> SIGNIFICANT_BITS c \<and>
      r \<le> DIFFICULTY_CHANGE_MAX_FACTOR c * sub_slot_iters lc \<and>
      (\<exists>p. sub_slot_iters lc div DIFFICULTY_CHANGE_MAX_FACTOR c \<le> p \<and>
           p < r + 2 ^ (bit_length p - nat (SIGNIFICANT_BITS c)) + NUM_SPS_SUB_SLOT c))"
proof -
  obtain tc tp where ts: "timestamp lc = Some tc" "timestamp lp = Some tp" using assms(3,4) by auto
  define q where "q = SUB_SLOT_TIME_TARGET c * (total_iters lc - total_iters lp) div (tc - tp)"
  have s: "NUM_SPS_SUB_SLOT c \<le> sub_slot_iters lc" using assms(2) by (simp add: ssi_ok_def)
  note cl = clamp_ssi_bounds [OF assms(1) s, of q]
  note rd = round_ssi_bounds [OF assms(1) cl(1)]
  show ?thesis
    unfolding adjust_sub_slot_iters_eq [OF assms(1,2) ts] q_def [symmetric] ssi_ok_def
    using rd cl by (auto intro!: exI [of _ "clamp_ssi c (sub_slot_iters lc) q"])
qed

theorem sub_slot_iters_adjustment_witness:
  "adjust_sub_slot_iters DEFAULT_CONSTANTS (demo_record [2] [1] 4600) (demo_record [3] [1] 10) = Inr 44564480 \<and>
   ssi_ok DEFAULT_CONSTANTS 44564480 \<and> count_significant_bits 44564480 \<le> SIGNIFICANT_BITS DEFAULT_CONSTANTS \<and>
   (\<exists>p. sub_slot_iters (demo_record [2] [1] 4600) div DIFFICULTY_CHANGE_MAX_FACTOR DEFAULT_CONSTANTS \<le> p \<and>
        p < 44564480 + 2 ^ (bit_length p - nat (SIGNIFICANT_BITS DEFAULT_CONSTANTS)) + NUM_SPS_SUB_SLOT DEFAULT_CONSTANTS)"
proof -
  have ok: "ssi_ok DEFAULT_CONSTANTS (sub_slot_iters (demo_record [2] [1] 4600))"
    by (simp add: ssi_ok_def DEFAULT_CONSTANTS_def)
  have e: "adjust_sub_slot_iters DEFAULT_CONSTANTS (demo_record [2] [1] 4600) (demo_record [3] [1] 10) = Inr 44564480"
    by (subst adjust_sub_slot_iters_eq [OF default_constants_wf ok, of 2760000 _ 6000])
      (simp_all add: DEFAULT_CONSTANTS_def round_ssi_def clamp_ssi_def truncate_to_significant_bits_def Let_def
        bit_length_def nat_bit_length.simps push_bit_eq_mult)
  from sub_slot_iters_adjustment [OF default_constants_wf ok, of "demo_record [3] [1] 10"] e show ?thesis by simp
qed

lemma uint64_Inr_iff: "uint64 v = Inr w \<longleftrightarrow> w = v \<and> 0 \<le> v \<and> v < 2 ^ 64"
  by (auto simp: uint64_eq)

lemma py_floordiv_Inr_iff: "py_floordiv a b = Inr w \<longleftrightarrow> b \<noteq> 0 \<and> w = a div b"
  by (auto simp: py_floordiv_def)

lemma py_mod_Inr_iff: "py_mod a b = Inr w \<longleftrightarrow> b \<noteq> 0 \<and> w = a mod b"
  by (auto simp: py_mod_def)

lemmas arith_Inr_iffs = uint64_Inr_iff py_floordiv_Inr_iff py_mod_Inr_iff

definition clamp_difficulty :: "ConsensusConstants \<Rightarrow> int \<Rightarrow> int \<Rightarrow> int" where
  "clamp_difficulty c old q =
     (if q \<ge> old then min q (DIFFICULTY_CHANGE_MAX_FACTOR c * old)
      else max (max 1 q) (old div DIFFICULTY_CHANGE_MAX_FACTOR c))"

lemma clamp_difficulty_uint:
  "(if old \<le> q then uint64 (min q (DIFFICULTY_CHANGE_MAX_FACTOR c * old))
    else rbind (uint64 1) (\<lambda>one. uint64 (max (max one q) (old div DIFFICULTY_CHANGE_MAX_FACTOR c)))) =
   uint64 (clamp_difficulty c old q)"
  by (simp add: clamp_difficulty_def uint64_eq [of 1])

lemma adjust_difficulty_Inr:
  assumes "adjust_difficulty c B prev_b lc lp = Inr r" "block_record B (prev_hash prev_b) = Inr pp"
  obtains q where "r = truncate_to_significant_bits (clamp_difficulty c (weight prev_b - weight pp) q) (SIGNIFICANT_BITS c)"
    and "r < 2 ^ 64" "count_significant_bits r \<le> SIGNIFICANT_BITS c"
proof -
  from assms(1) obtain tc tp where ts: "timestamp lc = Some tc" "timestamp lp = Some tp"
    by (auto simp: adjust_difficulty_def split: option.splits)
  show ?thesis
    using assms(1) that
    unfolding adjust_difficulty_def ts assms(2)
    by (simp add: res_conv arith_Inr_iffs clamp_difficulty_uint Let_def del: power_numeral)
qed

lemma clamp_between:
  fixes old q a b :: int
  assumes "1 \<le> old" "old \<le> a" "b \<le> old"
  shows "1 \<le> (if old \<le> q then min q a else max (max 1 q) b)" "(if old \<le> q then min q a else max (max 1 q) b) \<le> a"
  using assms by auto

lemma adjust_difficulty_bounds:
  assumes "constants_wf c" "adjust_difficulty c B prev_b lc lp = Inr r"
    and "block_record B (prev_hash prev_b) = Inr pp" "weight pp < weight prev_b"
  shows "1 \<le> r" "r \<le> DIFFICULTY_CHANGE_MAX_FACTOR c * (weight prev_b - weight pp)" "r < 2 ^ 64"
    and "count_significant_bits r \<le> SIGNIFICANT_BITS c"
proof -
  note wf = constants_wf_pos [OF assms(1)]
  define old where "old = weight prev_b - weight pp"
  have old: "1 \<le> old" using assms(4) by (simp add: old_def)
  obtain q where r: "r = truncate_to_significant_bits (clamp_difficulty c old q) (SIGNIFICANT_BITS c)" "r < 2 ^ 64"
    "count_significant_bits r \<le> SIGNIFICANT_BITS c"
    using adjust_difficulty_Inr [OF assms(2,3)] unfolding old_def by metis
  have "old \<le> DIFFICULTY_CHANGE_MAX_FACTOR c * old" using wf(10) old by (simp add: mult_le_cancel_right1)
  moreover have "old div DIFFICULTY_CHANGE_MAX_FACTOR c \<le> old" using div_le_self old wf(10) by simp
  ultimately have pb: "1 \<le> clamp_difficulty c old q" "clamp_difficulty c old q \<le> DIFFICULTY_CHANGE_MAX_FACTOR c * old"
    using old clamp_between unfolding clamp_difficulty_def by blast+
  have "0 < r" "r \<le> clamp_difficulty c old q"
    using truncate_bounds [of "clamp_difficulty c old q" "SIGNIFICANT_BITS c"] pb wf(9) by (auto simp: r(1))
  with pb r show "1 \<le> r" "r \<le> DIFFICULTY_CHANGE_MAX_FACTOR c * (weight prev_b - weight pp)" "r < 2 ^ 64"
    "count_significant_bits r \<le> SIGNIFICANT_BITS c" unfolding old_def by linarith+
qed

section \<open>Validity along the chain\<close>

text \<open>Every record of the chain has valid sub-slot iterations and is heavier than its parent.\<close>

definition chain_params_ok :: "ConsensusConstants \<Rightarrow> BlockchainInterface \<Rightarrow> bool" where
  "chain_params_ok c B \<longleftrightarrow>
     (\<forall>hh b. block_record B hh = Inr b \<longrightarrow>
        ssi_ok c (sub_slot_iters b) \<and> 0 < weight b \<and> (\<forall>p. block_record B (prev_hash b) = Inr p \<longrightarrow> weight p < weight b))"

lemma last_tx_block_before_in:
  assumes "last_tx_block_before B sp b = Inr r" "block_record B hh = Inr b"
  shows "\<exists>hh. block_record B hh = Inr r"
proof -
  from assms(1) obtain u where w: "py_while (\<lambda>(b, u). total_iters b > sp \<or> \<not> is_transaction_block b)
      (\<lambda>(b, u). rbind (block_record B (prev_hash b)) (\<lambda>p. Inr (p, u))) (b, ()) = Inr (r, u)"
    by (auto simp: last_tx_block_before_def res_conv)
  have "(\<lambda>(b, u). \<exists>hh. block_record B hh = Inr b) (r, u) \<and> \<not> (\<lambda>(b, u). total_iters b > sp \<or> \<not> is_transaction_block b) (r, u)"
    by (rule py_while_partial [OF w]) (use assms(2) in \<open>auto simp: res_conv\<close>)
  then show ?thesis by simp
qed

lemma ssi_starting_ok: "constants_wf c \<Longrightarrow> ssi_ok c (SUB_SLOT_ITERS_STARTING c)"
  by (auto simp: constants_wf_def ssi_ok_def zdvd_imp_le dvd_eq_mod_eq_0)

lemma adjust_ssi_ok:
  assumes "constants_wf c" "ssi_ok c (sub_slot_iters lc)" "adjust_sub_slot_iters c lc lp = Inr r"
  shows "ssi_ok c r"
proof -
  from assms(3) obtain tc tp where ts: "timestamp lc = Some tc" "timestamp lp = Some tp"
    by (auto simp: adjust_sub_slot_iters_def split: option.splits)
  have s: "NUM_SPS_SUB_SLOT c \<le> sub_slot_iters lc" using assms(2) by (simp add: ssi_ok_def)
  define q where "q = SUB_SLOT_TIME_TARGET c * (total_iters lc - total_iters lp) div (tc - tp)"
  have r: "DIFFICULTY_CHANGE_MAX_FACTOR c * sub_slot_iters lc < 2 ^ 64" "r = round_ssi c (clamp_ssi c (sub_slot_iters lc) q)"
    using assms(3) unfolding adjust_sub_slot_iters_eq [OF assms(1,2) ts] q_def [symmetric] by (simp_all split: if_splits)
  note cl = clamp_ssi_bounds [OF assms(1) s, of q]
  note rd = round_ssi_bounds [OF assms(1) cl(1)]
  have "r < 2 ^ 64" using cl(2) rd(2) r by linarith
  then show ?thesis using rd(1,5) unfolding ssi_ok_def r(2) by blast
qed

text \<open>Both functions choose between the starting value, the current value and the adjustment.\<close>

lemma epoch_choice_cases:
  assumes "rbind (uint32 h1) (\<lambda>nh. if nh < bound then uint64 start else if noblock then Inl ValueError
     else rbind (block_record B ph) (\<lambda>pb. rbind (m nh pb) (\<lambda>same. if same then Inr cur0
       else rbind (f pb) (\<lambda>lp. rbind (last_tx_block_before B sp pb) (\<lambda>lc. adj pb lc lp))))) = Inr r"
  obtains "uint64 start = Inr r" | "r = cur0"
    | pb lc lp where "block_record B ph = Inr pb" "last_tx_block_before B sp pb = Inr lc" "adj pb lc lp = Inr r"
proof -
  obtain nh where 1: "(if nh < bound then uint64 start else if noblock then Inl ValueError
     else rbind (block_record B ph) (\<lambda>pb. rbind (m nh pb) (\<lambda>same. if same then Inr cur0
       else rbind (f pb) (\<lambda>lp. rbind (last_tx_block_before B sp pb) (\<lambda>lc. adj pb lc lp))))) = Inr r"
    using assms by (rule rbind_InrE)
  show ?thesis
  proof (cases "nh < bound \<or> noblock")
    case True
    with 1 that(1) show ?thesis by (auto split: if_splits)
  next
    case False
    with 1 obtain pb where pb: "block_record B ph = Inr pb" "rbind (m nh pb) (\<lambda>same. if same then Inr cur0
       else rbind (f pb) (\<lambda>lp. rbind (last_tx_block_before B sp pb) (\<lambda>lc. adj pb lc lp))) = Inr r"
      by (auto simp: rbind_eq_Inr)
    then show ?thesis using that(2,3) by (auto simp: rbind_eq_Inr split: if_splits)
  qed
qed

lemma next_ssi_ok:
  assumes "constants_wf c" "chain_params_ok c B" "ssi_ok c ssi"
    and "get_next_sub_slot_iters c B ph h ssi d ses new sp skip = Inr r"
  shows "ssi_ok c r"
proof -
  have par: "block_record B hh = Inr b \<Longrightarrow> ssi_ok c (sub_slot_iters b)" for hh b
    using assms(2) unfolding chain_params_ok_def by blast
  consider "uint64 (SUB_SLOT_ITERS_STARTING c) = Inr r" | "r = ssi"
    | pb lc lp where "block_record B ph = Inr pb" "last_tx_block_before B sp pb = Inr lc" "adjust_sub_slot_iters c lc lp = Inr r"
    using assms(4) unfolding get_next_sub_slot_iters_def by (rule epoch_choice_cases)
  then show ?thesis
  proof cases
    case 1
    with ssi_starting_ok [OF assms(1)] show ?thesis by (auto simp: uint64_eq split: if_splits)
  next
    case 3
    with last_tx_block_before_in par adjust_ssi_ok [OF assms(1)] show ?thesis by blast
  qed (simp add: assms(3))
qed

lemma next_difficulty_pos:
  assumes "constants_wf c" "chain_params_ok c B" "0 < diff"
    and "get_next_difficulty c B ph h diff d ses new sp skip = Inr r"
  shows "0 < r"
proof -
  consider "uint64 (DIFFICULTY_STARTING c) = Inr r" | "r = diff"
    | pb lc lp where "block_record B ph = Inr pb" "last_tx_block_before B sp pb = Inr lc" "adjust_difficulty c B pb lc lp = Inr r"
    using assms(4) unfolding get_next_difficulty_def by (rule epoch_choice_cases)
  then show ?thesis
  proof cases
    case 1
    with assms(1) show ?thesis by (auto simp: uint64_eq constants_wf_def split: if_splits)
  next
    case 3
    then obtain pp where pp: "block_record B (prev_hash pb) = Inr pp"
      by (auto simp: adjust_difficulty_def res_conv split: option.splits)
    with 3 assms(2) have "weight pp < weight pb" unfolding chain_params_ok_def by blast
    with adjust_difficulty_bounds(1) [OF assms(1) 3(3) pp] show ?thesis by simp
  qed (simp add: assms(3))
qed

lemma next_params_ok:
  assumes "constants_wf c" "chain_params_ok c B" "block_record B hh = Inr pb"
    and "get_next_sub_slot_iters_and_difficulty c first (Some pb) B = Inr (ssi, diff)"
  shows "ssi_ok c ssi" "0 < diff"
proof -
  have pb: "ssi_ok c (sub_slot_iters pb)" "0 < weight pb" "\<And>p. block_record B (prev_hash pb) = Inr p \<Longrightarrow> weight p < weight pb"
    using assms(2,3) unfolding chain_params_ok_def by blast+
  from assms(4) obtain pd where pd: "(if height pb \<noteq> 0 then rbind (block_record B (prev_hash pb)) (\<lambda>pp. uint64 (weight pb - weight pp))
      else uint64 (weight pb)) = Inr pd"
    and alt: "ssi = sub_slot_iters pb \<and> diff = pd \<or>
      (\<exists>sp. get_next_difficulty c B (prev_hash pb) (height pb) pd (deficit pb) False first sp False = Inr diff \<and>
       get_next_sub_slot_iters c B (prev_hash pb) (height pb) (sub_slot_iters pb) (deficit pb) False first sp False = Inr ssi)"
    by (auto simp: get_next_sub_slot_iters_and_difficulty_def res_conv split: if_splits)
  have "0 < pd" using pd pb(2,3) by (fastforce simp: res_conv uint64_eq split: if_splits)
  with alt pb(1) next_ssi_ok [OF assms(1,2)] next_difficulty_pos [OF assms(1,2)]
  show "ssi_ok c ssi" "0 < diff" by blast+
qed

text \<open>
  C18. If every block of the chain has valid sub-slot iterations and increases the weight, the parameters computed
  for the next block are valid again: the sub-slot divides into signage point intervals (so proof of time never trips
  over its assertion) and the difficulty is positive, so weight keeps increasing.
\<close>

theorem next_parameters_valid:
  assumes "constants_wf c" "chain_params_ok c B" "block_record B hh = Inr pb"
    and "get_next_sub_slot_iters_and_difficulty c first (Some pb) B = Inr (ssi, diff)"
  shows "ssi_ok c ssi \<and> 0 < diff \<and> calculate_sp_interval_iters c ssi = Inr (ssi div NUM_SPS_SUB_SLOT c)"
proof -
  note ok = next_params_ok [OF assms]
  then obtain n where n: "ssi = n * NUM_SPS_SUB_SLOT c" by (metis ssi_ok_def dvd_div_mult_self)
  have "0 \<le> n" using ok(1) n constants_wf_pos(1) [OF assms(1)] by (auto simp: ssi_ok_def zero_le_mult_iff)
  from sp_interval_iters_eq [OF constants_wf_pos(1) [OF assms(1)] n this] ok n constants_wf_pos(1) [OF assms(1)]
  show ?thesis by (simp add: ssi_ok_def)
qed

text \<open>
  A chain for the witnesses that reaches the end of an epoch: with sub-epochs of 7 and epochs of 14 blocks, twenty blocks in a line, a
  sub-epoch summary in block 7.
\<close>

definition small_constants :: ConsensusConstants where
  "small_constants = DEFAULT_CONSTANTS\<lparr>SLOT_BLOCKS_TARGET := 2, MIN_BLOCKS_PER_CHALLENGE_BLOCK := 1, MAX_SUB_SLOT_BLOCKS := 3,
     SUB_EPOCH_BLOCKS := 7, EPOCH_BLOCKS := 14\<rparr>"

definition line_summary :: SubEpochSummary where
  "line_summary = \<lparr> prev_subepoch_summary_hash = replicate 32 0, reward_chain_hash = replicate 32 0, num_blocks_overflow = 0,
     new_difficulty = None, new_sub_slot_iters = None \<rparr>"

definition line_record :: "int \<Rightarrow> BlockRecord" where
  "line_record h =
     (if h = 7 then (demo_record [7] [6] 7)\<lparr>sub_epoch_summary_included := Some line_summary, finished_reward_slot_hashes := Some [[9]]\<rparr>
      else demo_record [word_of_int h] [word_of_int (h - 1)] h)"

definition line_chain :: BlockchainInterface where
  "line_chain =
     \<lparr> contains_block = (\<lambda>hh. case hh of [w] \<Rightarrow> uint w < 20 | _ \<Rightarrow> False),
       block_record = (\<lambda>hh. case hh of [w] \<Rightarrow> if uint w < 20 then Inr (line_record (uint w)) else Inl KeyError | _ \<Rightarrow> Inl KeyError),
       contains_height = (\<lambda>h. 0 \<le> h \<and> h < 20),
       height_to_hash = (\<lambda>h. Inr (if 0 \<le> h \<and> h < 20 then Some [word_of_int h] else None)) \<rparr>"

lemma line_record_simps [simp]:
  "header_hash (line_record h) = [word_of_int h]" "prev_hash (line_record h) = [word_of_int (h - 1)]" "height (line_record h) = h"
  "weight (line_record h) = 10 * (h + 1)" "timestamp (line_record h) = Some (600 * h)" "deficit (line_record h) = 0"
  "total_iters (line_record h) = 10000000 * (h + 1)" "sub_slot_iters (line_record h) = 134217728"
  "sub_epoch_summary_included (line_record h) = (if h = 7 then Some line_summary else None)"
  "finished_reward_slot_hashes (line_record 7) = Some [[9]]"
  by (simp_all add: line_record_def)

lemma line_chain_record: "0 \<le> h \<Longrightarrow> h < 20 \<Longrightarrow> block_record line_chain [word_of_int h] = Inr (line_record h)"
  by (simp add: line_chain_def uint_word_of_int)

lemma line_chain_cases:
  assumes "block_record line_chain hh = Inr b"
  obtains h where "0 \<le> h" "h < 20" "hh = [word_of_int h]" "b = line_record h"
proof -
  from assms obtain w where w: "hh = [w]" "uint w < 20" "b = line_record (uint w)"
    by (auto simp: line_chain_def split: list.splits if_splits)
  then show ?thesis using that [of "uint w"] by simp
qed

lemma line_chain_tree: "block_tree line_chain"
  unfolding block_tree_def
proof (intro allI impI)
  fix hh b assume "block_record line_chain hh = Inr b"
  then obtain h where h: "0 \<le> h" "h < 20" "hh = [word_of_int h]" "b = line_record h" by (rule line_chain_cases)
  then show "header_hash b = hh \<and> 0 \<le> height b \<and>
      (0 < height b \<longrightarrow> (\<exists>p. block_record line_chain (prev_hash b) = Inr p \<and> height p = height b - 1))"
    using line_chain_record [of "h - 1"] by auto
qed

lemma small_constants_wf: "constants_wf small_constants"
  using default_constants_wf by (simp add: constants_wf_def small_constants_def)

lemma line_chain_params: "chain_params_ok small_constants line_chain"
  unfolding chain_params_ok_def
proof (intro allI impI)
  fix hh b assume "block_record line_chain hh = Inr b"
  then obtain h where h: "0 \<le> h" "h < 20" "b = line_record h" by (rule line_chain_cases)
  moreover have "weight p < weight b" if "block_record line_chain (prev_hash b) = Inr p" for p
    using that
  proof (rule line_chain_cases)
    fix q assume q: "0 \<le> q" "q < 20" "prev_hash b = [word_of_int q]" "p = line_record q"
    then have "word_of_int (h - 1) = (word_of_int q :: 8 word)" using h(3) by simp
    from arg_cong [OF this, of uint] have "(h - 1) mod 256 = q mod 256" unfolding uint_word_of_int by simp
    moreover have "q mod 256 = q" "(h - 1) mod 256 = (if h = 0 then 255 else h - 1)" using q h by auto
    ultimately show ?thesis using q h by (auto split: if_splits)
  qed
  ultimately show "ssi_ok small_constants (sub_slot_iters b) \<and> 0 < weight b \<and> (\<forall>p. block_record line_chain (prev_hash b) = Inr p \<longrightarrow> weight p < weight b)"
    by (auto simp: ssi_ok_def small_constants_def DEFAULT_CONSTANTS_def)
qed

lemma line_second_to_last:
  "get_second_to_last_transaction_block_in_previous_epoch small_constants line_chain (line_record 12) = Inr (line_record 0)"
  by (simp add: get_second_to_last_transaction_block_in_previous_epoch_def small_constants_def DEFAULT_CONSTANTS_def py_mod_def uint32_eq
      get_blocks_at_height_def height_to_block_record_def line_chain_def py_index_def)

lemma line_last_tx: "130000000 \<le> sp \<Longrightarrow> last_tx_block_before line_chain sp (line_record 12) = Inr (line_record 12)"
  by (simp add: last_tx_block_before_def is_transaction_block_def)

lemma line_new_ssi: "adjust_sub_slot_iters small_constants (line_record 12) (line_record 0) = Inr 44564480"
proof -
  have ok: "ssi_ok small_constants (sub_slot_iters (line_record 12))" by (simp add: ssi_ok_def small_constants_def DEFAULT_CONSTANTS_def)
  show ?thesis
    by (subst adjust_sub_slot_iters_eq [OF small_constants_wf ok, of 7200 _ 0])
      (simp_all add: small_constants_def DEFAULT_CONSTANTS_def round_ssi_def clamp_ssi_def truncate_to_significant_bits_def Let_def
        bit_length_def nat_bit_length.simps push_bit_eq_mult)
qed

lemma line_new_difficulty: "adjust_difficulty small_constants line_chain (line_record 12) (line_record 12) (line_record 0) = Inr 5"
proof -
  have "bit_length 5 = 3" by (simp add: bit_length_def nat_bit_length.simps)
  then have "truncate_to_significant_bits 5 8 = 5" "count_significant_bits 5 \<le> 8"
    by (simp_all add: truncate_to_significant_bits_def count_significant_bits_def split: option.split)
  then show ?thesis using line_chain_record [of 11]
    by (simp add: adjust_difficulty_def small_constants_def DEFAULT_CONSTANTS_def uint64_eq py_floordiv_def)
qed

lemma line_can_finish:
  "can_finish_sub_and_full_epoch small_constants line_chain 13 (Some [12]) 0 False = Inr (True, True)"
  by (simp add: can_finish_sub_and_full_epoch_def height_can_be_first_in_epoch_def py_mod_def uint32_eq small_constants_def)

lemma line_new_epoch:
  assumes "130000000 \<le> sp"
  shows "get_next_difficulty small_constants line_chain [12] 13 d 0 False True sp skip = Inr 5"
    "get_next_sub_slot_iters small_constants line_chain [12] 13 s 0 False True sp skip = Inr 44564480"
proof -
  have c: "EPOCH_BLOCKS small_constants = 14" "MAX_SUB_SLOT_BLOCKS small_constants = 3" by (simp_all add: small_constants_def)
  have b: "block_record line_chain [12] = Inr (line_record 12)" "contains_block line_chain [12]"
    using line_chain_record [of 12] by (simp_all add: line_chain_def)
  show "get_next_difficulty small_constants line_chain [12] 13 d 0 False True sp skip = Inr 5"
    "get_next_sub_slot_iters small_constants line_chain [12] 13 s 0 False True sp skip = Inr 44564480"
    by (simp_all add: get_next_difficulty_def get_next_sub_slot_iters_def uint32_eq c b line_can_finish line_second_to_last line_last_tx [OF assms]
        line_new_ssi line_new_difficulty)
qed

lemma line_can_finish_middle:
  "can_finish_sub_and_full_epoch small_constants line_chain 16 (Some [15]) 0 False = Inr (True, True)"
  using line_chain_record [of 15] line_chain_record [of 14]
  by (simp add: can_finish_sub_and_full_epoch_def height_can_be_first_in_epoch_def py_mod_def uint32_eq small_constants_def scan_sub_epoch_def py_while_step)

lemma line_cannot_finish:
  "can_finish_sub_and_full_epoch small_constants line_chain 12 (Some [11]) 0 False = Inr (False, False)"
  using line_chain_record [of 11] line_chain_record [of 10] line_chain_record [of 9] line_chain_record [of 8] line_chain_record [of 7]
  by (simp add: can_finish_sub_and_full_epoch_def py_mod_def small_constants_def scan_sub_epoch_def py_while_step)

lemma line_sp_total_iters: "0 \<le> h \<Longrightarrow> h < 20 \<Longrightarrow> sp_total_iters small_constants (line_record h) = Inr (10000000 * (h + 1) - 6291457)"
  by (simp add: sp_total_iters_def sp_sub_slot_total_iters_def ip_iters_def sp_iters_def calculate_ip_iters_def calculate_sp_iters_def
      calculate_sp_interval_iters_def py_mod_def py_floordiv_def uint64_eq uint128_eq small_constants_def DEFAULT_CONSTANTS_def
      line_record_def demo_record_def)

lemma line_next_parameters:
  "get_next_sub_slot_iters_and_difficulty small_constants True (Some (line_record 13)) line_chain = Inr (44564480, 5)"
  using line_chain_record [of 12]
  by (simp add: get_next_sub_slot_iters_and_difficulty_def uint64_eq line_sp_total_iters line_new_epoch)

lemma line_same_parameters:
  "get_next_sub_slot_iters_and_difficulty small_constants False (Some (line_record 12)) line_chain = Inr (134217728, 10)"
proof -
  have c: "EPOCH_BLOCKS small_constants = 14" "MAX_SUB_SLOT_BLOCKS small_constants = 3" "SUB_SLOT_ITERS_STARTING small_constants = 134217728"
    by (simp_all add: small_constants_def DEFAULT_CONSTANTS_def)
  have b: "block_record line_chain [11] = Inr (line_record 11)" "contains_block line_chain [11]"
    using line_chain_record [of 11] by (simp_all add: line_chain_def)
  show ?thesis
    by (simp add: get_next_sub_slot_iters_and_difficulty_def get_next_difficulty_def get_next_sub_slot_iters_def uint64_eq uint32_eq
        line_sp_total_iters b c line_cannot_finish)
qed

theorem next_parameters_valid_witness:
  "get_next_sub_slot_iters_and_difficulty small_constants True (Some (line_record 13)) line_chain = Inr (44564480, 5) \<and>
   ssi_ok small_constants 44564480 \<and> 0 < (5 :: int) \<and>
   calculate_sp_interval_iters small_constants 44564480 = Inr (44564480 div NUM_SPS_SUB_SLOT small_constants)"
proof -
  have "block_record line_chain [13] = Inr (line_record 13)" using line_chain_record [of 13] by simp
  from next_parameters_valid [OF small_constants_wf line_chain_params this line_next_parameters] line_next_parameters show ?thesis by simp
qed

section \<open>One summary per sub-epoch\<close>

text \<open>The scan looks at every ancestor down to the sub-epoch boundary.\<close>

lemma scan_sub_epoch_None:
  assumes "block_tree B" "in_tree B b" "0 < SUB_EPOCH_BLOCKS c" "scan_sub_epoch c B b = Inr False"
    and "ancestor B b x" "height b - height b mod SUB_EPOCH_BLOCKS c \<le> height x"
  shows "sub_epoch_summary_included x = None"
proof -
  let ?S = "SUB_EPOCH_BLOCKS c" and ?base = "height b - height b mod SUB_EPOCH_BLOCKS c"
  let ?g = "\<lambda>(curr, found). \<not> found \<and> height curr mod ?S > 0"
  let ?c = "\<lambda>(curr, found). if sub_epoch_summary_included curr \<noteq> None then Inr (curr, True)
          else rbind (block_record B (prev_hash curr)) (\<lambda>b. Inr (b, False))"
  let ?P = "\<lambda>(curr, found). in_tree B curr \<and> ancestor B b curr \<and> ?base \<le> height curr \<and>
      (\<forall>x. ancestor B b x \<and> height curr < height x \<longrightarrow> sub_epoch_summary_included x = None)"
  from assms(4) obtain y f where w: "py_while ?g ?c (b, False) = Inr (y, f)"
    and y: "\<not> f" "sub_epoch_summary_included y = None"
    by (auto simp: scan_sub_epoch_def rbind_eq_Inr split_beta)
  have "?P (y, f) \<and> \<not> ?g (y, f)"
  proof (rule py_while_partial [OF w])
    show "?P (b, False)" using assms(1,2) ancestor_height [OF _ assms(1,2)] assms(3)
      by (fastforce simp: ancestor.refl)
  next
    fix s t assume P: "?P s" and g: "?g s" and c: "?c s = Inr t"
    obtain v f where s: "s = (v, f)" by (cases s)
    show "?P t"
    proof (cases "sub_epoch_summary_included v")
      case (Some _)
      with c P show ?thesis by (auto simp: s)
    next
      case None
      with c obtain p where p: "block_record B (prev_hash v) = Inr p" "t = (p, False)" by (auto simp: s rbind_eq_Inr)
      from P have v: "in_tree B v" "ancestor B b v" "?base \<le> height v"
        and up: "\<And>x. ancestor B b x \<Longrightarrow> height v < height x \<Longrightarrow> sub_epoch_summary_included x = None" by (auto simp: s)
      have m: "0 < height v mod ?S" using g by (simp add: s)
      then have "0 < height v" using in_tree_height [OF assms(1) v(1)] by (cases "height v = 0") auto
      from in_tree_parent [OF assms(1) v(1) this] p(1) have ph: "in_tree B p" "height p = height v - 1" by auto
      have ap: "ancestor B b p"
        using v(2) ancestor_trans ancestor.step [OF \<open>0 < height v\<close> p(1) ancestor.refl] by blast
      have "?base \<noteq> height v"
      proof
        assume "?base = height v"
        moreover have "?base mod ?S = 0" by (simp add: minus_mod_eq_mult_div)
        ultimately show False using m by simp
      qed
      moreover have "sub_epoch_summary_included x = None" if "ancestor B b x" "height p < height x" for x
        using that up None ancestor_unique [OF that(1) v(2) _ assms(1,2)] ph(2) by (cases "height x = height v") auto
      ultimately show ?thesis using ph ap v(3) p(2) by auto
    qed
  qed
  then have y': "ancestor B b y" "?base \<le> height y" "height y mod ?S = 0"
    and up: "\<And>x. ancestor B b x \<Longrightarrow> height y < height x \<Longrightarrow> sub_epoch_summary_included x = None"
    using y(1) assms(3) pos_mod_sign [of ?S "height y"] by (auto simp: order_less_le)
  have "height y = ?base"
  proof -
    have "height y \<le> height b" using ancestor_height [OF y'(1) assms(1,2)] by simp
    then have "0 \<le> height y - ?base" "height y - ?base < ?S" using y'(2) assms(3) pos_mod_bound [of ?S "height b"] by linarith+
    moreover have "(height y - ?base) mod ?S = 0" using y'(3) by (simp add: mod_diff_eq [symmetric])
    ultimately show ?thesis by (simp add: mod_pos_pos_trivial)
  qed
  then show ?thesis using assms(5,6) up y(2) ancestor_unique [OF assms(5) y'(1) _ assms(1,2)]
    by (cases "height x = height y") auto
qed

text \<open>
  C20. A sub-epoch is closed at most once, and an epoch only together with a sub-epoch: when
  \<^verbatim>\<open>can_finish_sub_and_full_epoch\<close> says yes, the deficit is zero, the height is past the first sub-epoch,
  no block since the boundary carries a summary, and the full epoch is closed only at an epoch boundary.
\<close>

theorem sub_epoch_finished_once:
  assumes "constants_wf c" "block_tree B" "block_record B ph = Inr pb" "0 \<le> h"
    and "can_finish_sub_and_full_epoch c B h (Some ph) d ses = Inr (fin, fin_epoch)"
  shows "(fin_epoch \<longrightarrow> fin) \<and>
    (fin \<longrightarrow> d \<le> 0 \<and> \<not> ses \<and> SUB_EPOCH_BLOCKS c \<le> h + 1 \<and>
       (fin_epoch \<longleftrightarrow> (h + 1 - (h + 1) mod SUB_EPOCH_BLOCKS c) mod EPOCH_BLOCKS c = 0) \<and>
       ((h + 1) mod SUB_EPOCH_BLOCKS c > 1 \<longrightarrow>
         (\<forall>x. ancestor B pb x \<and> height pb - height pb mod SUB_EPOCH_BLOCKS c \<le> height x \<longrightarrow> sub_epoch_summary_included x = None)))"
proof -
  note wf = constants_wf_pos(6,7) [OF assms(1)]
  have pb: "in_tree B pb" using assms(2,3) by (auto simp: block_tree_def in_tree_def)
  show ?thesis using assms(3,5) wf scan_sub_epoch_None [OF assms(2) pb wf(1)]
    by (fastforce simp: can_finish_sub_and_full_epoch_def height_can_be_first_in_epoch_def py_mod_def uint32_eq rbind_eq_Inr
        split: if_splits)
qed

theorem sub_epoch_finished_once_witness:
  "can_finish_sub_and_full_epoch small_constants line_chain 16 (Some [15]) 0 False = Inr (True, True) \<and>
   ancestor line_chain (line_record 15) (line_record 14) \<and> sub_epoch_summary_included (line_record 14) = None \<and>
   (16 + 1 - (16 + 1) mod SUB_EPOCH_BLOCKS small_constants) mod EPOCH_BLOCKS small_constants = 0"
proof -
  have b: "block_record line_chain [15] = Inr (line_record 15)" "block_record line_chain [14] = Inr (line_record 14)"
    using line_chain_record [of 15] line_chain_record [of 14] by simp_all
  have c: "SUB_EPOCH_BLOCKS small_constants = 7" by (simp add: small_constants_def)
  have "ancestor line_chain (line_record 15) (line_record 14)" using b(2) by (intro ancestor.step [OF _ _ ancestor.refl]) simp_all
  with sub_epoch_finished_once [OF small_constants_wf line_chain_tree b(1) _ line_can_finish_middle] line_can_finish_middle
  show ?thesis by (auto simp: c)
qed

section \<open>Termination\<close>

lemma skip_to_summary_halts:
  assumes "0 \<le> i"
  shows "halts (skip_to_summary fs (x, y, i))"
  unfolding skip_to_summary_def halts_def
proof (rule py_while_not_diverges [where P = "\<lambda>(x, y, i). 0 \<le> i" and m = "\<lambda>(x, y, i). nat (int (length fs) - i)"])
  fix s t
  assume "case s of (x, y, i) \<Rightarrow> 0 \<le> i"
    and "(case s of (x, y, i) \<Rightarrow> rbind (py_index fs i) (\<lambda>b. Inr (y, b, i + 1))) = Inr t"
  then show "(case t of (x, y, i) \<Rightarrow> 0 \<le> i) \<and>
      (case t of (x, y, i) \<Rightarrow> nat (int (length fs) - i)) < (case s of (x, y, i) \<Rightarrow> nat (int (length fs) - i))"
    by (auto simp: rbind_eq_Inr py_index_def split: if_splits)
next
  fix s
  show "(case s of (x, y, i) \<Rightarrow> rbind (py_index fs i) (\<lambda>b. Inr (y, b, i + 1))) \<noteq> Inl Diverges"
    unfolding halts_def [symmetric] by (cases s) (auto intro!: halts_intros)
qed (use assms in simp)

lemma grounded_halts:
  assumes "grounded B"
  shows "halts (block_record B hh)" "halts (height_to_hash B h)" "halts (height_to_block_record B h)"
  using assms by (auto simp: grounded_def height_to_block_record_def intro!: halts_rbind split: option.splits)

lemma get_blocks_at_height_halts:
  assumes "block_tree B" "grounded B" "in_tree B b"
  shows "halts (get_blocks_at_height B b th n)"
proof -
  note g = grounded_halts [OF assms(2)]
  show ?thesis
    unfolding get_blocks_at_height_def Let_def
    by (intro halts_intros g walk_back_halts [OF assms])
      (auto simp: rbind_eq_Inr g intro!: halts_intros g split: if_splits)
qed

lemma get_blocks_at_height_in:
  assumes "block_tree B" "in_tree B b" "get_blocks_at_height B b th n = Inr fs" "x \<in> set fs"
  shows "in_tree B x"
proof -
  have rec: "block_record B hh = Inr y \<Longrightarrow> in_tree B y" for hh y
    using assms(1) by (auto simp: block_tree_def in_tree_def)
  let ?g = "\<lambda>(curr_b, target_blocks, stop). \<not> stop \<and> height curr_b \<ge> th"
  let ?c = "\<lambda>(curr_b, target_blocks, stop).
             let target_blocks' = (if height curr_b < th + n then target_blocks @ [curr_b] else target_blocks)
             in if height curr_b = 0 then Inr (curr_b, target_blocks', True)
                else rbind (block_record B (prev_hash curr_b)) (\<lambda>b. Inr (b, target_blocks', False))"
  let ?P = "\<lambda>(curr_b, target_blocks, stop). in_tree B curr_b \<and> (\<forall>x \<in> set target_blocks. in_tree B x)"
  have slow: "?P t" if "py_while ?g ?c (b, [], False) = Inr t" for t
  proof -
    have "?P t \<and> \<not> ?g t"
      by (rule py_while_partial [OF that]) (use assms(2) rec in \<open>auto simp: rbind_eq_Inr Let_def split: if_splits\<close>)
    then show ?thesis by blast
  qed
  from assms(3) consider
    (fast) hs where "rmap (\<lambda>h. rbind (uint32 h) (\<lambda>h. rassert (contains_height B h) (height_to_block_record B h))) hs = Inr fs"
    | (slow) c ts stop where "py_while ?g ?c (b, [], False) = Inr (c, ts, stop)" "fs = rev ts"
    unfolding get_blocks_at_height_def Let_def by (auto simp: rbind_eq_Inr split_beta split: if_splits)
  then show ?thesis
  proof cases
    case fast
    then have "\<exists>h. height_to_block_record B h = Inr x"
      using assms(4) by (auto simp: rmap_Inr_iff list_all2_conv_all_nth in_set_conv_nth rbind_eq_Inr rassert_eq_Inr)
    then show ?thesis using rec by (auto simp: height_to_block_record_def rbind_eq_Inr split: option.splits)
  next
    case slow
    with \<open>\<And>t. py_while ?g ?c (b, [], False) = Inr t \<Longrightarrow> ?P t\<close> [OF slow(1)] assms(4) show ?thesis by simp
  qed
qed

lemma skip_to_summary_in:
  assumes "skip_to_summary fs (x, y, i) = Inr (x', y', i')" "P x" "P y" "\<And>z. z \<in> set fs \<Longrightarrow> P z"
  shows "P x'"
proof -
  have "(\<lambda>(x, y, i). P x \<and> P y) (x', y', i') \<and> \<not> (\<lambda>(curr_b, next_b, fetched_index). sub_epoch_summary_included next_b = None) (x', y', i')"
    by (rule py_while_partial [OF assms(1) [unfolded skip_to_summary_def]])
      (use assms(2-4) py_index_in_set in \<open>fastforce simp: rbind_eq_Inr\<close>)+
  then show ?thesis by simp
qed

lemma second_to_last_halts:
  assumes "constants_wf c" "block_tree B" "grounded B" "in_tree B b"
  shows "halts (get_second_to_last_transaction_block_in_previous_epoch c B b)"
proof -
  note g = grounded_halts [OF assms(3)] and bh = get_blocks_at_height_halts [OF assms(2-4)]
  have bt: "halts (backtrack_tx_blocks B (x, n))" if "in_tree B x" for x n
    unfolding backtrack_tx_blocks_def
    by (rule walk_back_halts [OF assms(2,3) that]) (auto simp: rbind_eq_Inr intro!: halts_intros g)
  have inT: "in_tree B x'" if "skip_to_summary fs (x, y, k) = Inr (x', y', k')"
    and "get_blocks_at_height B b th n = Inr fs" "py_index fs i = Inr x" "py_index fs j = Inr y" for th n fs i x j y k x' y' k'
    using get_blocks_at_height_in [OF assms(2,4) that(2)] py_index_in_set [OF that(3)] py_index_in_set [OF that(4)]
    by - (rule skip_to_summary_in [OF that(1)], simp_all)
  have m: "0 \<le> MAX_SUB_SLOT_BLOCKS c + 1" using assms(1) by (auto simp: constants_wf_def)
  have tail: "halts (rbind (skip_to_summary fs (x, y, MAX_SUB_SLOT_BLOCKS c + 1)) (\<lambda>(curr_b, next_b, fetched_index).
      rbind (backtrack_tx_blocks B (curr_b, if is_transaction_block curr_b then 1 else 0)) (\<lambda>(curr_b, found_tx_block). Inr curr_b)))"
    if "get_blocks_at_height B b th n = Inr fs" "py_index fs i = Inr x" "py_index fs j = Inr y" for th n fs i x j y
  proof (rule halts_rbind [OF skip_to_summary_halts [OF m]])
    fix p assume p: "skip_to_summary fs (x, y, MAX_SUB_SLOT_BLOCKS c + 1) = Inr p"
    obtain x' y' k' where p': "p = (x', y', k')" by (cases p)
    have "in_tree B x'" using inT [OF p [unfolded p'] that] .
    then show "halts (case p of (curr_b, next_b, fetched_index) \<Rightarrow>
        rbind (backtrack_tx_blocks B (curr_b, if is_transaction_block curr_b then 1 else 0)) (\<lambda>(curr_b, found_tx_block). Inr curr_b))"
      unfolding p' by (auto intro!: halts_intros bt)
  qed
  show ?thesis
    unfolding get_second_to_last_transaction_block_in_previous_epoch_def Let_def
    by (intro tail halts_intros bh; assumption)
qed

lemma scan_sub_epoch_halts:
  assumes "block_tree B" "grounded B" "in_tree B b"
  shows "halts (scan_sub_epoch c B b)"
  unfolding scan_sub_epoch_def
  by (intro halts_intros walk_back_halts [OF assms])
    (auto simp: rbind_eq_Inr intro!: halts_intros grounded_halts [OF assms(2)] split: if_splits)

lemma can_finish_halts:
  assumes "block_tree B" "grounded B"
  shows "halts (can_finish_sub_and_full_epoch c B h ph d ses)"
  unfolding can_finish_sub_and_full_epoch_def height_can_be_first_in_epoch_def
  by (intro halts_intros grounded_halts [OF assms(2)] scan_sub_epoch_halts [OF assms])
    (use assms(1) in \<open>auto simp: block_tree_def in_tree_def\<close>)

lemma last_tx_block_before_halts:
  assumes "block_tree B" "grounded B" "in_tree B b"
  shows "halts (last_tx_block_before B sp b)"
  unfolding last_tx_block_before_def
  by (intro halts_intros walk_back_halts [OF assms])
    (auto simp: rbind_eq_Inr intro!: halts_intros grounded_halts [OF assms(2)])

lemma adjust_halts: "grounded B \<Longrightarrow> halts (adjust_sub_slot_iters c lc lp)" "grounded B \<Longrightarrow> halts (adjust_difficulty c B pb lc lp)"
  unfolding adjust_sub_slot_iters_def adjust_difficulty_def Let_def prod.case
  by (intro halts_intros grounded_halts; simp)+

lemma sp_total_iters_halts [halts_intros]: "halts (sp_total_iters c b)"
  unfolding sp_total_iters_def sp_sub_slot_total_iters_def ip_iters_def sp_iters_def calculate_ip_iters_def
    calculate_sp_iters_def calculate_sp_interval_iters_def uint128_eq
  by (intro halts_intros; simp)

text \<open>
  C19. Computing the parameters of the next block always ends, with a value or an exception: in a tree of blocks whose
  genesis has no parent none of the five backward searches can run forever.
\<close>

theorem next_parameters_terminate:
  assumes "constants_wf c" "block_tree B" "grounded B" "in_tree B pb"
  shows "get_next_sub_slot_iters_and_difficulty c first (Some pb) B \<noteq> Inl Diverges"
proof -
  have rec: "block_record B hh = Inr y \<Longrightarrow> in_tree B y" for hh y
    using assms(2) by (auto simp: block_tree_def in_tree_def)
  note h = grounded_halts [OF assms(3)] can_finish_halts [OF assms(2,3)] second_to_last_halts [OF assms(1-3)]
    last_tx_block_before_halts [OF assms(2,3)] adjust_halts [OF assms(3)]
  have "halts (get_next_difficulty c B ph ht d0 d ses new sp skip)" for ph ht d0 d ses new sp skip
    unfolding get_next_difficulty_def by (intro halts_intros h) (auto intro: rec)
  moreover have "halts (get_next_sub_slot_iters c B ph ht d0 d ses new sp skip)" for ph ht d0 d ses new sp skip
    unfolding get_next_sub_slot_iters_def by (intro halts_intros h) (auto intro: rec)
  ultimately show ?thesis
    unfolding get_next_sub_slot_iters_and_difficulty_def halts_def [symmetric] option.case
    by (intro halts_intros h)
qed

lemma demo_grounded: "grounded (BlockCache_interface demo_cache)"
proof -
  have "halts (height_to_hash (BlockCache_interface demo_cache) h)" for h
    by (simp add: BlockCache_interface_def demo_cache_def BlockCache_add_block_record_def din_map_of)
  then show ?thesis
    unfolding grounded_def by (auto simp: demo_cache_def BlockCache_add_record demo_cache_record)
qed

theorem next_parameters_terminate_witness:
  "get_next_sub_slot_iters_and_difficulty DEFAULT_CONSTANTS True (Some (demo_record [2] [1] 1)) (BlockCache_interface demo_cache) \<noteq>
     Inl Diverges"
  by (rule next_parameters_terminate [OF default_constants_wf demo_cache_tree demo_grounded demo_cache_in(1)])

section \<open>Sub-epoch summaries\<close>

definition make_sub_epoch_summary ::
  "crypto \<Rightarrow> ConsensusConstants \<Rightarrow> BlockchainInterface \<Rightarrow> int \<Rightarrow> BlockRecord \<Rightarrow> int option \<Rightarrow> int option \<Rightarrow> SubEpochSummary res" where
  "make_sub_epoch_summary E constants blocks blocks_included_height prev_prev_block new_diff new_ssi =
     rassert (height prev_prev_block = blocks_included_height - 2)
       (rbind (py_floordiv (blocks_included_height + MAX_SUB_SLOT_BLOCKS constants) (SUB_EPOCH_BLOCKS constants)) (\<lambda>q.
          if q \<le> 1 then
            rbind (uint8 0) (\<lambda>z.
              Inr \<lparr> prev_subepoch_summary_hash = GENESIS_CHALLENGE constants, reward_chain_hash = GENESIS_CHALLENGE constants,
                    num_blocks_overflow = z, new_difficulty = None, new_sub_slot_iters = None \<rparr>)
          else
            rbind (py_while (\<lambda>(curr, u). sub_epoch_summary_included curr = None)
                     (\<lambda>(curr, u). rbind (block_record blocks (prev_hash curr)) (\<lambda>b. Inr (b, u))) (prev_prev_block, ()))
              (\<lambda>(curr, u).
                 case finished_reward_slot_hashes curr of
                   None \<Rightarrow> Inl AssertionError
                 | Some rhs \<Rightarrow>
                     (case sub_epoch_summary_included curr of
                        None \<Rightarrow> Inl AssertionError
                      | Some ses \<Rightarrow>
                          rbind (get_hash E SubEpochSummary_fields (SubEpochSummary_items ses)) (\<lambda>prev_ses.
                          rbind (py_index rhs (- 1)) (\<lambda>rh.
                          rbind (py_mod (height curr) (SUB_EPOCH_BLOCKS constants)) (\<lambda>m.
                          rbind (uint8 m) (\<lambda>nbo.
                            Inr \<lparr> prev_subepoch_summary_hash = prev_ses, reward_chain_hash = rh, num_blocks_overflow = nbo,
                                  new_difficulty = new_diff, new_sub_slot_iters = new_ssi \<rparr>))))))))"

text \<open>The search for an already announced difficulty when the epoch may finish soon, lines 122 to 141.\<close>

definition can_finish_epoch_soon :: "ConsensusConstants \<Rightarrow> BlockchainInterface \<Rightarrow> BlockRecord \<Rightarrow> bool res" where
  "can_finish_epoch_soon constants blocks prev_b =
     rbind (uint32 (height prev_b + 2)) (\<lambda>h2.
     rbind (height_can_be_first_in_epoch constants h2) (\<lambda>first.
       if first then
         rbind (py_mod (height prev_b + 2) (SUB_EPOCH_BLOCKS constants)) (\<lambda>r.
           if r > 1 then
             (let announced = (\<lambda>b. case sub_epoch_summary_included b of None \<Rightarrow> False | Some ses \<Rightarrow> new_difficulty ses \<noteq> None)
              in rbind (py_while (\<lambda>(curr, can). height curr mod SUB_EPOCH_BLOCKS constants > 0)
                          (\<lambda>(curr, can). rbind (block_record blocks (prev_hash curr)) (\<lambda>b. Inr (b, can \<and> \<not> announced curr)))
                          (prev_b, True))
                   (\<lambda>(curr, can). Inr (can \<and> \<not> announced curr)))
           else Inr True)
       else
         rbind (uint32 (height prev_b + MAX_SUB_SLOT_BLOCKS constants + 2)) (height_can_be_first_in_epoch constants)))"

text \<open>Lines 118 to 157: the deficit and whether the sub-epoch and the epoch can finish.\<close>

definition finish_flags ::
  "ConsensusConstants \<Rightarrow> BlockchainInterface \<Rightarrow> BlockRecord \<Rightarrow> bool \<Rightarrow> nat \<Rightarrow> bool \<Rightarrow> (int \<times> bool \<times> bool) res" where
  "finish_flags constants blocks prev_b ovf num_slots can_finish_soon =
     (if can_finish_soon
      then rbind (uint8 0) (\<lambda>dfc. rbind (can_finish_epoch_soon constants blocks prev_b) (\<lambda>e. Inr (dfc, True, e)))
      else
        rbind (uint32 (height prev_b + 1)) (\<lambda>h1.
        rbind (calculate_deficit constants h1 (Some prev_b) ovf (int num_slots)) (\<lambda>dfc.
        rbind (can_finish_sub_and_full_epoch constants blocks h1 (Some (header_hash prev_b)) dfc False) (\<lambda>(se, e).
          Inr (dfc, se, e)))))"

text \<open>Lines 166 to 194: the parameters of the new epoch.\<close>

definition epoch_parameters ::
  "ConsensusConstants \<Rightarrow> BlockchainInterface \<Rightarrow> int \<Rightarrow> int \<Rightarrow> bytes \<Rightarrow> int \<Rightarrow> BlockRecord \<Rightarrow> bool \<Rightarrow> int \<Rightarrow> int \<Rightarrow> (int \<times> int) res" where
  "epoch_parameters constants blocks req_iters sp_index prev_hh block_total_iters prev_b ovf ssi dfc =
     rbind (calculate_sp_iters constants ssi sp_index) (\<lambda>sp.
     rbind (calculate_ip_iters constants ssi sp_index req_iters) (\<lambda>ip.
     rbind (uint32 (height prev_b + 1)) (\<lambda>h1.
     rbind (block_record blocks (prev_hash prev_b)) (\<lambda>pp.
     rbind (uint64 (weight prev_b - weight pp)) (\<lambda>cd.
     rbind (uint128 (block_total_iters - ip + sp - (if ovf then ssi else 0))) (\<lambda>spt.
     rbind (get_next_difficulty constants blocks prev_hh h1 cd dfc False True spt True) (\<lambda>nd.
     rbind (get_next_sub_slot_iters constants blocks prev_hh h1 ssi dfc False True spt True) (\<lambda>ns.
       Inr (nd, ns)))))))))"

text \<open>
  \<^verbatim>\<open>next_sub_epoch_summary\<close>; the block enters through the fields the code reads: signage point index,
  previous header hash, finished sub-slots and total iterations.
\<close>

definition next_sub_epoch_summary ::
  "crypto \<Rightarrow> ConsensusConstants \<Rightarrow> BlockchainInterface \<Rightarrow> int \<Rightarrow> int \<Rightarrow> bytes \<Rightarrow> EndOfSubSlotBundle list \<Rightarrow> int \<Rightarrow> bool \<Rightarrow>
     SubEpochSummary option res" where
  "next_sub_epoch_summary E constants blocks req_iters sp_index prev_hh fss block_total_iters can_finish_soon =
     rbind (try_block_record blocks prev_hh) (\<lambda>opb.
       case opb of
         None \<Rightarrow> Inr None
       | Some prev_b \<Rightarrow>
           if height prev_b = 0 then Inr None
           else if fss \<noteq> [] \<and> cc_new_difficulty (challenge_chain (hd fss)) \<noteq> None then Inr None
           else
             rbind (get_next_sub_slot_iters_and_difficulty constants (length fss > 0) (Some prev_b) blocks) (\<lambda>(ssi, _).
             rbind (is_overflow_block constants sp_index) (\<lambda>ovf.
               if fss \<noteq> [] \<and> subepoch_summary_hash (challenge_chain (hd fss)) \<noteq> None then Inr None
               else
                 rbind (finish_flags constants blocks prev_b ovf (length fss) can_finish_soon) (\<lambda>(dfc, can_finish_se, can_finish_epoch).
                   if \<not> can_finish_se then Inr None
                   else
                     rbind (if can_finish_epoch
                            then rbind (epoch_parameters constants blocks req_iters sp_index prev_hh block_total_iters prev_b ovf ssi dfc)
                                   (\<lambda>(nd, ns). Inr (Some nd, Some ns))
                            else Inr (None, None)) (\<lambda>(nd, ns).
                     rbind (uint32 (height prev_b + 2)) (\<lambda>h2.
                     rbind (make_sub_epoch_summary E constants blocks h2 prev_b nd ns) (\<lambda>ses. Inr (Some ses))))))))"

lemma next_summary_cases:
  assumes "next_sub_epoch_summary E c B req i ph fss ti soon = Inr (Some ses)" "block_record B ph = Inr pb" "contains_block B ph"
  obtains ssi diff ov dfc e nd ns h2 where
    "get_next_sub_slot_iters_and_difficulty c (length fss > 0) (Some pb) B = Inr (ssi, diff)"
    "is_overflow_block c i = Inr ov"
    "finish_flags c B pb ov (length fss) soon = Inr (dfc, True, e)"
    "make_sub_epoch_summary E c B h2 pb nd ns = Inr ses"
    "nd = None \<and> ns = None \<or> e \<and> (\<exists>d s. nd = Some d \<and> ns = Some s \<and> epoch_parameters c B req i ph ti pb ov ssi dfc = Inr (d, s))"
proof -
  from assms obtain ssi diff ov where g: "get_next_sub_slot_iters_and_difficulty c (length fss > 0) (Some pb) B = Inr (ssi, diff)"
    and o: "is_overflow_block c i = Inr ov"
    and r: "rbind (finish_flags c B pb ov (length fss) soon) (\<lambda>(dfc, can_finish_se, can_finish_epoch).
       if \<not> can_finish_se then Inr None
       else rbind (if can_finish_epoch
              then rbind (epoch_parameters c B req i ph ti pb ov ssi dfc) (\<lambda>(nd, ns). Inr (Some nd, Some ns)) else Inr (None, None))
            (\<lambda>(nd, ns). rbind (uint32 (height pb + 2)) (\<lambda>h2.
               rbind (make_sub_epoch_summary E c B h2 pb nd ns) (\<lambda>ses. Inr (Some ses))))) = Inr (Some ses)"
    unfolding next_sub_epoch_summary_def try_block_record_def
    by (auto elim!: rbind_InrE split: if_splits)
  from r obtain dfc e where f: "finish_flags c B pb ov (length fss) soon = Inr (dfc, True, e)"
    and r': "rbind (if e then rbind (epoch_parameters c B req i ph ti pb ov ssi dfc) (\<lambda>(nd, ns). Inr (Some nd, Some ns)) else Inr (None, None))
            (\<lambda>(nd, ns). rbind (uint32 (height pb + 2)) (\<lambda>h2.
               rbind (make_sub_epoch_summary E c B h2 pb nd ns) (\<lambda>ses. Inr (Some ses)))) = Inr (Some ses)"
    by (elim rbind_InrE) (auto split: if_splits)
  from r' obtain nd ns h2 where "make_sub_epoch_summary E c B h2 pb nd ns = Inr ses"
    and "(if e then rbind (epoch_parameters c B req i ph ti pb ov ssi dfc) (\<lambda>(nd, ns). Inr (Some nd, Some ns)) else Inr (None, None)) = Inr (nd, ns)"
    by (elim rbind_InrE) (auto elim!: rbind_InrE)
  then show ?thesis using that [OF g o f] by (auto elim!: rbind_InrE split: if_splits)
qed

lemma finish_flags_deficit:
  assumes "finish_flags c B pb ov n False = Inr (dfc, True, e)" "constants_wf c"
  shows "calculate_deficit c (height pb + 1) (Some pb) ov (int n) = Inr 0"
proof -
  from assms(1) have d: "calculate_deficit c (height pb + 1) (Some pb) ov (int n) = Inr dfc"
    and f: "can_finish_sub_and_full_epoch c B (height pb + 1) (Some (header_hash pb)) dfc False = Inr (True, e)"
    by (auto simp: finish_flags_def uint32_eq elim!: rbind_InrE split: if_splits)
  have "dfc \<le> 0" using f by (cases "dfc > 0") (auto simp: can_finish_sub_and_full_epoch_def split: if_splits)
  moreover have "0 \<le> dfc" using d by (auto simp: calculate_deficit_def uint8_eq Let_def split: if_splits)
  ultimately show ?thesis using d by simp
qed

lemma finish_flags_boundary:
  assumes "finish_flags c B pb ov n soon = Inr (dfc, True, True)"
  shows "height_can_be_first_in_epoch c (height pb + 2) = Inr True \<or>
    soon \<and> height_can_be_first_in_epoch c (height pb + MAX_SUB_SLOT_BLOCKS c + 2) = Inr True"
proof (cases soon)
  case True
  then have "can_finish_epoch_soon c B pb = Inr True" using assms by (auto simp: finish_flags_def elim!: rbind_InrE)
  then obtain first where f: "height_can_be_first_in_epoch c (height pb + 2) = Inr first"
    "\<not> first \<longrightarrow> height_can_be_first_in_epoch c (height pb + MAX_SUB_SLOT_BLOCKS c + 2) = Inr True"
    unfolding can_finish_epoch_soon_def
    by (elim rbind_InrE) (auto simp: uint32_eq elim!: rbind_InrE split: if_splits)
  then show ?thesis using True by auto
next
  case False
  then have "can_finish_sub_and_full_epoch c B (height pb + 1) (Some (header_hash pb)) dfc False = Inr (True, True)"
    using assms by (auto simp: finish_flags_def uint32_eq elim!: rbind_InrE split: if_splits)
  then show ?thesis by (auto simp: can_finish_sub_and_full_epoch_def uint32_eq algebra_simps elim!: rbind_InrE split: if_splits)
qed

lemma make_summary_parameters:
  assumes "make_sub_epoch_summary E c B h2 pb nd ns = Inr ses"
  shows "new_difficulty ses = None \<and> new_sub_slot_iters ses = None \<or> new_difficulty ses = nd \<and> new_sub_slot_iters ses = ns"
  using assms unfolding make_sub_epoch_summary_def
  by (auto simp: rassert_eq_Inr elim!: rbind_InrE split: if_splits option.splits)

lemma epoch_parameters_ok:
  assumes "constants_wf c" "chain_params_ok c B" "block_record B hh = Inr pb" "ssi_ok c ssi"
    and "epoch_parameters c B req i ph ti pb ov ssi dfc = Inr (d, s)"
  shows "0 < d" "ssi_ok c s"
proof -
  from assms(5) obtain pp cd h1 spt where pp: "block_record B (prev_hash pb) = Inr pp" and cd: "uint64 (weight pb - weight pp) = Inr cd"
    and d: "get_next_difficulty c B ph h1 cd dfc False True spt True = Inr d"
    and s: "get_next_sub_slot_iters c B ph h1 ssi dfc False True spt True = Inr s"
    unfolding epoch_parameters_def by (elim rbind_InrE) auto
  have "weight pp < weight pb" using assms(2,3) pp unfolding chain_params_ok_def by blast
  with cd have "0 < cd" by (auto simp: uint64_eq split: if_splits)
  from next_difficulty_pos [OF assms(1,2) this d] show "0 < d" .
  from next_ssi_ok [OF assms(1,2,4) s] show "ssi_ok c s" .
qed

text \<open>
  C21. The summary proposed after a block: a new difficulty is announced exactly together with new sub-slot iterations, both are
  valid parameters, and they are announced only where an epoch can begin, at the height after the next or, when an early finish is allowed,
  also \<^verbatim>\<open>MAX_SUB_SLOT_BLOCKS\<close> later. When no early finish is allowed a summary is proposed only at zero deficit.
\<close>

theorem next_summary_parameters:
  assumes "constants_wf c" "chain_params_ok c B" "block_record B ph = Inr pb" "contains_block B ph"
    and "next_sub_epoch_summary E c B req i ph fss ti soon = Inr (Some ses)"
  shows "(new_difficulty ses = None \<longleftrightarrow> new_sub_slot_iters ses = None) \<and>
    (\<forall>ssi. new_sub_slot_iters ses = Some ssi \<longrightarrow> ssi_ok c ssi) \<and> (\<forall>d. new_difficulty ses = Some d \<longrightarrow> 0 < d) \<and>
    (new_difficulty ses \<noteq> None \<longrightarrow> height_can_be_first_in_epoch c (height pb + 2) = Inr True \<or>
       soon \<and> height_can_be_first_in_epoch c (height pb + MAX_SUB_SLOT_BLOCKS c + 2) = Inr True) \<and>
    (\<not> soon \<longrightarrow> (\<exists>ov. is_overflow_block c i = Inr ov \<and> calculate_deficit c (height pb + 1) (Some pb) ov (int (length fss)) = Inr 0))"
proof -
  from next_summary_cases [OF assms(5,3,4)] obtain ssi diff ov dfc e nd ns h2 where
    g: "get_next_sub_slot_iters_and_difficulty c (length fss > 0) (Some pb) B = Inr (ssi, diff)"
    and o: "is_overflow_block c i = Inr ov"
    and f: "finish_flags c B pb ov (length fss) soon = Inr (dfc, True, e)"
    and m: "make_sub_epoch_summary E c B h2 pb nd ns = Inr ses"
    and n: "nd = None \<and> ns = None \<or> e \<and> (\<exists>d s. nd = Some d \<and> ns = Some s \<and> epoch_parameters c B req i ph ti pb ov ssi dfc = Inr (d, s))" .
  note ok = epoch_parameters_ok [OF assms(1-3) next_params_ok(1) [OF assms(1-3) g]]
  have deficit: "\<not> soon \<longrightarrow> (\<exists>ov. is_overflow_block c i = Inr ov \<and> calculate_deficit c (height pb + 1) (Some pb) ov (int (length fss)) = Inr 0)"
    using finish_flags_deficit [OF _ assms(1)] f o by (cases soon) auto
  from n show ?thesis
  proof
    assume "nd = None \<and> ns = None"
    with make_summary_parameters [OF m] deficit show ?thesis by auto
  next
    assume "e \<and> (\<exists>d s. nd = Some d \<and> ns = Some s \<and> epoch_parameters c B req i ph ti pb ov ssi dfc = Inr (d, s))"
    then obtain d s where e: e and ds: "nd = Some d" "ns = Some s" "epoch_parameters c B req i ph ti pb ov ssi dfc = Inr (d, s)" by blast
    have "height_can_be_first_in_epoch c (height pb + 2) = Inr True \<or>
       soon \<and> height_can_be_first_in_epoch c (height pb + MAX_SUB_SLOT_BLOCKS c + 2) = Inr True"
      using finish_flags_boundary f e by simp
    with make_summary_parameters [OF m] ok [OF ds(3)] deficit ds(1,2) show ?thesis by auto
  qed
qed

lemma line_summary_hash: "\<exists>h. get_hash demo_crypto SubEpochSummary_fields (SubEpochSummary_items line_summary) = Inr h"
proof -
  have "has_type (bls_codec demo_crypto) (TClass SubEpochSummary_fields) (VObj (SubEpochSummary_items line_summary))"
    by (simp add: SubEpochSummary_fields_def SubEpochSummary_items_def line_summary_def VOpt_def)
  from get_hash_total [OF demo_crypto_ok this] show ?thesis by blast
qed

text \<open>The proposal for the last block of the epoch announces the parameters of the next one.\<close>

lemma line_make_summary:
  "\<exists>ph. make_sub_epoch_summary demo_crypto small_constants line_chain 14 (line_record 12) (Some 5) (Some 44564480) =
     Inr \<lparr> prev_subepoch_summary_hash = ph, reward_chain_hash = [9], num_blocks_overflow = 0,
           new_difficulty = Some 5, new_sub_slot_iters = Some 44564480 \<rparr>"
proof -
  obtain ph where "get_hash demo_crypto SubEpochSummary_fields (SubEpochSummary_items line_summary) = Inr ph" using line_summary_hash by blast
  then show ?thesis
    using line_chain_record [of 11] line_chain_record [of 10] line_chain_record [of 9] line_chain_record [of 8] line_chain_record [of 7]
    by (simp add: make_sub_epoch_summary_def py_floordiv_def py_mod_def small_constants_def uint8_eq py_while_step py_index_def)
qed

lemma line_epoch_parameters:
  "epoch_parameters small_constants line_chain 1 0 [12] 140000000 (line_record 12) False 134217728 0 = Inr (5, 44564480)"
proof -
  have i: "calculate_sp_iters small_constants 134217728 0 = Inr 0" "calculate_ip_iters small_constants 134217728 0 1 = Inr 6291457"
    by (simp_all add: calculate_ip_iters_def calculate_sp_iters_def calculate_sp_interval_iters_def py_mod_def py_floordiv_def uint64_eq
        small_constants_def DEFAULT_CONSTANTS_def)
  show ?thesis using line_chain_record [of 11]
    by (simp add: epoch_parameters_def i uint32_eq uint64_eq uint128_eq line_new_epoch)
qed

lemma line_finish_flags: "finish_flags small_constants line_chain (line_record 12) False 0 soon = Inr (0, True, True)"
proof (cases soon)
  case True
  then show ?thesis
    by (simp add: finish_flags_def can_finish_epoch_soon_def height_can_be_first_in_epoch_def uint32_eq uint8_eq py_mod_def small_constants_def)
next
  case False
  have "calculate_deficit small_constants 13 (Some (line_record 12)) False 0 = Inr 0"
    by (simp add: calculate_deficit_def small_constants_def uint8_eq)
  then show ?thesis using False by (simp add: finish_flags_def uint32_eq line_can_finish)
qed

theorem next_summary_parameters_witness:
  "\<exists>ses. (\<forall>soon. next_sub_epoch_summary demo_crypto small_constants line_chain 1 0 [12] [] 140000000 soon = Inr (Some ses)) \<and>
     new_difficulty ses = Some 5 \<and> new_sub_slot_iters ses = Some 44564480 \<and> ssi_ok small_constants 44564480 \<and>
     height_can_be_first_in_epoch small_constants 14 = Inr True \<and>
     (\<exists>ov. is_overflow_block small_constants 0 = Inr ov \<and> calculate_deficit small_constants 13 (Some (line_record 12)) ov 0 = Inr 0)"
proof -
  obtain ph where m: "make_sub_epoch_summary demo_crypto small_constants line_chain 14 (line_record 12) (Some 5) (Some 44564480) =
     Inr \<lparr> prev_subepoch_summary_hash = ph, reward_chain_hash = [9], num_blocks_overflow = 0,
           new_difficulty = Some 5, new_sub_slot_iters = Some 44564480 \<rparr>" (is "_ = Inr ?ses") using line_make_summary by blast
  have b: "block_record line_chain [12] = Inr (line_record 12)" "contains_block line_chain [12]"
    using line_chain_record [of 12] by (simp_all add: line_chain_def)
  have o: "is_overflow_block small_constants 0 = Inr False" by (simp add: is_overflow_block_def small_constants_def DEFAULT_CONSTANTS_def)
  have s: "next_sub_epoch_summary demo_crypto small_constants line_chain 1 0 [12] [] 140000000 soon = Inr (Some ?ses)" for soon
    by (simp add: next_sub_epoch_summary_def try_block_record_def b line_same_parameters o line_finish_flags line_epoch_parameters m uint32_eq)
  from next_summary_parameters [OF small_constants_wf line_chain_params b s [of False]] s show ?thesis by auto
qed

end
