(* ===== verification/LruCache.thy ===== *)
theory LruCache
  imports Prelude
begin

text \<open>
  \<^verbatim>\<open>hddcoin/util/lru_cache.py\<close>: the cache in front of the coin database. An \<^verbatim>\<open>OrderedDict\<close> is an
  association list from the least to the most recently used key. The locale \<open>cache_spec\<close> is what a
  client may rely on: a cache may forget, but it never answers with a value that was not stored
  last under the key. The coin store works with this contract only.
\<close>

record ('k, 'v) LRUCache =
  cache :: "('k, 'v) dict"
  capacity :: int

definition LRUCache_init :: "int \<Rightarrow> ('k, 'v) LRUCache" where
  "LRUCache_init cap = \<lparr>cache = [], capacity = cap\<rparr>"

text \<open>\<^verbatim>\<open>OrderedDict.move_to_end\<close> raises \<^verbatim>\<open>KeyError\<close> on a missing key; both callers have just seen it.\<close>

definition move_to_end :: "'k \<Rightarrow> ('k, 'v) dict \<Rightarrow> ('k, 'v) dict" where
  "move_to_end k d = (case map_of d k of None \<Rightarrow> d | Some v \<Rightarrow> AList.delete k d @ [(k, v)])"

definition LRUCache_get :: "'k \<Rightarrow> ('k, 'v) LRUCache \<Rightarrow> 'v option \<times> ('k, 'v) LRUCache" where
  "LRUCache_get k c =
     (if \<not> din k (cache c) then (None, c)
      else let c' = c\<lparr>cache := move_to_end k (cache c)\<rparr> in (map_of (cache c') k, c'))"

definition LRUCache_put :: "'k \<Rightarrow> 'v \<Rightarrow> ('k, 'v) LRUCache \<Rightarrow> ('k, 'v) LRUCache" where
  "LRUCache_put k v c =
     (let d = move_to_end k (dput k v (cache c))
      in if int (length d) > capacity c then c\<lparr>cache := tl d\<rparr> else c\<lparr>cache := d\<rparr>)"

definition LRUCache_remove :: "'k \<Rightarrow> ('k, 'v) LRUCache \<Rightarrow> ('k, 'v) LRUCache res" where
  "LRUCache_remove k c = rbind (ddel k (cache c)) (\<lambda>d. Inr (c\<lparr>cache := d\<rparr>))"

definition LRUCache_ok :: "('k, 'v) LRUCache \<Rightarrow> bool" where
  "LRUCache_ok c \<longleftrightarrow> distinct (dkeys (cache c)) \<and> int (length (cache c)) \<le> capacity c"

definition LRUCache_look :: "('k, 'v) LRUCache \<Rightarrow> 'k \<Rightarrow> 'v option" where
  "LRUCache_look c = map_of (cache c)"

section \<open>What a client may rely on\<close>

locale cache_spec =
  fixes look :: "'c \<Rightarrow> 'k \<Rightarrow> 'v option"
    and cget :: "'k \<Rightarrow> 'c \<Rightarrow> 'v option \<times> 'c"
    and cput :: "'k \<Rightarrow> 'v \<Rightarrow> 'c \<Rightarrow> 'c"
    and cremove :: "'k \<Rightarrow> 'c \<Rightarrow> 'c res"
    and cinv :: "'c \<Rightarrow> bool"
  assumes get_value: "cinv c \<Longrightarrow> fst (cget k c) = look c k"
    and get_look: "cinv c \<Longrightarrow> look (snd (cget k c)) = look c"
    and get_inv: "cinv c \<Longrightarrow> cinv (snd (cget k c))"
    and put_le: "cinv c \<Longrightarrow> look (cput k v c) \<subseteq>\<^sub>m (look c)(k \<mapsto> v)"
    and put_hit: "cinv c \<Longrightarrow> k \<in> dom (look c) \<Longrightarrow> look (cput k v c) = (look c)(k \<mapsto> v)"
    and put_inv: "cinv c \<Longrightarrow> cinv (cput k v c)"
    and remove_hit: "cinv c \<Longrightarrow> k \<in> dom (look c) \<Longrightarrow> \<exists>c'. cremove k c = Inr c' \<and> look c' = (look c)(k := None) \<and> cinv c'"
    and remove_miss: "cinv c \<Longrightarrow> k \<notin> dom (look c) \<Longrightarrow> cremove k c = Inl KeyError"
begin

lemma put_Some:
  assumes "cinv c" "look (cput k v c) j = Some w"
  shows "j = k \<and> w = v \<or> look c j = Some w"
proof -
  have "((look c)(k \<mapsto> v)) j = Some w" using put_le [OF assms(1), of k v] assms(2) by (metis domI map_le_def)
  then show ?thesis by (auto split: if_splits)
qed

text \<open>A cache is coherent with a store when it holds entries of the store only.\<close>

definition coherent :: "'c \<Rightarrow> ('k \<Rightarrow> 'v option) \<Rightarrow> bool" where
  "coherent c m \<longleftrightarrow> cinv c \<and> look c \<subseteq>\<^sub>m m"

lemma coherentI: "cinv c \<Longrightarrow> look c \<subseteq>\<^sub>m m \<Longrightarrow> coherent c m"
  by (simp add: coherent_def)

lemma coherent_Some: "coherent c m \<Longrightarrow> look c k = Some v \<Longrightarrow> m k = Some v"
  by (auto simp: coherent_def map_le_def dom_def)

lemma coherent_get:
  assumes "coherent c m" "cget k c = (r, c')"
  shows "coherent c' m \<and> (\<forall>v. r = Some v \<longrightarrow> m k = Some v)"
  using assms get_value [of c k] get_look [of c k] get_inv [of c k]
  by (auto simp: coherent_def map_le_def dom_def)

lemma coherent_put:
  assumes "coherent c m"
  shows "coherent (cput k v c) (m(k \<mapsto> v))"
proof -
  have "look (cput k v c) \<subseteq>\<^sub>m (look c)(k \<mapsto> v)" "(look c)(k \<mapsto> v) \<subseteq>\<^sub>m m(k \<mapsto> v)"
    using assms put_le by (auto simp: coherent_def intro: map_le_upd)
  then show ?thesis using assms put_inv by (auto simp: coherent_def intro: map_le_trans)
qed

lemma coherent_put_same: "coherent c m \<Longrightarrow> m k = Some v \<Longrightarrow> coherent (cput k v c) m"
  using coherent_put [of c m k v] by (simp add: map_upd_triv)

text \<open>Rewriting cached entries in place never evicts one.\<close>

lemma rewrite_entries:
  assumes "cinv c" "distinct (map fst kvs)" "\<forall>(k, v) \<in> set kvs. look c k = Some v \<and> key v = k"
  shows "cinv (fold (\<lambda>(k, v) c. if P v then cput (key v) (f v) c else c) kvs c) \<and>
    look (fold (\<lambda>(k, v) c. if P v then cput (key v) (f v) c else c) kvs c) =
      (\<lambda>k. case map_of kvs k of Some v \<Rightarrow> Some (if P v then f v else v) | None \<Rightarrow> look c k)"
  using assms
proof (induction kvs arbitrary: c)
  case (Cons kv kvs)
  obtain k v where kv: "kv = (k, v)" by (cases kv)
  define c1 where "c1 = (if P v then cput (key v) (f v) c else c)"
  have k: "look c k = Some v" "key v = k" using Cons.prems(3) kv by auto
  have l1: "look c1 = (if P v then (look c)(k \<mapsto> f v) else look c)" and i1: "cinv c1"
    using Cons.prems(1) k put_hit [of c k "f v"] put_inv [of c k "f v"] by (auto simp: c1_def)
  have fresh: "k \<notin> fst ` set kvs" using Cons.prems(2) kv by simp
  have "\<forall>(k, v) \<in> set kvs. look c1 k = Some v \<and> key v = k"
    using Cons.prems(3) fresh by (force simp: l1)
  then have IH: "cinv (fold (\<lambda>(k, v) c. if P v then cput (key v) (f v) c else c) kvs c1)"
    "look (fold (\<lambda>(k, v) c. if P v then cput (key v) (f v) c else c) kvs c1) =
      (\<lambda>k. case map_of kvs k of Some v \<Rightarrow> Some (if P v then f v else v) | None \<Rightarrow> look c1 k)"
    using Cons.IH [OF i1] Cons.prems(2) by auto
  have "map_of kvs k = None" using fresh by (simp add: map_of_eq_None_iff)
  then have "(\<lambda>k'. case map_of kvs k' of Some v \<Rightarrow> Some (if P v then f v else v) | None \<Rightarrow> look c1 k') =
    (\<lambda>k'. case map_of (kv # kvs) k' of Some v \<Rightarrow> Some (if P v then f v else v) | None \<Rightarrow> look c k')"
    using k by (auto simp: l1 kv split: option.splits)
  then show ?case using IH by (simp add: kv c1_def)
qed simp

lemma remove_entries:
  assumes "cinv c" "distinct ks" "set ks \<subseteq> dom (look c)"
  shows "\<exists>c'. rfold cremove ks c = Inr c' \<and> cinv c' \<and> look c' = look c |` (- set ks)"
  using assms
proof (induction ks arbitrary: c)
  case (Cons k ks)
  obtain c1 where c1: "cremove k c = Inr c1" "look c1 = (look c)(k := None)" "cinv c1"
    using remove_hit [OF Cons.prems(1), of k] Cons.prems(3) by auto
  have "set ks \<subseteq> dom (look c1)" using Cons.prems(2,3) by (auto simp: c1(2))
  then obtain c' where "rfold cremove ks c1 = Inr c'" "cinv c'" "look c' = look c1 |` (- set ks)"
    using Cons.IH [OF c1(3)] Cons.prems(2) by auto
  moreover have "look c1 |` (- set ks) = look c |` (- set (k # ks))"
    by (auto simp: c1(2) restrict_map_def)
  ultimately show ?case using c1(1) by simp
qed (simp add: restrict_map_def)

end

section \<open>The LRU cache keeps the contract\<close>

lemma map_of_move_to_end [simp]: "map_of (move_to_end k d) = map_of d"
  by (auto simp: move_to_end_def map_add_def fun_eq_iff split: option.splits)

lemma set_dkeys_delete_image [simp]: "fst ` set (AList.delete k d) = fst ` set d - {k}"
  using set_dkeys_delete [of k d] by simp

lemma distinct_move_to_end [simp]: "distinct (dkeys d) \<Longrightarrow> distinct (dkeys (move_to_end k d))"
  by (simp add: move_to_end_def split: option.splits)

lemma length_delete: "distinct (dkeys d) \<Longrightarrow> din k d \<Longrightarrow> Suc (length (AList.delete k d)) = length d"
  by (induction d) (auto simp: din_def delete_Cons delete_fresh)

lemma length_move_to_end [simp]: "distinct (dkeys d) \<Longrightarrow> length (move_to_end k d) = length d"
  by (auto simp: move_to_end_def length_delete map_of_Some_din split: option.splits)

lemma map_of_tl_le: "distinct (dkeys d) \<Longrightarrow> map_of (tl d) \<subseteq>\<^sub>m map_of d"
  by (cases d) (auto simp: map_le_def dom_def map_of_eq_None_iff dest: map_of_SomeD, force dest: map_of_SomeD)

lemma LRUCache_put_hit:
  assumes "LRUCache_ok c" "din k (cache c)"
  shows "cache (LRUCache_put k v c) = move_to_end k (dput k v (cache c))"
  using assms by (simp add: LRUCache_ok_def LRUCache_put_def Let_def length_dput)

lemma LRUCache_put_ok: "LRUCache_ok c \<Longrightarrow> LRUCache_ok (LRUCache_put k v c)"
  by (auto simp: LRUCache_ok_def LRUCache_put_def Let_def length_dput distinct_tl map_tl)

interpretation lru: cache_spec LRUCache_look LRUCache_get LRUCache_put LRUCache_remove LRUCache_ok
proof
  fix c :: "('a, 'b) LRUCache" and k :: 'a and v :: 'b
  assume c: "LRUCache_ok c"
  then have d: "distinct (dkeys (cache c))" by (simp add: LRUCache_ok_def)
  show "fst (LRUCache_get k c) = LRUCache_look c k"
    by (auto simp: LRUCache_get_def LRUCache_look_def Let_def not_din_map_of)
  show "LRUCache_look (snd (LRUCache_get k c)) = LRUCache_look c"
    by (auto simp: LRUCache_get_def LRUCache_look_def Let_def)
  show "LRUCache_ok (snd (LRUCache_get k c))"
    using c d by (auto simp: LRUCache_get_def LRUCache_ok_def Let_def)
  show "LRUCache_ok (LRUCache_put k v c)" by (rule LRUCache_put_ok [OF c])
  have "distinct (dkeys (move_to_end k (dput k v (cache c))))" using d by simp
  from map_of_tl_le [OF this] show "LRUCache_look (LRUCache_put k v c) \<subseteq>\<^sub>m (LRUCache_look c)(k \<mapsto> v)"
    by (simp add: LRUCache_put_def LRUCache_look_def Let_def)
  show "LRUCache_look (LRUCache_put k v c) = (LRUCache_look c)(k \<mapsto> v)" if "k \<in> dom (LRUCache_look c)"
    using that LRUCache_put_hit [OF c, of k v] by (simp add: LRUCache_look_def din_map_of dom_def)
  show "\<exists>c'. LRUCache_remove k c = Inr c' \<and> LRUCache_look c' = (LRUCache_look c)(k := None) \<and> LRUCache_ok c'"
    if "k \<in> dom (LRUCache_look c)"
  proof -
    have "din k (cache c)" using that by (simp add: LRUCache_look_def din_map_of dom_def)
    then show ?thesis
      using c d length_delete [OF d, of k] by (simp add: LRUCache_remove_def LRUCache_look_def LRUCache_ok_def)
  qed
  show "LRUCache_remove k c = Inl KeyError" if "k \<notin> dom (LRUCache_look c)"
    using that by (simp add: LRUCache_remove_def LRUCache_look_def ddel_def din_map_of domIff map_of_eq_None_iff)
qed

text \<open>A full cache that takes in a new key drops the least recently used one, and only that one.\<close>

lemma LRUCache_put_evicts:
  assumes "LRUCache_ok c" "\<not> din k (cache c)" "int (length (cache c)) = capacity c" "0 < capacity c"
  shows "cache (LRUCache_put k v c) = tl (cache c) @ [(k, v)]"
proof -
  have m: "map_of (cache c) k = None" using assms(2) by (simp add: not_din_map_of)
  have "AList.delete k (cache c @ [(k, v)]) = cache c"
    using assms(2) by (force simp: AList.delete_eq din_def filter_id_conv)
  then have "move_to_end k (dput k v (cache c)) = cache c @ [(k, v)]"
    using assms(2) m by (simp add: dput_fresh move_to_end_def map_add_def)
  then show ?thesis using assms(3,4) by (cases "cache c") (auto simp: LRUCache_put_def Let_def)
qed

end
