(* ===== verification/CoinStore.thy ===== *)
theory CoinStore
  imports Coins LruCache
begin

text \<open>
  \<^verbatim>\<open>hddcoin/full_node/coin_store.py\<close>: the database of coin records of the peak, with the cache in front of it.
  The table \<^verbatim>\<open>coin_record\<close> is the list of its rows in insertion order, with the columns as stored: texts
  are hexadecimal, the amount is a blob of eight bytes. Each SQL statement of the source is a definition on
  that list; \<^verbatim>\<open>INSERT\<close> raises on a duplicate primary key (\<open>DbError\<close>), \<^verbatim>\<open>UPDATE\<close> of a missing key changes
  nothing. The contents of a store are the map \<open>coin_view\<close>; the lemmas show that every operation acts on
  this map as intended, whatever the cache holds.
\<close>

section \<open>Hexadecimal text\<close>

definition hex_value :: "int \<Rightarrow> int option" where
  "hex_value c =
     (if 48 \<le> c \<and> c \<le> 57 then Some (c - 48) else if 97 \<le> c \<and> c \<le> 102 then Some (c - 87)
      else if 65 \<le> c \<and> c \<le> 70 then Some (c - 55) else None)"

text \<open>\<^verbatim>\<open>bytes.fromhex\<close> skips ASCII white space between bytes.\<close>

fun bytes_fromhex :: "int list \<Rightarrow> bytes res" where
  "bytes_fromhex [] = Inr []"
| "bytes_fromhex [c] = (if c \<in> {9, 10, 11, 12, 13, 32} then Inr [] else Inl ValueError)"
| "bytes_fromhex (c # d # cs) =
     (if c \<in> {9, 10, 11, 12, 13, 32} then bytes_fromhex (d # cs)
      else case hex_value c of
          None \<Rightarrow> Inl ValueError
        | Some x \<Rightarrow>
            (case hex_value d of
               None \<Rightarrow> Inl ValueError
             | Some y \<Rightarrow> rbind (bytes_fromhex cs) (\<lambda>bs. Inr (word_of_int (x * 16 + y) # bs))))"

lemma hex_digit_value: "0 \<le> d \<Longrightarrow> d < 16 \<Longrightarrow> hex_value (hex_digit d) = Some d \<and> hex_digit d \<notin> {9, 10, 11, 12, 13, 32}"
  by (auto simp: hex_value_def hex_digit_def)

lemma bytes_hex_Cons: "bytes_hex (b # bs) = hex_digit (uint b div 16) # hex_digit (uint b mod 16) # bytes_hex bs"
  by (simp add: bytes_hex_def)

lemma bytes_fromhex_hex: "bytes_fromhex (bytes_hex bs) = Inr bs"
proof (induction bs)
  case (Cons b bs)
  have "0 \<le> uint b div 16" "uint b div 16 < 16" "0 \<le> uint b mod 16" "uint b mod 16 < 16"
    using uint_byte_bounds [of b] by (auto simp: pos_imp_zdiv_nonneg_iff)
  note h = hex_digit_value [OF this(1,2)] hex_digit_value [OF this(3,4)]
  have "uint b div 16 * 16 + uint b mod 16 = uint b" by simp
  then show ?case using h Cons.IH by (simp add: bytes_hex_Cons)
qed (simp add: bytes_hex_def)

lemma bytes_hex_inject [simp]: "bytes_hex a = bytes_hex b \<longleftrightarrow> a = b"
  by (metis bytes_fromhex_hex sum.inject(2))

section \<open>Records and rows\<close>

record CoinRecord =
  coin :: Coin
  confirmed_block_index :: int
  spent_block_index :: int
  spent :: bool
  coinbase :: bool
  timestamp :: int

definition CoinRecord_name :: "crypto \<Rightarrow> CoinRecord \<Rightarrow> bytes" where
  "CoinRecord_name E self = Coin_name E (coin self)"

record CoinState =
  cs_coin :: Coin
  spent_height :: "int option"
  created_height :: "int option"

definition CoinRecord_coin_state :: "CoinRecord \<Rightarrow> CoinState" where
  "CoinRecord_coin_state self =
     \<lparr> cs_coin = coin self,
       spent_height = (if spent self then Some (spent_block_index self) else None),
       created_height =
         (if confirmed_block_index self = 0 \<and> timestamp self = 0 then None else Some (confirmed_block_index self)) \<rparr>"

text \<open>A row of the table; \<^verbatim>\<open>row[0]\<close> to \<^verbatim>\<open>row[8]\<close> are its fields.\<close>

record coin_row =
  row_coin_name :: "int list"
  row_confirmed_index :: int
  row_spent_index :: int
  row_spent :: int
  row_coinbase :: int
  row_puzzle_hash :: "int list"
  row_coin_parent :: "int list"
  row_amount :: bytes
  row_timestamp :: int

record CoinStore =
  coin_record_db :: "coin_row list"
  coin_record_cache :: "(bytes, CoinRecord) LRUCache"

definition CoinStore_create :: "coin_row list \<Rightarrow> int \<Rightarrow> CoinStore" where
  "CoinStore_create db cache_size = \<lparr> coin_record_db = db, coin_record_cache = LRUCache_init cache_size \<rparr>"

definition row_to_coin :: "coin_row \<Rightarrow> Coin res" where
  "row_to_coin row =
     rbind (bytes_fromhex (row_coin_parent row)) (\<lambda>p. rbind (bytes32 p) (\<lambda>p.
     rbind (bytes_fromhex (row_puzzle_hash row)) (\<lambda>q. rbind (bytes32 q) (\<lambda>q.
     rbind (StructStream_from_bytes FMT_Q (row_amount row)) (\<lambda>a.
       Inr \<lparr> parent_coin_info = p, puzzle_hash = q, amount = a \<rparr>)))))"

text \<open>\<^verbatim>\<open>CoinRecord(coin, row[1], row[2], row[3], row[4], row[8])\<close>, an expression all queries share.\<close>

definition row_to_record :: "coin_row \<Rightarrow> CoinRecord res" where
  "row_to_record row =
     rbind (row_to_coin row) (\<lambda>c.
       Inr \<lparr> coin = c, confirmed_block_index = row_confirmed_index row, spent_block_index = row_spent_index row,
             spent = (row_spent row \<noteq> 0), coinbase = (row_coinbase row \<noteq> 0), timestamp = row_timestamp row \<rparr>)"

definition row_to_coin_state :: "coin_row \<Rightarrow> CoinState res" where
  "row_to_coin_state row =
     rbind (row_to_coin row) (\<lambda>c.
       Inr \<lparr> cs_coin = c, spent_height = (if row_spent row \<noteq> 0 then Some (row_spent_index row) else None),
             created_height = Some (row_confirmed_index row) \<rparr>)"

definition of_bool_int :: "bool \<Rightarrow> int" where
  "of_bool_int b = (if b then 1 else 0)"

text \<open>The tuple that \<^verbatim>\<open>_add_coin_records\<close> appends to \<^verbatim>\<open>values\<close>.\<close>

definition record_values :: "crypto \<Rightarrow> CoinRecord \<Rightarrow> coin_row res" where
  "record_values E r =
     rbind (StructStream_stream FMT_Q (amount (coin r))) (\<lambda>blob.
       Inr \<lparr> row_coin_name = bytes_hex (CoinRecord_name E r), row_confirmed_index = confirmed_block_index r,
             row_spent_index = spent_block_index r, row_spent = of_bool_int (spent r), row_coinbase = of_bool_int (coinbase r),
             row_puzzle_hash = bytes_hex (puzzle_hash (coin r)), row_coin_parent = bytes_hex (parent_coin_info (coin r)),
             row_amount = blob, row_timestamp = timestamp r \<rparr>)"

section \<open>Operations\<close>

definition insert_row :: "coin_row \<Rightarrow> coin_row list \<Rightarrow> coin_row list res" where
  "insert_row row db = (if row_coin_name row \<in> row_coin_name ` set db then Inl DbError else Inr (db @ [row]))"

definition add_coin_records :: "crypto \<Rightarrow> CoinRecord list \<Rightarrow> CoinStore \<Rightarrow> CoinStore res" where
  "add_coin_records E records self =
     rbind (rfold (\<lambda>r (c, values). rbind (record_values E r) (\<lambda>row. Inr (LRUCache_put (CoinRecord_name E r) r c, values @ [row])))
              records (coin_record_cache self, [])) (\<lambda>(c, values).
     rbind (rfold insert_row values (coin_record_db self)) (\<lambda>db.
       Inr \<lparr> coin_record_db = db, coin_record_cache = c \<rparr>))"

text \<open>\<^verbatim>\<open>UPDATE OR FAIL coin_record SET spent=1,spent_index=? WHERE coin_name=?\<close>.\<close>

definition update_spent :: "int \<Rightarrow> bytes \<Rightarrow> coin_row list \<Rightarrow> coin_row list" where
  "update_spent index coin_name =
     map (\<lambda>row. if row_coin_name row = bytes_hex coin_name then row\<lparr>row_spent := 1, row_spent_index := index\<rparr> else row)"

definition set_spent_cache :: "crypto \<Rightarrow> int \<Rightarrow> bytes \<Rightarrow> (bytes, CoinRecord) LRUCache \<Rightarrow> (bytes, CoinRecord) LRUCache" where
  "set_spent_cache E index coin_name c =
     (case LRUCache_get coin_name c of (r, c1) \<Rightarrow>
        case r of None \<Rightarrow> c1
        | Some r \<Rightarrow> LRUCache_put (CoinRecord_name E r) (r\<lparr>spent_block_index := index, spent := True\<rparr>) c1)"

definition set_spent :: "crypto \<Rightarrow> bytes list \<Rightarrow> int \<Rightarrow> CoinStore \<Rightarrow> CoinStore" where
  "set_spent E coin_names index self =
     \<lparr> coin_record_db = fold (update_spent index) coin_names (coin_record_db self),
       coin_record_cache = fold (set_spent_cache E index) coin_names (coin_record_cache self) \<rparr>"

text \<open>The set of reward coins is given as the list of its elements in the order of iteration.\<close>

definition new_coin_record :: "int \<Rightarrow> int \<Rightarrow> bool \<Rightarrow> Coin \<Rightarrow> CoinRecord" where
  "new_coin_record h ts cb c =
     \<lparr> coin = c, confirmed_block_index = h, spent_block_index = 0, spent = False, coinbase = cb, timestamp = ts \<rparr>"

definition new_block ::
  "crypto \<Rightarrow> int \<Rightarrow> int \<Rightarrow> Coin list \<Rightarrow> Coin list \<Rightarrow> bytes list \<Rightarrow> CoinStore \<Rightarrow> (CoinRecord list \<times> CoinStore) res" where
  "new_block E h ts included_reward_coins tx_additions tx_removals self =
     (let additions = map (new_coin_record h ts False) tx_additions
      in rassert (if h = 0 then length included_reward_coins = 0 else length included_reward_coins \<ge> 2)
        (let additions = additions @ map (new_coin_record h ts True) included_reward_coins
         in rbind (add_coin_records E additions self) (\<lambda>self. Inr (additions, set_spent E tx_removals h self))))"

definition get_coin_record :: "crypto \<Rightarrow> bytes \<Rightarrow> CoinStore \<Rightarrow> (CoinRecord option \<times> CoinStore) res" where
  "get_coin_record E coin_name self =
     (case LRUCache_get coin_name (coin_record_cache self) of (cached, c) \<Rightarrow>
        case cached of
          Some r \<Rightarrow> Inr (Some r, self\<lparr>coin_record_cache := c\<rparr>)
        | None \<Rightarrow>
            (case List.find (\<lambda>row. row_coin_name row = bytes_hex coin_name) (coin_record_db self) of
               None \<Rightarrow> Inr (None, self\<lparr>coin_record_cache := c\<rparr>)
             | Some row \<Rightarrow>
                 rbind (row_to_record row) (\<lambda>r.
                   Inr (Some r, self\<lparr>coin_record_cache := LRUCache_put (CoinRecord_name E r) r c\<rparr>))))"

definition get_coins_added_at_height :: "int \<Rightarrow> CoinStore \<Rightarrow> CoinRecord list res" where
  "get_coins_added_at_height h self = rmap row_to_record (filter (\<lambda>row. row_confirmed_index row = h) (coin_record_db self))"

definition get_coins_removed_at_height :: "int \<Rightarrow> CoinStore \<Rightarrow> CoinRecord list res" where
  "get_coins_removed_at_height h self =
     (if h = 0 then Inr []
      else rmap row_to_record
             (filter (\<lambda>row. row_spent row \<noteq> 0) (filter (\<lambda>row. row_spent_index row = h) (coin_record_db self))))"

text \<open>
  The clause \<^verbatim>\<open>AND confirmed_index>=? AND confirmed_index<?\<close> with the optional \<^verbatim>\<open>AND spent=0\<close>, and the rows
  that a query with it selects. Each result passes through a set: duplicates are dropped, the order is arbitrary.
\<close>

definition in_height_range :: "bool \<Rightarrow> int \<Rightarrow> int \<Rightarrow> coin_row \<Rightarrow> bool" where
  "in_height_range include_spent_coins start_height end_height row \<longleftrightarrow>
     start_height \<le> row_confirmed_index row \<and> row_confirmed_index row < end_height \<and> (include_spent_coins \<or> row_spent row = 0)"

definition get_coin_records_by_puzzle_hash :: "bool \<Rightarrow> bytes \<Rightarrow> int \<Rightarrow> int \<Rightarrow> CoinStore \<Rightarrow> CoinRecord list res" where
  "get_coin_records_by_puzzle_hash include_spent_coins ph start_height end_height self =
     rbind (rmap row_to_record
       (filter (\<lambda>row. row_puzzle_hash row = bytes_hex ph \<and> in_height_range include_spent_coins start_height end_height row)
          (coin_record_db self))) (\<lambda>coins. Inr (remdups coins))"

definition get_coin_records_by_puzzle_hashes :: "bool \<Rightarrow> bytes list \<Rightarrow> int \<Rightarrow> int \<Rightarrow> CoinStore \<Rightarrow> CoinRecord list res" where
  "get_coin_records_by_puzzle_hashes include_spent_coins puzzle_hashes start_height end_height self =
     (if length puzzle_hashes = 0 then Inr []
      else rbind (rmap row_to_record
        (filter (\<lambda>row. row_puzzle_hash row \<in> set (map bytes_hex puzzle_hashes) \<and>
             in_height_range include_spent_coins start_height end_height row)
           (coin_record_db self))) (\<lambda>coins. Inr (remdups coins)))"

definition get_coin_records_by_names :: "bool \<Rightarrow> bytes list \<Rightarrow> int \<Rightarrow> int \<Rightarrow> CoinStore \<Rightarrow> CoinRecord list res" where
  "get_coin_records_by_names include_spent_coins names start_height end_height self =
     (if length names = 0 then Inr []
      else rbind (rmap row_to_record
        (filter (\<lambda>row. row_coin_name row \<in> set (map bytes_hex names) \<and>
             in_height_range include_spent_coins start_height end_height row)
           (coin_record_db self))) (\<lambda>coins. Inr (remdups coins)))"

definition get_coin_states_by_puzzle_hashes :: "bool \<Rightarrow> bytes list \<Rightarrow> int \<Rightarrow> int \<Rightarrow> CoinStore \<Rightarrow> CoinState list res" where
  "get_coin_states_by_puzzle_hashes include_spent_coins puzzle_hashes start_height end_height self =
     (if length puzzle_hashes = 0 then Inr []
      else rbind (rmap row_to_coin_state
        (filter (\<lambda>row. row_puzzle_hash row \<in> set (map bytes_hex puzzle_hashes) \<and>
             in_height_range include_spent_coins start_height end_height row)
           (coin_record_db self))) (\<lambda>coins. Inr (remdups coins)))"

definition get_coin_records_by_parent_ids :: "bool \<Rightarrow> bytes list \<Rightarrow> int \<Rightarrow> int \<Rightarrow> CoinStore \<Rightarrow> CoinRecord list res" where
  "get_coin_records_by_parent_ids include_spent_coins parent_ids start_height end_height self =
     (if length parent_ids = 0 then Inr []
      else rbind (rmap row_to_record
        (filter (\<lambda>row. row_coin_parent row \<in> set (map bytes_hex parent_ids) \<and>
             in_height_range include_spent_coins start_height end_height row)
           (coin_record_db self))) (\<lambda>coins. Inr (remdups coins)))"

definition get_coin_state_by_ids :: "bool \<Rightarrow> bytes list \<Rightarrow> int \<Rightarrow> int \<Rightarrow> CoinStore \<Rightarrow> CoinState list res" where
  "get_coin_state_by_ids include_spent_coins coin_ids start_height end_height self =
     (if length coin_ids = 0 then Inr []
      else rbind (rmap row_to_coin_state
        (filter (\<lambda>row. row_coin_name row \<in> set (map bytes_hex coin_ids) \<and>
             in_height_range include_spent_coins start_height end_height row)
           (coin_record_db self))) (\<lambda>coins. Inr (remdups coins)))"

text \<open>\<^verbatim>\<open>rollback_to_block\<close>: first the cache, then the report of changes, then the table.\<close>

definition unspend :: "CoinRecord \<Rightarrow> CoinRecord" where
  "unspend r = r\<lparr>spent_block_index := 0, spent := False\<rparr>"

definition rollback_cache :: "crypto \<Rightarrow> int \<Rightarrow> (bytes, CoinRecord) LRUCache \<Rightarrow> (bytes, CoinRecord) LRUCache res" where
  "rollback_cache E block_index c =
     (let items = cache c;
          c = fold (\<lambda>(n, r) c. if spent_block_index r > block_index then LRUCache_put (CoinRecord_name E r) (unspend r) c else c) items c;
          delete_queue = map fst (filter (\<lambda>(n, r). confirmed_block_index r > block_index) items)
      in rfold LRUCache_remove delete_queue c)"

definition rollback_to_block :: "crypto \<Rightarrow> int \<Rightarrow> CoinStore \<Rightarrow> (CoinRecord list \<times> CoinStore) res" where
  "rollback_to_block E block_index self =
     rbind (rollback_cache E block_index (coin_record_cache self)) (\<lambda>c.
     let db = coin_record_db self in
     rbind (rfold (\<lambda>row ch. rbind (row_to_record row) (\<lambda>r.
                let r = r\<lparr>confirmed_block_index := 0, timestamp := 0\<rparr> in Inr (dput (CoinRecord_name E r) r ch)))
              (filter (\<lambda>row. row_confirmed_index row > block_index) db) []) (\<lambda>coin_changes.
     let db = filter (\<lambda>row. \<not> row_confirmed_index row > block_index) db in
     rbind (rfold (\<lambda>row ch. rbind (row_to_record row) (\<lambda>r.
                let r = unspend r
                in Inr (if din (CoinRecord_name E r) ch then ch else dput (CoinRecord_name E r) r ch)))
              (filter (\<lambda>row. row_confirmed_index row > block_index) db) coin_changes) (\<lambda>coin_changes.
     let db = map (\<lambda>row. if row_spent_index row > block_index then row\<lparr>row_spent_index := 0, row_spent := 0\<rparr> else row) db in
     Inr (dvalues coin_changes, \<lparr> coin_record_db = db, coin_record_cache = c \<rparr>))))"

section \<open>Hints\<close>

text \<open>\<^verbatim>\<open>hddcoin/full_node/hint_store.py\<close>: the table \<^verbatim>\<open>hints\<close> with rows \<^verbatim>\<open>(id, coin_id, hint)\<close>; \<^verbatim>\<open>AUTOINCREMENT\<close> ids never repeat.\<close>

record HintStore =
  hints :: "(int \<times> bytes \<times> bytes) list"
  hint_sequence :: int

definition get_coin_ids :: "bytes \<Rightarrow> HintStore \<Rightarrow> bytes list" where
  "get_coin_ids hint self = map (\<lambda>(i, coin_id, h). coin_id) (filter (\<lambda>(i, coin_id, h). h = hint) (hints self))"

definition add_hints :: "(bytes \<times> bytes) list \<Rightarrow> HintStore \<Rightarrow> HintStore" where
  "add_hints coin_hint_list self =
     fold (\<lambda>(coin_id, hint) self.
        self\<lparr>hints := hints self @ [(hint_sequence self + 1, coin_id, hint)], hint_sequence := hint_sequence self + 1\<rparr>)
       coin_hint_list self"

lemma get_coin_ids_add_hints:
  "get_coin_ids hint (add_hints l self) = get_coin_ids hint self @ map fst (filter (\<lambda>(coin_id, h). h = hint) l)"
proof (induction l arbitrary: self)
  case (Cons p l)
  obtain c h where p: "p = (c, h)" by (cases p)
  let ?s = "self\<lparr>hints := hints self @ [(hint_sequence self + 1, c, h)], hint_sequence := hint_sequence self + 1\<rparr>"
  have "add_hints (p # l) self = add_hints l ?s" by (simp add: add_hints_def p)
  moreover have "get_coin_ids hint ?s = get_coin_ids hint self @ (if h = hint then [c] else [])"
    by (simp add: get_coin_ids_def)
  ultimately show ?case using Cons.IH [of ?s] by (simp add: p)
qed (simp add: add_hints_def)

section \<open>Contents of a store\<close>

definition coin_view :: "CoinStore \<Rightarrow> bytes \<Rightarrow> CoinRecord option" where
  "coin_view self n =
     (case List.find (\<lambda>row. row_coin_name row = bytes_hex n) (coin_record_db self) of
        None \<Rightarrow> None
      | Some row \<Rightarrow> (case row_to_record row of Inl _ \<Rightarrow> None | Inr r \<Rightarrow> Some r))"

definition Coin_wf :: "Coin \<Rightarrow> bool" where
  "Coin_wf c \<longleftrightarrow> length (parent_coin_info c) = 32 \<and> length (puzzle_hash c) = 32 \<and> 0 \<le> amount c \<and> amount c < 2 ^ 64"

definition row_of :: "crypto \<Rightarrow> CoinRecord \<Rightarrow> coin_row" where
  "row_of E r =
     \<lparr> row_coin_name = bytes_hex (CoinRecord_name E r), row_confirmed_index = confirmed_block_index r,
       row_spent_index = spent_block_index r, row_spent = of_bool_int (spent r), row_coinbase = of_bool_int (coinbase r),
       row_puzzle_hash = bytes_hex (puzzle_hash (coin r)), row_coin_parent = bytes_hex (parent_coin_info (coin r)),
       row_amount = be_bytes 8 (amount (coin r)), row_timestamp = timestamp r \<rparr>"

definition record_view :: "crypto \<Rightarrow> CoinRecord list \<Rightarrow> bytes \<Rightarrow> CoinRecord option" where
  "record_view E rs = map_of (map (\<lambda>r. (CoinRecord_name E r, r)) rs)"

text \<open>The table holds the records \<open>rs\<close>, each under its own name, and the cache agrees with it.\<close>

definition store_rel :: "crypto \<Rightarrow> CoinRecord list \<Rightarrow> CoinStore \<Rightarrow> bool" where
  "store_rel E rs self \<longleftrightarrow>
     coin_record_db self = map (row_of E) rs \<and> (\<forall>r \<in> set rs. Coin_wf (coin r)) \<and>
     distinct (map (CoinRecord_name E) rs) \<and> lru.coherent (coin_record_cache self) (record_view E rs)"

definition store_ok :: "crypto \<Rightarrow> CoinStore \<Rightarrow> bool" where
  "store_ok E self \<longleftrightarrow> (\<exists>rs. store_rel E rs self)"

lemma store_okE:
  assumes "store_ok E self"
  obtains rs where "store_rel E rs self"
  using assms by (auto simp: store_ok_def)

lemma row_of_simps [simp]:
  "row_coin_name (row_of E r) = bytes_hex (CoinRecord_name E r)"
  "row_confirmed_index (row_of E r) = confirmed_block_index r" "row_spent_index (row_of E r) = spent_block_index r"
  "row_spent (row_of E r) = of_bool_int (spent r)" "row_puzzle_hash (row_of E r) = bytes_hex (puzzle_hash (coin r))"
  "row_coin_parent (row_of E r) = bytes_hex (parent_coin_info (coin r))"
  by (simp_all add: row_of_def)

lemma of_bool_int_nonzero [simp]: "(of_bool_int b \<noteq> 0) = b" "(of_bool_int b = 0) = (\<not> b)"
  by (simp_all add: of_bool_int_def)

lemma record_values_row: "Coin_wf (coin r) \<Longrightarrow> record_values E r = Inr (row_of E r)"
  by (simp add: record_values_def row_of_def Coin_wf_def StructStream_stream_def struct_pack_eq)

lemma row_to_coin_row: "Coin_wf (coin r) \<Longrightarrow> row_to_coin (row_of E r) = Inr (coin r)"
  using StructStream_parse_stream(2) [of FMT_Q "amount (coin r)" "[]"]
  by (simp add: row_to_coin_def Coin_wf_def bytes_fromhex_hex bytes32_def sized_bytes_new_def row_of_def
      StructStream_from_bytes_def StructStream_stream_def struct_pack_eq)

text \<open>Storing a record and reading it back is the identity.\<close>

lemma row_to_record_row: "Coin_wf (coin r) \<Longrightarrow> row_to_record (row_of E r) = Inr r"
  by (simp add: row_to_record_def row_to_coin_row) (simp add: row_of_def)

lemma rmap_row_to_record: "\<forall>r \<in> set rs. Coin_wf (coin r) \<Longrightarrow> rmap row_to_record (map (row_of E) rs) = Inr rs"
  by (induction rs) (simp_all add: row_to_record_row)

lemma find_row: "List.find (\<lambda>row. row_coin_name row = bytes_hex n) (map (row_of E) rs) = map_option (row_of E) (record_view E rs n)"
  by (induction rs) (auto simp: record_view_def)

lemma record_view_in: "record_view E rs n = Some r \<Longrightarrow> r \<in> set rs \<and> CoinRecord_name E r = n"
  by (auto simp: record_view_def dest: map_of_SomeD)

lemma record_view_Some_iff:
  "distinct (map (CoinRecord_name E) rs) \<Longrightarrow> record_view E rs n = Some r \<longleftrightarrow> r \<in> set rs \<and> CoinRecord_name E r = n"
  by (auto simp: record_view_def comp_def image_iff)

lemma record_view_None_iff: "record_view E rs n = None \<longleftrightarrow> n \<notin> CoinRecord_name E ` set rs"
  by (auto simp: record_view_def map_of_eq_None_iff image_iff)

lemma coin_view_rel: "store_rel E rs self \<Longrightarrow> coin_view self = record_view E rs"
  by (auto simp: coin_view_def store_rel_def find_row fun_eq_iff row_to_record_row dest: record_view_in split: option.splits)

text \<open>Looking a coin up answers from the table, whatever the cache holds, and changes the cache at most.\<close>

lemma get_coin_record_rel:
  assumes "store_rel E rs self"
  shows "\<exists>self'. get_coin_record E n self = Inr (record_view E rs n, self') \<and> store_rel E rs self'"
proof -
  obtain r c where g: "LRUCache_get n (coin_record_cache self) = (r, c)" by force
  from lru.coherent_get [OF _ this] assms have c: "lru.coherent c (record_view E rs)" "\<forall>v. r = Some v \<longrightarrow> record_view E rs n = Some v"
    by (auto simp: store_rel_def)
  show ?thesis
  proof (cases r)
    case (Some v)
    then show ?thesis using assms c by (auto simp: get_coin_record_def g store_rel_def)
  next
    case None
    show ?thesis
    proof (cases "record_view E rs n")
      case v: None
      then show ?thesis using assms c None by (auto simp: get_coin_record_def g store_rel_def find_row)
    next
      case (Some v)
      then have "v \<in> set rs" "CoinRecord_name E v = n" by (auto dest: record_view_in)
      then show ?thesis
        using assms c None Some by (auto simp: get_coin_record_def g store_rel_def find_row row_to_record_row intro: lru.coherent_put_same)
    qed
  qed
qed

subsection \<open>Adding records\<close>

lemma insert_rows:
  assumes "distinct (map (CoinRecord_name E) rs)"
  shows "rfold insert_row (map (row_of E) new) (map (row_of E) rs) =
    (if distinct (map (CoinRecord_name E) (rs @ new)) then Inr (map (row_of E) (rs @ new)) else Inl DbError)"
  using assms
proof (induction new arbitrary: rs)
  case (Cons r new)
  have i: "insert_row (row_of E r) (map (row_of E) rs) =
    (if CoinRecord_name E r \<in> CoinRecord_name E ` set rs then Inl DbError else Inr (map (row_of E) (rs @ [r])))"
    by (auto simp: insert_row_def image_iff)
  show ?case
  proof (cases "CoinRecord_name E r \<in> CoinRecord_name E ` set rs")
    case True
    then show ?thesis using i by auto
  next
    case False
    then have "distinct (map (CoinRecord_name E) (rs @ [r]))" using Cons.prems by simp
    from Cons.IH [OF this] False i show ?thesis by simp
  qed
qed simp

lemma add_values:
  assumes "\<forall>r \<in> set new. Coin_wf (coin r)"
  shows "rfold (\<lambda>r (c, values). rbind (record_values E r) (\<lambda>row. Inr (LRUCache_put (CoinRecord_name E r) r c, values @ [row])))
    new (c, values) = Inr (fold (\<lambda>r. LRUCache_put (CoinRecord_name E r) r) new c, values @ map (row_of E) new)"
  using assms by (induction new arbitrary: c "values") (simp_all add: record_values_row)

lemma record_view_snoc:
  "CoinRecord_name E r \<notin> CoinRecord_name E ` set rs \<Longrightarrow> record_view E (rs @ [r]) = (record_view E rs)(CoinRecord_name E r \<mapsto> r)"
  by (induction rs) (auto simp: record_view_def)

lemma coherent_add_records:
  assumes "lru.coherent c (record_view E rs)" "distinct (map (CoinRecord_name E) (rs @ new))"
  shows "lru.coherent (fold (\<lambda>r. LRUCache_put (CoinRecord_name E r) r) new c) (record_view E (rs @ new))"
  using assms
proof (induction new arbitrary: rs c)
  case (Cons r new)
  have "lru.coherent (LRUCache_put (CoinRecord_name E r) r c) (record_view E (rs @ [r]))"
    using lru.coherent_put [OF Cons.prems(1)] Cons.prems(2) by (subst record_view_snoc) auto
  from Cons.IH [OF this] Cons.prems(2) show ?case by simp
qed simp

lemma add_coin_records_rel:
  assumes "store_rel E rs self" "\<forall>r \<in> set new. Coin_wf (coin r)"
  shows "if distinct (map (CoinRecord_name E) (rs @ new))
    then \<exists>self'. add_coin_records E new self = Inr self' \<and> store_rel E (rs @ new) self'
    else add_coin_records E new self = Inl DbError"
proof -
  have d: "distinct (map (CoinRecord_name E) rs)" and db: "coin_record_db self = map (row_of E) rs"
    using assms(1) by (auto simp: store_rel_def)
  have "add_coin_records E new self =
    (if distinct (map (CoinRecord_name E) (rs @ new))
     then Inr \<lparr> coin_record_db = map (row_of E) (rs @ new),
                coin_record_cache = fold (\<lambda>r. LRUCache_put (CoinRecord_name E r) r) new (coin_record_cache self) \<rparr>
     else Inl DbError)"
    by (simp add: add_coin_records_def add_values [OF assms(2)] db insert_rows [OF d])
  then show ?thesis
    using assms coherent_add_records [of "coin_record_cache self" E rs new] by (auto simp: store_rel_def)
qed

subsection \<open>Spending\<close>

definition spend :: "int \<Rightarrow> CoinRecord \<Rightarrow> CoinRecord" where
  "spend h r = r\<lparr>spent_block_index := h, spent := True\<rparr>"

definition spend_names :: "crypto \<Rightarrow> int \<Rightarrow> bytes set \<Rightarrow> CoinRecord \<Rightarrow> CoinRecord" where
  "spend_names E h ns r = (if CoinRecord_name E r \<in> ns then spend h r else r)"

lemma coin_spend [simp]: "coin (spend h r) = coin r" "coin (spend_names E h ns r) = coin r"
  by (simp_all add: spend_def spend_names_def)

lemma name_spend [simp]: "CoinRecord_name E (spend h r) = CoinRecord_name E r" "CoinRecord_name E (spend_names E h ns r) = CoinRecord_name E r"
  by (simp_all add: CoinRecord_name_def)

lemma record_view_map:
  "(\<And>r. CoinRecord_name E (f r) = CoinRecord_name E r) \<Longrightarrow> record_view E (map f rs) n = map_option f (record_view E rs n)"
  by (induction rs) (auto simp: record_view_def)

lemma update_spent_rows: "update_spent h n (map (row_of E) rs) = map (row_of E) (map (spend_names E h {n}) rs)"
  by (auto simp: update_spent_def spend_names_def spend_def CoinRecord_name_def row_of_def of_bool_int_def)

lemma coherent_set_spent:
  assumes "lru.coherent c (record_view E rs)"
  shows "lru.coherent (set_spent_cache E h n c) (record_view E (map (spend_names E h {n}) rs))"
proof -
  obtain r c1 where g: "LRUCache_get n c = (r, c1)" by force
  from lru.coherent_get [OF assms this] have c1: "lru.coherent c1 (record_view E rs)" "\<forall>v. r = Some v \<longrightarrow> record_view E rs n = Some v"
    by auto
  have v: "record_view E (map (spend_names E h {n}) rs) = (\<lambda>k. map_option (spend_names E h {n}) (record_view E rs k))"
    by (simp add: record_view_map fun_eq_iff)
  have same: "record_view E (map (spend_names E h {n}) rs) k = record_view E rs k" if "k \<noteq> n" for k
    using that by (auto simp: v spend_names_def dest: record_view_in split: option.splits simp: map_option_case)
  show ?thesis
  proof (cases r)
    case None
    have "LRUCache_look c1 n = None"
      using None g lru.get_value [of c n] lru.get_look [of c n] assms by (simp add: lru.coherent_def)
    then have "LRUCache_look c1 \<subseteq>\<^sub>m record_view E (map (spend_names E h {n}) rs)"
      using c1(1) same unfolding lru.coherent_def map_le_def by (metis domIff)
    then show ?thesis using c1(1) None by (simp add: set_spent_cache_def g lru.coherent_def)
  next
    case (Some v)
    then have n: "record_view E rs n = Some v" "CoinRecord_name E v = n" using c1(2) by (auto dest: record_view_in)
    then have "record_view E (map (spend_names E h {n}) rs) = (record_view E rs)(n \<mapsto> spend h v)"
      using same by (auto simp: fun_eq_iff v spend_names_def)
    then show ?thesis
      using lru.coherent_put [OF c1(1), of n "spend h v"] Some n(2) by (simp add: set_spent_cache_def g spend_def)
  qed
qed

lemma map_spend_names:
  "map (spend_names E h ns) (map (spend_names E h ms) rs) = map (spend_names E h (ms \<union> ns)) rs"
  by (auto simp: spend_names_def CoinRecord_name_def spend_def)

lemma set_spent_rel:
  assumes "store_rel E rs self"
  shows "store_rel E (map (spend_names E h (set names)) rs) (set_spent E names h self)"
proof -
  have "fold (update_spent h) names (map (row_of E) (map (spend_names E h ms) rs)) =
        map (row_of E) (map (spend_names E h (ms \<union> set names)) rs) \<and>
      (lru.coherent c (record_view E (map (spend_names E h ms) rs)) \<longrightarrow>
       lru.coherent (fold (set_spent_cache E h) names c) (record_view E (map (spend_names E h (ms \<union> set names)) rs)))" for ms c
  proof (induction names arbitrary: ms c)
    case (Cons n names)
    have 1: "update_spent h n (map (row_of E) (map (spend_names E h ms) rs)) = map (row_of E) (map (spend_names E h (ms \<union> {n})) rs)"
      by (simp only: update_spent_rows map_spend_names)
    have 2: "lru.coherent (set_spent_cache E h n c) (record_view E (map (spend_names E h (ms \<union> {n})) rs))"
      if "lru.coherent c (record_view E (map (spend_names E h ms) rs))"
      using coherent_set_spent [OF that, of h n] by (simp only: map_spend_names)
    have "ms \<union> {n} \<union> set names = ms \<union> set (n # names)" by auto
    with Cons.IH [of "ms \<union> {n}" "set_spent_cache E h n c"] 1 2 show ?case by (simp only: fold_Cons comp_def) blast
  qed simp
  note all = this [of "{}" "coin_record_cache self"]
  have "map (spend_names E h {}) rs = rs" by (simp add: spend_names_def map_idI)
  moreover have "map (CoinRecord_name E) (map (spend_names E h (set names)) rs) = map (CoinRecord_name E) rs"
    by (simp add: comp_def)
  ultimately show ?thesis using all assms
    by (auto simp: store_rel_def set_spent_def simp del: map_map)
qed

definition reward_count_ok :: "int \<Rightarrow> Coin list \<Rightarrow> bool" where
  "reward_count_ok h rewards \<longleftrightarrow> (if h = 0 then rewards = [] else length rewards \<ge> 2)"

lemma new_block_rel:
  assumes "store_rel E rs self" "\<forall>c \<in> set (rewards @ adds). Coin_wf c"
    and "new = map (new_coin_record h ts False) adds @ map (new_coin_record h ts True) rewards"
  shows "if \<not> reward_count_ok h rewards then new_block E h ts rewards adds rems self = Inl AssertionError
    else if distinct (map (CoinRecord_name E) (rs @ new))
    then \<exists>self'. new_block E h ts rewards adds rems self = Inr (new, self') \<and>
        store_rel E (map (spend_names E h (set rems)) (rs @ new)) self'
    else new_block E h ts rewards adds rems self = Inl DbError"
proof -
  have wf: "\<forall>r \<in> set new. Coin_wf (coin r)" using assms(2) by (auto simp: assms(3) new_coin_record_def)
  have eq: "new_block E h ts rewards adds rems self =
    rassert (reward_count_ok h rewards)
      (rbind (add_coin_records E new self) (\<lambda>s. Inr (new, set_spent E rems h s)))"
    by (simp add: new_block_def assms(3) Let_def reward_count_ok_def)
  show ?thesis
  proof (cases "distinct (map (CoinRecord_name E) (rs @ new))")
    case True
    then obtain s where "add_coin_records E new self = Inr s" "store_rel E (rs @ new) s"
      using add_coin_records_rel [OF assms(1) wf] by auto
    with set_spent_rel [of E "rs @ new" s h rems] True show ?thesis by (auto simp: eq rassert_def)
  next
    case False
    then show ?thesis using add_coin_records_rel [OF assms(1) wf] by (auto simp: eq rassert_def)
  qed
qed

subsection \<open>Rolling back\<close>

definition unspend_above :: "int \<Rightarrow> CoinRecord \<Rightarrow> CoinRecord" where
  "unspend_above h r = (if spent_block_index r > h then unspend r else r)"

definition rolled_back :: "int \<Rightarrow> CoinRecord list \<Rightarrow> CoinRecord list" where
  "rolled_back h rs = map (unspend_above h) (filter (\<lambda>r. confirmed_block_index r \<le> h) rs)"

lemma unspend_above_simps [simp]:
  "coin (unspend_above h r) = coin r" "CoinRecord_name E (unspend_above h r) = CoinRecord_name E r"
  "confirmed_block_index (unspend_above h r) = confirmed_block_index r"
  by (simp_all add: unspend_above_def unspend_def CoinRecord_name_def)

lemma rollback_rows:
  "map (\<lambda>row. if row_spent_index row > h then row\<lparr>row_spent_index := 0, row_spent := 0\<rparr> else row)
     (filter (\<lambda>row. \<not> row_confirmed_index row > h) (map (row_of E) rs)) = map (row_of E) (rolled_back h rs)"
  by (induction rs) (auto simp: rolled_back_def unspend_above_def unspend_def row_of_def of_bool_int_def CoinRecord_name_def)

lemma record_view_rolled_back:
  assumes "distinct (map (CoinRecord_name E) rs)"
  shows "record_view E (rolled_back h rs) n =
    (case record_view E rs n of None \<Rightarrow> None | Some r \<Rightarrow> if confirmed_block_index r > h then None else Some (unspend_above h r))"
  using assms
proof (induction rs)
  case (Cons r rs)
  have "record_view E (rolled_back h rs) (CoinRecord_name E r) = None"
    using Cons.prems by (auto simp: record_view_None_iff rolled_back_def)
  then show ?case using Cons by (auto simp: rolled_back_def record_view_def split: option.splits)
qed (simp add: rolled_back_def record_view_def)

lemma rollback_cache_coherent:
  assumes "lru.coherent c (record_view E rs)" "distinct (map (CoinRecord_name E) rs)"
  shows "\<exists>c'. rollback_cache E h c = Inr c' \<and> lru.coherent c' (record_view E (rolled_back h rs))"
proof -
  let ?q = "map fst (filter (\<lambda>(n, r). confirmed_block_index r > h) (cache c))"
  define c1 where
    "c1 = fold (\<lambda>(n, r) c. if spent_block_index r > h then LRUCache_put (CoinRecord_name E r) (unspend r) c else c) (cache c) c"
  have ok: "LRUCache_ok c" using assms(1) by (simp add: lru.coherent_def)
  then have d: "distinct (dkeys (cache c))" by (simp add: LRUCache_ok_def)
  have keys: "\<forall>(k, v) \<in> set (cache c). LRUCache_look c k = Some v \<and> CoinRecord_name E v = k"
    using d lru.coherent_Some [OF assms(1)] by (auto simp: LRUCache_look_def distinct_map_of_iff dest!: record_view_in)
  from lru.rewrite_entries [OF ok d keys, of "\<lambda>r. spent_block_index r > h" unspend]
  have c1: "LRUCache_ok c1" "LRUCache_look c1 = (\<lambda>k. map_option (unspend_above h) (LRUCache_look c k))"
    by (auto simp: c1_def LRUCache_look_def unspend_above_def fun_eq_iff split: option.splits)
  have q: "distinct ?q" "set ?q \<subseteq> dom (LRUCache_look c1)"
    using d keys by (simp_all add: distinct_map_filter) (fastforce simp: c1(2))
  obtain c' where c': "rfold LRUCache_remove ?q c1 = Inr c'" "LRUCache_ok c'" "LRUCache_look c' = LRUCache_look c1 |` (- set ?q)"
    using lru.remove_entries [OF c1(1) q] by blast
  have in_q: "n \<in> set ?q \<longleftrightarrow> (\<exists>r. LRUCache_look c n = Some r \<and> confirmed_block_index r > h)" for n
    using d by (force simp: LRUCache_look_def distinct_map_of_iff)
  have "LRUCache_look c' \<subseteq>\<^sub>m record_view E (rolled_back h rs)"
    using lru.coherent_Some [OF assms(1)]
    by (auto simp: map_le_def c'(3) restrict_map_def in_q c1(2) record_view_rolled_back [OF assms(2)] simp del: set_map split: if_splits)
  then show ?thesis using c' by (simp add: rollback_cache_def c1_def Let_def lru.coherent_def)
qed

lemma rfold_report:
  assumes "\<forall>r \<in> set rs. Coin_wf (coin r)"
  shows "rfold (\<lambda>row ch. rbind (row_to_record row) (\<lambda>r.
      let r = r\<lparr>confirmed_block_index := 0, timestamp := 0\<rparr> in Inr (dput (CoinRecord_name E r) r ch))) (map (row_of E) rs) ch =
    Inr (fold (\<lambda>r. dput (CoinRecord_name E r) (r\<lparr>confirmed_block_index := 0, timestamp := 0\<rparr>)) rs ch)"
  using assms by (induction rs arbitrary: ch) (simp_all add: row_to_record_row Let_def CoinRecord_name_def)

lemma report_fresh:
  assumes "distinct (map (CoinRecord_name E) rs)" "\<forall>r \<in> set rs. \<not> din (CoinRecord_name E r) ch"
  shows "fold (\<lambda>r. dput (CoinRecord_name E r) (f r)) rs ch = ch @ map (\<lambda>r. (CoinRecord_name E r, f r)) rs"
  using assms
proof (induction rs arbitrary: ch)
  case (Cons r rs)
  then have "\<forall>q \<in> set rs. \<not> din (CoinRecord_name E q) (ch @ [(CoinRecord_name E r, f r)])"
    by (auto simp: din_def) (metis imageI)
  with Cons show ?case by (simp add: dput_fresh)
qed simp

lemma rollback_rel:
  assumes "store_rel E rs self"
  shows "\<exists>self'. rollback_to_block E h self =
      Inr (map (\<lambda>r. r\<lparr>confirmed_block_index := 0, timestamp := 0\<rparr>) (filter (\<lambda>r. confirmed_block_index r > h) rs), self') \<and>
    store_rel E (rolled_back h rs) self'"
proof -
  let ?gone = "filter (\<lambda>r. confirmed_block_index r > h) rs"
  have s: "coin_record_db self = map (row_of E) rs" "\<forall>r \<in> set rs. Coin_wf (coin r)" "distinct (map (CoinRecord_name E) rs)"
    "lru.coherent (coin_record_cache self) (record_view E rs)"
    using assms by (auto simp: store_rel_def)
  obtain c where c: "rollback_cache E h (coin_record_cache self) = Inr c" "lru.coherent c (record_view E (rolled_back h rs))"
    using rollback_cache_coherent [OF s(4,3)] by blast
  have 1: "filter (\<lambda>row. row_confirmed_index row > h) (map (row_of E) rs) = map (row_of E) ?gone"
    by (simp add: filter_map comp_def)
  have 2: "filter (\<lambda>row. row_confirmed_index row > h) (filter (\<lambda>row. \<not> row_confirmed_index row > h) (map (row_of E) rs)) = []"
    by (simp add: filter_empty_conv)
  have "distinct (map (CoinRecord_name E) ?gone)" using s(3) by (simp add: distinct_map_filter)
  then have 3: "fold (\<lambda>r. dput (CoinRecord_name E r) (r\<lparr>confirmed_block_index := 0, timestamp := 0\<rparr>)) ?gone [] =
      map (\<lambda>r. (CoinRecord_name E r, r\<lparr>confirmed_block_index := 0, timestamp := 0\<rparr>)) ?gone"
    by (subst report_fresh) (simp_all add: din_def)
  have 4: "\<forall>r \<in> set ?gone. Coin_wf (coin r)" using s(2) by simp
  have "rollback_to_block E h self =
    Inr (map (\<lambda>r. r\<lparr>confirmed_block_index := 0, timestamp := 0\<rparr>) ?gone,
         \<lparr> coin_record_db = map (row_of E) (rolled_back h rs), coin_record_cache = c \<rparr>)"
    unfolding rollback_to_block_def c(1) s(1) Let_def 1 rbind_Inr rfold_report [OF 4, unfolded Let_def] 2 rfold.simps rollback_rows 3
    by (simp add: comp_def)
  moreover have "distinct (map (CoinRecord_name E) (rolled_back h rs))"
    using s(3) by (simp add: rolled_back_def comp_def distinct_map_filter)
  moreover have "\<forall>r \<in> set (rolled_back h rs). Coin_wf (coin r)" using s(2) by (auto simp: rolled_back_def)
  ultimately show ?thesis using c(2) by (simp add: store_rel_def)
qed

section \<open>Properties\<close>

text \<open>
  C29. Looking a coin up always succeeds, answers with the record that the table holds under that name (or with nothing
  when it holds none) whatever the cache has evicted or kept, and leaves the contents of the store unchanged: the cached
  store refines the plain map from names to records.
\<close>

theorem get_coin_record_refines:
  assumes "store_ok E self"
  shows "\<exists>self'. get_coin_record E n self = Inr (coin_view self n, self') \<and> store_ok E self' \<and> coin_view self' = coin_view self"
proof -
  obtain rs where r: "store_rel E rs self" using assms by (rule store_okE)
  from get_coin_record_rel [OF this, of n] obtain self' where
    "get_coin_record E n self = Inr (record_view E rs n, self')" "store_rel E rs self'" by blast
  then show ?thesis using coin_view_rel [OF r] coin_view_rel [of E rs self'] by (auto simp: store_ok_def)
qed

text \<open>
  What a block at height \<open>h\<close> does to the contents: its coins appear unspent, and every coin it removes is marked as spent
  at \<open>h\<close>, coins created in the same block included.
\<close>

definition apply_block :: "crypto \<Rightarrow> int \<Rightarrow> CoinRecord list \<Rightarrow> bytes list \<Rightarrow> (bytes \<Rightarrow> CoinRecord option) \<Rightarrow> bytes \<Rightarrow> CoinRecord option" where
  "apply_block E h new rems m n =
     (case (m ++ record_view E new) n of
        None \<Rightarrow> None
      | Some r \<Rightarrow> Some (if n \<in> set rems then r\<lparr>spent_block_index := h, spent := True\<rparr> else r))"

lemma record_view_append:
  assumes "distinct (map (CoinRecord_name E) (rs @ new))"
  shows "record_view E (rs @ new) = record_view E rs ++ record_view E new"
proof -
  have "dom (record_view E rs) \<inter> dom (record_view E new) = {}"
    using assms by (auto simp: dom_def disjoint_iff record_view_None_iff dest!: record_view_in)
  then show ?thesis using map_add_comm [of "record_view E new" "record_view E rs"] by (auto simp: record_view_def)
qed

lemma apply_block_rel:
  assumes "distinct (map (CoinRecord_name E) (rs @ new))"
  shows "record_view E (map (spend_names E h (set rems)) (rs @ new)) = apply_block E h new rems (record_view E rs)"
proof
  fix n
  have "map_option (spend_names E h (set rems)) (record_view E (rs @ new) n) = apply_block E h new rems (record_view E rs) n"
    unfolding apply_block_def record_view_append [OF assms, symmetric]
    by (auto simp: spend_names_def spend_def dest: record_view_in split: option.splits)
  then show "record_view E (map (spend_names E h (set rems)) (rs @ new)) n = apply_block E h new rems (record_view E rs) n"
    by (subst record_view_map) simp_all
qed

definition block_records :: "int \<Rightarrow> int \<Rightarrow> Coin list \<Rightarrow> Coin list \<Rightarrow> CoinRecord list" where
  "block_records h ts rewards adds = map (new_coin_record h ts False) adds @ map (new_coin_record h ts True) rewards"

lemma distinct_append_map:
  "distinct (map f rs) \<Longrightarrow> distinct (map f rs @ map g cs) \<longleftrightarrow> distinct (map g cs) \<and> (\<forall>c \<in> set cs. g c \<notin> f ` set rs)"
  by (induction cs) auto

lemma new_block_cases:
  assumes "store_ok E self" "\<forall>c \<in> set (rewards @ adds). Coin_wf c"
  shows "if \<not> reward_count_ok h rewards then new_block E h ts rewards adds rems self = Inl AssertionError
    else if distinct (map (Coin_name E) (adds @ rewards)) \<and> (\<forall>c \<in> set (adds @ rewards). coin_view self (Coin_name E c) = None)
    then \<exists>self'. new_block E h ts rewards adds rems self = Inr (block_records h ts rewards adds, self') \<and> store_ok E self' \<and>
      coin_view self' = apply_block E h (block_records h ts rewards adds) rems (coin_view self)
    else new_block E h ts rewards adds rems self = Inl DbError"
proof -
  obtain rs where r: "store_rel E rs self" using assms(1) by (rule store_okE)
  let ?new = "block_records h ts rewards adds"
  have n: "map (CoinRecord_name E) ?new = map (Coin_name E) (adds @ rewards)"
    by (simp add: block_records_def new_coin_record_def CoinRecord_name_def)
  have "distinct (map (CoinRecord_name E) rs)" using r by (simp add: store_rel_def)
  then have d: "distinct (map (CoinRecord_name E) (rs @ ?new)) \<longleftrightarrow>
      distinct (map (Coin_name E) (adds @ rewards)) \<and> (\<forall>c \<in> set (adds @ rewards). coin_view self (Coin_name E c) = None)"
    unfolding coin_view_rel [OF r] record_view_None_iff map_append [of "CoinRecord_name E" rs] n by (rule distinct_append_map)
  note nb = new_block_rel [OF r assms(2) block_records_def [of h ts rewards adds], of rems]
  show ?thesis
  proof (cases "reward_count_ok h rewards \<and> distinct (map (CoinRecord_name E) (rs @ ?new))")
    case False
    then show ?thesis using nb unfolding d by presburger
  next
    case True
    then obtain self' where s: "new_block E h ts rewards adds rems self = Inr (?new, self')"
      "store_rel E (map (spend_names E h (set rems)) (rs @ ?new)) self'" using nb unfolding if_P [OF conjunct2 [OF True]] by auto
    have "coin_view self' = apply_block E h ?new rems (coin_view self)"
      using coin_view_rel [OF s(2)] apply_block_rel [of E rs ?new h rems] True by (simp add: coin_view_rel [OF r])
    then show ?thesis using s True unfolding d store_ok_def by auto
  qed
qed

text \<open>
  C28. \<^verbatim>\<open>new_block\<close> in all cases. It raises \<^verbatim>\<open>AssertionError\<close> when the number of reward coins does not fit the height,
  a database error when a created coin has the name of another one of the block or of the store, and otherwise returns
  the created records and a consistent store whose contents are exactly the old ones with the block applied.
\<close>

theorem new_block_behaviour:
  assumes "store_ok E self" "\<forall>c \<in> set (rewards @ adds). Coin_wf c"
  shows "if \<not> reward_count_ok h rewards then new_block E h ts rewards adds rems self = Inl AssertionError
    else if distinct (map (Coin_name E) (adds @ rewards)) \<and> (\<forall>c \<in> set (adds @ rewards). coin_view self (Coin_name E c) = None)
    then \<exists>self'. new_block E h ts rewards adds rems self = Inr (block_records h ts rewards adds, self') \<and> store_ok E self' \<and>
      coin_view self' = apply_block E h (block_records h ts rewards adds) rems (coin_view self)
    else new_block E h ts rewards adds rems self = Inl DbError"
  using assms by (rule new_block_cases)

text \<open>
  Blocks above height \<open>h\<close> applied one after the other, each of which spends coins that are unspent or its own, as the body
  validation demands.
\<close>

inductive blocks_above :: "crypto \<Rightarrow> int \<Rightarrow> CoinStore \<Rightarrow> CoinStore \<Rightarrow> bool" for E h where
  none: "blocks_above E h self self"
| block: "blocks_above E h self self1 \<Longrightarrow> h < h' \<Longrightarrow> \<forall>c \<in> set (rewards @ adds). Coin_wf c \<Longrightarrow>
    \<forall>n \<in> set rems. \<forall>r. coin_view self1 n = Some r \<longrightarrow> \<not> spent r \<Longrightarrow>
    new_block E h' ts rewards adds rems self1 = Inr (new, self2) \<Longrightarrow> blocks_above E h self self2"

definition settled_at :: "int \<Rightarrow> CoinStore \<Rightarrow> bool" where
  "settled_at h self \<longleftrightarrow>
     (\<forall>n r. coin_view self n = Some r \<longrightarrow>
        confirmed_block_index r \<le> h \<and> spent_block_index r \<le> h \<and> (spent r \<or> spent_block_index r = 0))"

lemma rolled_back_append: "rolled_back h (rs @ new) = rolled_back h rs @ rolled_back h new"
  by (simp add: rolled_back_def)

lemma rolled_back_spend:
  assumes "0 \<le> h" "h < h'" "\<forall>r \<in> set rs. CoinRecord_name E r \<in> ns \<longrightarrow> \<not> spent r" "\<forall>r \<in> set rs. spent r \<or> spent_block_index r = 0"
  shows "rolled_back h (map (spend_names E h' ns) rs) = rolled_back h rs"
  using assms(3,4)
proof (induction rs)
  case (Cons r rs)
  have "confirmed_block_index (spend_names E h' ns r) = confirmed_block_index r" by (simp add: spend_names_def spend_def)
  moreover have "unspend_above h (spend_names E h' ns r) = unspend_above h r"
    using Cons.prems assms(1,2) by (auto simp: spend_names_def spend_def unspend_above_def unspend_def)
  ultimately show ?case using Cons by (simp add: rolled_back_def)
qed simp

lemma blocks_above_rolled_back:
  assumes "blocks_above E h self self'" "0 \<le> h" "store_rel E rs0 self" "\<forall>r \<in> set rs0. spent r \<or> spent_block_index r = 0"
  shows "\<exists>rs. store_rel E rs self' \<and> rolled_back h rs = rolled_back h rs0 \<and> (\<forall>r \<in> set rs. spent r \<or> spent_block_index r = 0)"
  using assms
proof (induction rule: blocks_above.induct)
  case (block self self1 h' rewards adds rems ts new self2)
  then obtain rs where rs: "store_rel E rs self1" "rolled_back h rs = rolled_back h rs0" "\<forall>r \<in> set rs. spent r \<or> spent_block_index r = 0"
    by blast
  have eq: "new = block_records h' ts rewards adds" using block.hyps(5)
    by (auto simp: new_block_def block_records_def Let_def res_conv)
  note nb = new_block_rel [OF rs(1) block.hyps(3) eq [unfolded block_records_def], of rems]
  have s2: "store_rel E (map (spend_names E h' (set rems)) (rs @ new)) self2"
    using nb block.hyps(5) by (auto split: if_splits)
  have new: "confirmed_block_index r = h'" "\<not> spent r" "spent_block_index r = 0" if "r \<in> set new" for r
    using that by (auto simp: eq block_records_def new_coin_record_def)
  have unspent: "\<forall>r \<in> set (rs @ new). CoinRecord_name E r \<in> set rems \<longrightarrow> \<not> spent r"
    using block.hyps(4) rs(1) new by (auto simp: coin_view_rel [OF rs(1)] record_view_Some_iff store_rel_def)
  have idx: "\<forall>r \<in> set (rs @ new). spent r \<or> spent_block_index r = 0" using rs(3) new by auto
  have "rolled_back h new = []" using new block.hyps(2) by (auto simp: rolled_back_def filter_empty_conv)
  then have "rolled_back h (map (spend_names E h' (set rems)) (rs @ new)) = rolled_back h rs0"
    using rolled_back_spend [OF block.prems(1) block.hyps(2) unspent idx] rs(2) by (simp add: rolled_back_append)
  moreover have "\<forall>r \<in> set (map (spend_names E h' (set rems)) (rs @ new)). spent r \<or> spent_block_index r = 0"
    using idx by (auto simp: spend_names_def spend_def)
  ultimately show ?case using s2 by blast
qed blast

text \<open>
  C27. A reorganisation restores the coins of the fork point: after any number of blocks above height \<open>h\<close> has been applied
  to a store whose records are all settled at or below \<open>h\<close>, \<^verbatim>\<open>rollback_to_block\<close> succeeds and gives back exactly
  the contents the store had, with a cache that agrees with them.
\<close>

theorem rollback_undoes_blocks:
  assumes "store_ok E self" "settled_at h self" "0 \<le> h" "blocks_above E h self self'"
  shows "\<exists>changes self''. rollback_to_block E h self' = Inr (changes, self'') \<and> store_ok E self'' \<and> coin_view self'' = coin_view self"
proof -
  obtain rs0 where r0: "store_rel E rs0 self" using assms(1) by (rule store_okE)
  then have st: "confirmed_block_index r \<le> h \<and> spent_block_index r \<le> h \<and> (spent r \<or> spent_block_index r = 0)" if "r \<in> set rs0" for r
    using assms(2) that by (auto simp: settled_at_def coin_view_rel [OF r0] record_view_Some_iff store_rel_def)
  then have "\<forall>r \<in> set rs0. spent r \<or> spent_block_index r = 0" by blast
  from blocks_above_rolled_back [OF assms(4,3) r0 this] obtain rs where
    rs: "store_rel E rs self'" "rolled_back h rs = rolled_back h rs0" by blast
  have "filter (\<lambda>r. confirmed_block_index r \<le> h) rs0 = rs0" using st by (auto simp: filter_id_conv)
  moreover have "map (unspend_above h) rs0 = rs0" using st by (intro map_idI) (force simp: unspend_above_def)
  ultimately have "rolled_back h rs0 = rs0" by (simp add: rolled_back_def)
  with rollback_rel [OF rs(1), of h] rs(2) show ?thesis
    by (metis coin_view_rel r0 store_ok_def)
qed

text \<open>
  C30. What \<^verbatim>\<open>rollback_to_block\<close> reports: exactly the coins created above \<open>h\<close>. Coins that were created at or below \<open>h\<close>
  and become unspent again are changed in the store but never reported, since the second query repeats the condition of
  the preceding \<^verbatim>\<open>DELETE\<close>.
\<close>

theorem rollback_report:
  assumes "store_ok E self"
  shows "\<exists>changes self'. rollback_to_block E h self = Inr (changes, self') \<and>
    (\<forall>n. n \<in> CoinRecord_name E ` set changes \<longleftrightarrow> (\<exists>r. coin_view self n = Some r \<and> confirmed_block_index r > h)) \<and>
    (\<forall>n r. coin_view self n = Some r \<and> confirmed_block_index r \<le> h \<and> spent_block_index r > h \<longrightarrow>
       coin_view self' n = Some (unspend r) \<and> n \<notin> CoinRecord_name E ` set changes)"
proof -
  obtain rs where r: "store_rel E rs self" using assms by (rule store_okE)
  then have d: "distinct (map (CoinRecord_name E) rs)" by (simp add: store_rel_def)
  let ?ch = "map (\<lambda>r. r\<lparr>confirmed_block_index := 0, timestamp := 0\<rparr>) (filter (\<lambda>r. confirmed_block_index r > h) rs)"
  obtain self' where s: "rollback_to_block E h self = Inr (?ch, self')" "store_rel E (rolled_back h rs) self'"
    using rollback_rel [OF r] by blast
  have names: "n \<in> CoinRecord_name E ` set ?ch \<longleftrightarrow> (\<exists>r. coin_view self n = Some r \<and> confirmed_block_index r > h)" for n
    by (auto simp: coin_view_rel [OF r] record_view_Some_iff [OF d] CoinRecord_name_def image_iff)
  have "coin_view self' n = Some (unspend v)"
    if "coin_view self n = Some v" "confirmed_block_index v \<le> h" "spent_block_index v > h" for n v
    using that by (simp add: coin_view_rel [OF r] coin_view_rel [OF s(2)] record_view_rolled_back [OF d] unspend_above_def)
  then show ?thesis using s(1) names by fastforce
qed

lemma query_rel:
  assumes "store_rel E rs self"
  shows "rmap row_to_record (filter P (coin_record_db self)) = Inr (filter (\<lambda>r. P (row_of E r)) rs)"
proof -
  have "filter P (map (row_of E) rs) = map (row_of E) (filter (\<lambda>r. P (row_of E r)) rs)" by (simp add: filter_map comp_def)
  then show ?thesis using assms rmap_row_to_record [of "filter (\<lambda>r. P (row_of E r)) rs" E] by (simp add: store_rel_def)
qed

lemma ex_record_view: "store_rel E rs self \<Longrightarrow> (\<exists>n. coin_view self n = Some r) \<longleftrightarrow> r \<in> set rs"
  by (auto simp: coin_view_rel record_view_Some_iff store_rel_def)

text \<open>
  C31. The queries by height, by name, by puzzle hash and by parent never fail on a consistent store and return exactly
  the matching records of its contents, each once; height ranges include their start and exclude their end.
\<close>

theorem coin_queries:
  assumes "store_ok E self"
  shows "(\<exists>l. get_coins_added_at_height h self = Inr l \<and> distinct l \<and>
      set l = {r. (\<exists>n. coin_view self n = Some r) \<and> confirmed_block_index r = h}) \<and>
    (\<exists>l. get_coins_removed_at_height h self = Inr l \<and> distinct l \<and>
      set l = {r. (\<exists>n. coin_view self n = Some r) \<and> spent r \<and> spent_block_index r = h \<and> h \<noteq> 0}) \<and>
    (\<exists>l. get_coin_records_by_names sp names a b self = Inr l \<and> distinct l \<and>
      set l = {r. (\<exists>n \<in> set names. coin_view self n = Some r) \<and> confirmed_block_index r \<in> {a..<b} \<and> (sp \<or> \<not> spent r)}) \<and>
    (\<exists>l. get_coin_records_by_puzzle_hashes sp names a b self = Inr l \<and> distinct l \<and>
      set l = {r. (\<exists>n. coin_view self n = Some r) \<and> puzzle_hash (coin r) \<in> set names \<and>
                  confirmed_block_index r \<in> {a..<b} \<and> (sp \<or> \<not> spent r)}) \<and>
    (\<exists>l. get_coin_records_by_parent_ids sp names a b self = Inr l \<and> distinct l \<and>
      set l = {r. (\<exists>n. coin_view self n = Some r) \<and> parent_coin_info (coin r) \<in> set names \<and>
                  confirmed_block_index r \<in> {a..<b} \<and> (sp \<or> \<not> spent r)})"
proof -
  obtain rs where r: "store_rel E rs self" using assms by (rule store_okE)
  have view: "record_view E rs n = Some r \<longleftrightarrow> r \<in> set rs \<and> CoinRecord_name E r = n" for n r
    using r by (simp add: store_rel_def record_view_Some_iff)
  have dis: "distinct (filter P rs)" for P using r by (simp add: store_rel_def distinct_map)
  show ?thesis
    unfolding ex_record_view [OF r] coin_view_rel [OF r] view
    by (intro conjI)
      (auto simp: get_coins_added_at_height_def get_coins_removed_at_height_def get_coin_records_by_names_def
        get_coin_records_by_puzzle_hashes_def get_coin_records_by_parent_ids_def query_rel [OF r] in_height_range_def image_iff dis
        simp del: set_remdups simp: set_remdups)
qed

section \<open>A concrete store\<close>

definition demo_coin :: "byte \<Rightarrow> Coin" where
  "demo_coin k = \<lparr> parent_coin_info = replicate 32 k, puzzle_hash = replicate 32 1, amount = 5 \<rparr>"

definition demo_spent :: CoinRecord where
  "demo_spent = (new_coin_record 1 10 True (demo_coin 7))\<lparr>spent_block_index := 3, spent := True\<rparr>"

definition demo_unspent :: CoinRecord where
  "demo_unspent = new_coin_record 3 30 False (demo_coin 8)"

definition demo_store :: CoinStore where
  "demo_store = CoinStore_create (map (row_of demo_crypto) [demo_spent, demo_unspent]) 1"

lemma demo_coin_name [simp]: "Coin_name demo_crypto (demo_coin k) = replicate 32 k"
  by (simp add: Coin_name_def Coin_get_hash_def std_hash_def Coin_preimage_def demo_crypto_def demo_coin_def)

lemma demo_names [simp]:
  "CoinRecord_name demo_crypto demo_spent = replicate 32 7" "CoinRecord_name demo_crypto demo_unspent = replicate 32 8"
  by (simp_all add: CoinRecord_name_def demo_spent_def demo_unspent_def new_coin_record_def)

lemma demo_coin_wf [simp]: "Coin_wf (demo_coin k)"
  by (simp add: Coin_wf_def demo_coin_def)

lemma demo_store_rel: "store_rel demo_crypto [demo_spent, demo_unspent] demo_store"
  by (simp add: store_rel_def demo_store_def CoinStore_create_def LRUCache_init_def lru.coherent_def LRUCache_ok_def LRUCache_look_def
      replicate_eq_replicate) (simp add: demo_spent_def demo_unspent_def new_coin_record_def)

lemma demo_store_ok: "store_ok demo_crypto demo_store"
  using demo_store_rel by (auto simp: store_ok_def)

lemma demo_view: "coin_view demo_store = [replicate 32 7 \<mapsto> demo_spent, replicate 32 8 \<mapsto> demo_unspent]"
  by (auto simp: coin_view_rel [OF demo_store_rel] record_view_def fun_eq_iff replicate_eq_replicate)

theorem get_coin_record_refines_witness:
  "(\<exists>self'. get_coin_record demo_crypto (replicate 32 7) demo_store = Inr (Some demo_spent, self')) \<and>
   (\<exists>self'. get_coin_record demo_crypto (replicate 32 9) demo_store = Inr (None, self'))"
  using get_coin_record_refines [OF demo_store_ok, of "replicate 32 7"] get_coin_record_refines [OF demo_store_ok, of "replicate 32 9"]
  by (auto simp: demo_view replicate_eq_replicate)

theorem new_block_behaviour_witness:
  "\<exists>self'. new_block demo_crypto 4 40 [demo_coin 9, demo_coin 10] [demo_coin 11] [replicate 32 8] demo_store =
      Inr (block_records 4 40 [demo_coin 9, demo_coin 10] [demo_coin 11], self') \<and>
    coin_view self' (replicate 32 8) = Some (demo_unspent\<lparr>spent_block_index := 4, spent := True\<rparr>) \<and>
    new_block demo_crypto 4 40 [demo_coin 9] [] [] demo_store = Inl AssertionError \<and>
    new_block demo_crypto 4 40 [demo_coin 9, demo_coin 7] [] [] demo_store = Inl DbError"
proof -
  have 1: "\<exists>self'. new_block demo_crypto 4 40 [demo_coin 9, demo_coin 10] [demo_coin 11] [replicate 32 8] demo_store =
      Inr (block_records 4 40 [demo_coin 9, demo_coin 10] [demo_coin 11], self') \<and>
    coin_view self' = apply_block demo_crypto 4 (block_records 4 40 [demo_coin 9, demo_coin 10] [demo_coin 11]) [replicate 32 8] (coin_view demo_store)"
    using new_block_behaviour [OF demo_store_ok, of "[demo_coin 9, demo_coin 10]" "[demo_coin 11]" 4 40 "[replicate 32 8]"]
    by (auto simp: reward_count_ok_def replicate_eq_replicate demo_view)
  have 2: "new_block demo_crypto 4 40 [demo_coin 9] [] [] demo_store = Inl AssertionError"
    using new_block_behaviour [OF demo_store_ok, of "[demo_coin 9]" "[]" 4 40 "[]"] by (simp add: reward_count_ok_def)
  have 3: "new_block demo_crypto 4 40 [demo_coin 9, demo_coin 7] [] [] demo_store = Inl DbError"
    using new_block_behaviour [OF demo_store_ok, of "[demo_coin 9, demo_coin 7]" "[]" 4 40 "[]"]
    by (simp add: reward_count_ok_def replicate_eq_replicate demo_view)
  show ?thesis using 1 2 3
    by (auto simp: apply_block_def demo_view replicate_eq_replicate record_view_def block_records_def new_coin_record_def CoinRecord_name_def
        map_add_def)
qed

theorem rollback_undoes_blocks_witness:
  "\<exists>new self' changes self''.
     new_block demo_crypto 4 40 [demo_coin 9, demo_coin 10] [demo_coin 11] [replicate 32 8, replicate 32 11] demo_store = Inr (new, self') \<and>
     rollback_to_block demo_crypto 3 self' = Inr (changes, self'') \<and>
     coin_view self'' = [replicate 32 7 \<mapsto> demo_spent, replicate 32 8 \<mapsto> demo_unspent]"
proof -
  let ?new = "map (new_coin_record 4 40 False) [demo_coin 11] @ map (new_coin_record 4 40 True) [demo_coin 9, demo_coin 10]"
  obtain self' where nb: "new_block demo_crypto 4 40 [demo_coin 9, demo_coin 10] [demo_coin 11] [replicate 32 8, replicate 32 11] demo_store = Inr (?new, self')"
    using new_block_rel [OF demo_store_rel, of "[demo_coin 9, demo_coin 10]" "[demo_coin 11]" ?new 4 40 "[replicate 32 8, replicate 32 11]"]
    by (auto simp: reward_count_ok_def replicate_eq_replicate new_coin_record_def CoinRecord_name_def demo_spent_def demo_unspent_def)
  have "blocks_above demo_crypto 3 demo_store self'"
    by (rule blocks_above.block [OF blocks_above.none, where h' = 4, OF _ _ _ nb])
      (auto simp: demo_view replicate_eq_replicate demo_unspent_def new_coin_record_def split: if_splits)
  moreover have "settled_at 3 demo_store"
    by (auto simp: settled_at_def demo_view demo_unspent_def demo_spent_def new_coin_record_def split: if_splits)
  ultimately show ?thesis
    using rollback_undoes_blocks [OF demo_store_ok, of 3 self'] nb by (auto simp: demo_view)
qed

theorem rollback_report_witness:
  "\<exists>changes self'. rollback_to_block demo_crypto 2 demo_store = Inr (changes, self') \<and>
     coin_view self' (replicate 32 7) = Some (unspend demo_spent) \<and> replicate 32 7 \<notin> CoinRecord_name demo_crypto ` set changes \<and>
     replicate 32 8 \<in> CoinRecord_name demo_crypto ` set changes"
proof -
  have "coin_view demo_store (replicate 32 7) = Some demo_spent \<and> confirmed_block_index demo_spent \<le> 2 \<and> spent_block_index demo_spent > 2"
    "coin_view demo_store (replicate 32 8) = Some demo_unspent \<and> confirmed_block_index demo_unspent > 2"
    by (simp_all add: demo_view replicate_eq_replicate) (simp_all add: demo_spent_def demo_unspent_def new_coin_record_def)
  with rollback_report [OF demo_store_ok, of 2] show ?thesis by blast
qed

theorem coin_queries_witness:
  "\<exists>l. get_coins_removed_at_height 3 demo_store = Inr l \<and> distinct l \<and> set l = {demo_spent}"
proof -
  have "{r. (\<exists>n. coin_view demo_store n = Some r) \<and> spent r \<and> spent_block_index r = 3 \<and> (3 :: int) \<noteq> 0} = {demo_spent}"
    by (auto simp: demo_view demo_spent_def demo_unspent_def new_coin_record_def replicate_eq_replicate split: if_splits intro!: exI [of _ "replicate 32 7"])
  then show ?thesis using coin_queries [OF demo_store_ok, of 3] by auto
qed

end
