(* ===== verification/Errors.thy ===== *)
theory Errors
  imports Prelude
begin

text \<open>
  \<^verbatim>\<open>hddcoin/util/errors.py\<close>: the members of the enumeration \<^verbatim>\<open>Err\<close> that the modelled code returns, with their
  values.
\<close>

datatype Err =
    UNKNOWN
  | DUPLICATE_OUTPUT
  | DOUBLE_SPEND
  | UNKNOWN_UNSPENT
  | BAD_AGGREGATE_SIGNATURE
  | WRONG_PUZZLE_HASH
  | INVALID_CONDITION
  | ASSERT_HEIGHT_RELATIVE_FAILED
  | ASSERT_HEIGHT_ABSOLUTE_FAILED
  | ASSERT_SECONDS_ABSOLUTE_FAILED
  | COIN_AMOUNT_EXCEEDS_MAXIMUM
  | SEXP_ERROR
  | INVALID_FEE_LOW_FEE
  | MEMPOOL_CONFLICT
  | MINTING_COIN
  | BLOCK_COST_EXCEEDS_MAX
  | BAD_ADDITION_ROOT
  | BAD_REMOVAL_ROOT
  | INVALID_TRANSACTIONS_FILTER_HASH
  | INVALID_HEIGHT
  | INVALID_BLOCK_FEE_AMOUNT
  | INVALID_TRANSACTIONS_GENERATOR_HASH
  | RESERVE_FEE_CONDITION_FAILED
  | NOT_BLOCK_BUT_HAS_DATA
  | IS_TRANSACTION_BLOCK_BUT_NO_DATA
  | INVALID_PREV_BLOCK_HASH
  | INVALID_TRANSACTIONS_INFO_HASH
  | INVALID_FOLIAGE_BLOCK_HASH
  | INVALID_REWARD_COINS
  | INVALID_BLOCK_COST
  | MEMPOOL_NOT_INITIALIZED
  | ASSERT_SECONDS_RELATIVE_FAILED
  | TOO_MANY_GENERATOR_REFS
  | GENERATOR_RUNTIME_ERROR
  | INVALID_TRANSACTIONS_GENERATOR_REFS_ROOT
  | FUTURE_GENERATOR_REFS
  | GENERATOR_REF_HAS_NO_GENERATOR
  | DOUBLE_SPEND_IN_FORK
  | INVALID_FEE_TOO_CLOSE_TO_ZERO
  | COIN_AMOUNT_NEGATIVE
  | INVALID_SPEND_BUNDLE

primrec Err_value :: "Err \<Rightarrow> int" where
  "Err_value UNKNOWN = 1"
| "Err_value DUPLICATE_OUTPUT = 4"
| "Err_value DOUBLE_SPEND = 5"
| "Err_value UNKNOWN_UNSPENT = 6"
| "Err_value BAD_AGGREGATE_SIGNATURE = 7"
| "Err_value WRONG_PUZZLE_HASH = 8"
| "Err_value INVALID_CONDITION = 10"
| "Err_value ASSERT_HEIGHT_RELATIVE_FAILED = 13"
| "Err_value ASSERT_HEIGHT_ABSOLUTE_FAILED = 14"
| "Err_value ASSERT_SECONDS_ABSOLUTE_FAILED = 15"
| "Err_value COIN_AMOUNT_EXCEEDS_MAXIMUM = 16"
| "Err_value SEXP_ERROR = 17"
| "Err_value INVALID_FEE_LOW_FEE = 18"
| "Err_value MEMPOOL_CONFLICT = 19"
| "Err_value MINTING_COIN = 20"
| "Err_value BLOCK_COST_EXCEEDS_MAX = 23"
| "Err_value BAD_ADDITION_ROOT = 24"
| "Err_value BAD_REMOVAL_ROOT = 25"
| "Err_value INVALID_TRANSACTIONS_FILTER_HASH = 31"
| "Err_value INVALID_HEIGHT = 34"
| "Err_value INVALID_BLOCK_FEE_AMOUNT = 37"
| "Err_value INVALID_TRANSACTIONS_GENERATOR_HASH = 44"
| "Err_value RESERVE_FEE_CONDITION_FAILED = 48"
| "Err_value NOT_BLOCK_BUT_HAS_DATA = 49"
| "Err_value IS_TRANSACTION_BLOCK_BUT_NO_DATA = 50"
| "Err_value INVALID_PREV_BLOCK_HASH = 51"
| "Err_value INVALID_TRANSACTIONS_INFO_HASH = 52"
| "Err_value INVALID_FOLIAGE_BLOCK_HASH = 53"
| "Err_value INVALID_REWARD_COINS = 54"
| "Err_value INVALID_BLOCK_COST = 55"
| "Err_value MEMPOOL_NOT_INITIALIZED = 94"
| "Err_value ASSERT_SECONDS_RELATIVE_FAILED = 105"
| "Err_value TOO_MANY_GENERATOR_REFS = 113"
| "Err_value GENERATOR_RUNTIME_ERROR = 117"
| "Err_value INVALID_TRANSACTIONS_GENERATOR_REFS_ROOT = 119"
| "Err_value FUTURE_GENERATOR_REFS = 120"
| "Err_value GENERATOR_REF_HAS_NO_GENERATOR = 121"
| "Err_value DOUBLE_SPEND_IN_FORK = 122"
| "Err_value INVALID_FEE_TOO_CLOSE_TO_ZERO = 123"
| "Err_value COIN_AMOUNT_NEGATIVE = 124"
| "Err_value INVALID_SPEND_BUNDLE = 126"

text \<open>
  \<^verbatim>\<open>Err(value)\<close> on a number that the CLVM reports: the members have the numbers from -13 to 126 without four gaps, other numbers
  are a \<^verbatim>\<open>ValueError\<close>. The member itself is kept as its number, as most of them occur nowhere else.
\<close>

definition Err_member :: "int \<Rightarrow> int res" where
  "Err_member n = (if - 13 \<le> n \<and> n \<le> 126 \<and> n \<notin> {0, 63, 64, 107} then Inr n else Inl ValueError)"

end
