(* ===== verification/Conditions.thy ===== *)
theory Conditions
  imports CoinStore Errors
begin

text \<open>
  The spend conditions: \<^verbatim>\<open>types/condition_with_args.py\<close>, \<^verbatim>\<open>types/name_puzzle_condition.py\<close>, \<^verbatim>\<open>types/announcement.py\<close>,
  \<^verbatim>\<open>util/condition_tools.py\<close>, \<^verbatim>\<open>util/chain_utils.py\<close>, \<^verbatim>\<open>consensus/cost_calculator.py\<close>, \<^verbatim>\<open>consensus/condition_costs.py\<close>, the
  additions and removals of \<^verbatim>\<open>util/generator_tools.py\<close> and the checks of \<^verbatim>\<open>full_node/mempool_check_conditions.py\<close>.
  The CLVM is a library outside the repository: its programs are values of a type \<open>'p\<close> and the record \<open>clvm\<close>
  holds the calls that the code makes into it.
\<close>

section \<open>Conditions of a spend\<close>

record ConditionWithArgs =
  opcode :: ConditionOpcode
  vars :: "bytes list"

type_synonym conditions_dict = "(ConditionOpcode, ConditionWithArgs list) dict"

record NPC =
  coin_name :: bytes
  npc_puzzle_hash :: bytes
  conditions :: "(ConditionOpcode \<times> ConditionWithArgs list) list"

definition condition_dict :: "NPC \<Rightarrow> conditions_dict res" where
  "condition_dict self = rfold (\<lambda>(op, l) d. rassert (\<not> din op d) (Inr (dput op l d))) (conditions self) []"

record NPCResult =
  npc_error :: "int option"
  npc_list :: "NPC list"
  clvm_cost :: int

record Announcement =
  origin_info :: bytes
  message :: bytes

definition Announcement_name :: "crypto \<Rightarrow> Announcement \<Rightarrow> bytes" where
  "Announcement_name E self = std_hash E (origin_info self @ message self)"

text \<open>\<^verbatim>\<open>d.get(key, [])\<close>.\<close>

definition dget_list :: "('k, 'v list) dict \<Rightarrow> 'k \<Rightarrow> 'v list" where
  "dget_list d k = (case map_of d k of None \<Rightarrow> [] | Some l \<Rightarrow> l)"

section \<open>Running programs\<close>

text \<open>Calls into the CLVM: \<^verbatim>\<open>as_atom_list\<close>, \<^verbatim>\<open>as_iter\<close> and \<^verbatim>\<open>run_with_cost\<close>, which gives \<^verbatim>\<open>None\<close> for an \<^verbatim>\<open>EvalError\<close>.\<close>

record 'p clvm =
  as_atom_list :: "'p \<Rightarrow> bytes list res"
  as_iter :: "'p \<Rightarrow> 'p list res"
  run_with_cost :: "bytes \<Rightarrow> int \<Rightarrow> bytes \<Rightarrow> (int \<times> 'p) option"

definition parse_sexp_to_condition :: "'p clvm \<Rightarrow> 'p \<Rightarrow> (Err option \<times> ConditionWithArgs option) res" where
  "parse_sexp_to_condition M sexp =
     rbind (as_atom_list M sexp) (\<lambda>as_atoms.
       case as_atoms of
         [] \<Rightarrow> Inr (Some INVALID_CONDITION, None)
       | op # args \<Rightarrow> rbind (ConditionOpcode_new op) (\<lambda>op. Inr (None, Some \<lparr> opcode = op, vars = args \<rparr>)))"

text \<open>No call inside the \<^verbatim>\<open>try\<close> of \<^verbatim>\<open>parse_sexp_to_conditions\<close> raises a \<^verbatim>\<open>ConsensusError\<close>, so its handler has no case.\<close>

fun parse_conditions_loop :: "'p clvm \<Rightarrow> 'p list \<Rightarrow> ConditionWithArgs option list \<Rightarrow> (Err option \<times> ConditionWithArgs option list) res" where
  "parse_conditions_loop M [] results = Inr (None, results)"
| "parse_conditions_loop M (x # xs) results =
     rbind (parse_sexp_to_condition M x) (\<lambda>(error, cvp).
       case error of Some e \<Rightarrow> Inr (Some e, []) | None \<Rightarrow> parse_conditions_loop M xs (results @ [cvp]))"

definition parse_sexp_to_conditions :: "'p clvm \<Rightarrow> 'p \<Rightarrow> (Err option \<times> ConditionWithArgs list option) res" where
  "parse_sexp_to_conditions M sexp =
     rbind (as_iter M sexp) (\<lambda>xs. rbind (parse_conditions_loop M xs []) (\<lambda>(error, results).
       Inr (error, if error = None then Some (List.map_filter id results) else None)))"

definition conditions_by_opcode :: "ConditionWithArgs list \<Rightarrow> conditions_dict" where
  "conditions_by_opcode cs =
     fold (\<lambda>cvp d.
        let d = (if \<not> din (opcode cvp) d then dput (opcode cvp) [] d else d)
        in dput (opcode cvp) (dget_list d (opcode cvp) @ [cvp]) d) cs []"

definition conditions_for_solution :: "'p clvm \<Rightarrow> bytes \<Rightarrow> bytes \<Rightarrow> int \<Rightarrow> (Err option \<times> ConditionWithArgs list option \<times> int) res" where
  "conditions_for_solution M puzzle_reveal solution max_cost =
     (case run_with_cost M puzzle_reveal max_cost solution of
        None \<Rightarrow> Inr (Some SEXP_ERROR, None, 0)
      | Some (c, r) \<Rightarrow>
          rbind (parse_sexp_to_conditions M r) (\<lambda>(error, result). rbind (uint64 c) (\<lambda>c. Inr (error, result, c))))"

definition conditions_dict_for_solution :: "'p clvm \<Rightarrow> bytes \<Rightarrow> bytes \<Rightarrow> int \<Rightarrow> (Err option \<times> conditions_dict option \<times> int) res" where
  "conditions_dict_for_solution M puzzle_reveal solution max_cost =
     rbind (conditions_for_solution M puzzle_reveal solution max_cost) (\<lambda>(error, result, c).
       case result of
         None \<Rightarrow> Inr (error, None, 0)
       | Some l \<Rightarrow> (if error \<noteq> None then Inr (error, None, 0) else Inr (None, Some (conditions_by_opcode l), c)))"

section \<open>What conditions ask for\<close>

text \<open>The three assertions on the arguments of a signature condition, and the key in them.\<close>

definition agg_sig_args :: "ConditionWithArgs \<Rightarrow> (bytes \<times> bytes) res" where
  "agg_sig_args cwa =
     rassert (length (vars cwa) = 2)
       (rassert (length (vars cwa ! 0) = 48 \<and> length (vars cwa ! 1) \<le> 1024)
          (rbind (bytes48 (vars cwa ! 0)) (\<lambda>pk. Inr (pk, vars cwa ! 1))))"

definition pkm_pairs_npc :: "bytes \<Rightarrow> NPC \<Rightarrow> (bytes list \<times> bytes list) \<Rightarrow> (bytes list \<times> bytes list) res" where
  "pkm_pairs_npc additional_data npc ret =
     rfold (\<lambda>(op, l) ret.
        if op = AGG_SIG_UNSAFE then
          rfold (\<lambda>cwa (pks, msgs). rbind (agg_sig_args cwa) (\<lambda>(pk, msg). Inr (pks @ [pk], msgs @ [msg]))) l ret
        else if op = AGG_SIG_ME then
          rfold (\<lambda>cwa (pks, msgs). rbind (agg_sig_args cwa) (\<lambda>(pk, msg).
            Inr (pks @ [pk], msgs @ [msg @ coin_name npc @ additional_data]))) l ret
        else Inr ret) (conditions npc) ret"

definition pkm_pairs :: "NPC list \<Rightarrow> bytes \<Rightarrow> (bytes list \<times> bytes list) res" where
  "pkm_pairs npcs additional_data = rfold (pkm_pairs_npc additional_data) npcs ([], [])"

definition pkm_pairs_for_conditions_dict :: "conditions_dict \<Rightarrow> bytes \<Rightarrow> bytes \<Rightarrow> (bytes \<times> bytes) list res" where
  "pkm_pairs_for_conditions_dict cd name additional_data =
     rbind (rmap agg_sig_args (dget_list cd AGG_SIG_UNSAFE)) (\<lambda>unsafe.
     rbind (rmap (\<lambda>cwa. rbind (agg_sig_args cwa) (\<lambda>(pk, msg). Inr (pk, msg @ name @ additional_data)))
              (dget_list cd AGG_SIG_ME)) (\<lambda>me.
       Inr (unsafe @ me)))"

text \<open>
  The constructor of \<^verbatim>\<open>Coin\<close> checks its fields: bytes of another size fail in \<^verbatim>\<open>bytes32(item)\<close> and then in
  \<^verbatim>\<open>bytes32.from_bytes(item)\<close>, whose assertion is what the caller sees.
\<close>

definition strict_bytes32 :: "bytes \<Rightarrow> bytes res" where
  "strict_bytes32 item = (case bytes32 item of Inr v \<Rightarrow> Inr v | Inl _ \<Rightarrow> sized_bytes_from_bytes 32 item)"

definition Coin_new :: "bytes \<Rightarrow> bytes \<Rightarrow> int \<Rightarrow> Coin res" where
  "Coin_new parent ph a =
     rbind (strict_bytes32 parent) (\<lambda>parent. rbind (strict_bytes32 ph) (\<lambda>ph. rbind (uint64 a) (\<lambda>a.
       Inr \<lparr> parent_coin_info = parent, puzzle_hash = ph, amount = a \<rparr>)))"

definition created_outputs_for_conditions_dict :: "crypto \<Rightarrow> conditions_dict \<Rightarrow> bytes \<Rightarrow> Coin list res" where
  "created_outputs_for_conditions_dict E cd input_coin_name =
     rmap (\<lambda>cvp.
        rbind (py_index (vars cvp) 0) (\<lambda>ph. rbind (py_index (vars cvp) 1) (\<lambda>amount_bin.
        rbind (uint64 (int_from_bytes E amount_bin)) (\<lambda>a. Coin_new input_coin_name ph a)))) (dget_list cd CREATE_COIN)"

definition announcements_for :: "ConditionOpcode \<Rightarrow> conditions_dict \<Rightarrow> bytes \<Rightarrow> Announcement list res" where
  "announcements_for op cd origin =
     rbind (rmap (\<lambda>cvp. rbind (py_index (vars cvp) 0) (\<lambda>msg.
        rassert (length msg \<le> 1024) (Inr \<lparr> origin_info = origin, message = msg \<rparr>))) (dget_list cd op)) (\<lambda>l. Inr (remdups l))"

definition coin_announcements_for_conditions_dict :: "crypto \<Rightarrow> conditions_dict \<Rightarrow> Coin \<Rightarrow> Announcement list res" where
  "coin_announcements_for_conditions_dict E cd input_coin = announcements_for CREATE_COIN_ANNOUNCEMENT cd (Coin_name E input_coin)"

definition puzzle_announcements_for_conditions_dict :: "conditions_dict \<Rightarrow> Coin \<Rightarrow> Announcement list res" where
  "puzzle_announcements_for_conditions_dict cd input_coin = announcements_for CREATE_PUZZLE_ANNOUNCEMENT cd (puzzle_hash input_coin)"

definition coin_announcement_names_for_conditions_dict :: "crypto \<Rightarrow> conditions_dict \<Rightarrow> Coin \<Rightarrow> bytes list res" where
  "coin_announcement_names_for_conditions_dict E cd input_coin =
     rbind (coin_announcements_for_conditions_dict E cd input_coin) (\<lambda>l. Inr (map (Announcement_name E) l))"

definition puzzle_announcement_names_for_conditions_dict :: "crypto \<Rightarrow> conditions_dict \<Rightarrow> Coin \<Rightarrow> bytes list res" where
  "puzzle_announcement_names_for_conditions_dict E cd input_coin =
     rbind (puzzle_announcements_for_conditions_dict cd input_coin) (\<lambda>l. Inr (map (Announcement_name E) l))"

definition additions_for_solution :: "crypto \<Rightarrow> 'p clvm \<Rightarrow> bytes \<Rightarrow> bytes \<Rightarrow> bytes \<Rightarrow> int \<Rightarrow> Coin list res" where
  "additions_for_solution E M name puzzle_reveal solution max_cost =
     rbind (conditions_dict_for_solution M puzzle_reveal solution max_cost) (\<lambda>(err, dic, c).
       case dic of
         None \<Rightarrow> Inr []
       | Some d \<Rightarrow> (if err \<noteq> None then Inr [] else created_outputs_for_conditions_dict E d name))"

definition fee_for_solution :: "crypto \<Rightarrow> 'p clvm \<Rightarrow> bytes \<Rightarrow> bytes \<Rightarrow> int \<Rightarrow> int res" where
  "fee_for_solution E M puzzle_reveal solution max_cost =
     rbind (conditions_dict_for_solution M puzzle_reveal solution max_cost) (\<lambda>(err, dic, c).
       case dic of
         None \<Rightarrow> Inr 0
       | Some d \<Rightarrow>
           (if err \<noteq> None then Inr 0
            else rfold (\<lambda>cvp total. rbind (py_index (vars cvp) 0) (\<lambda>b. Inr (total + int_from_bytes E b))) (dget_list d RESERVE_FEE) 0))"

definition additions_for_npc :: "crypto \<Rightarrow> NPC list \<Rightarrow> Coin list res" where
  "additions_for_npc E npcs =
     rbind (rmap (\<lambda>npc. rbind (condition_dict npc) (\<lambda>d. created_outputs_for_conditions_dict E d (coin_name npc))) npcs)
       (\<lambda>ls. Inr (concat ls))"

definition tx_removals_and_additions :: "crypto \<Rightarrow> NPC list option \<Rightarrow> (bytes list \<times> Coin list) res" where
  "tx_removals_and_additions E npcs =
     (case npcs of
        None \<Rightarrow> Inr ([], [])
      | Some l \<Rightarrow> rbind (additions_for_npc E l) (\<lambda>additions. Inr (map coin_name l, additions)))"

section \<open>Cost\<close>

text \<open>\<^verbatim>\<open>ConditionCost\<close>, by the opcode that \<^verbatim>\<open>calculate_cost_of_program\<close> charges for.\<close>

fun ConditionCost :: "ConditionOpcode \<Rightarrow> int" where
  "ConditionCost AGG_SIG_UNSAFE = 1200000"
| "ConditionCost AGG_SIG_ME = 1200000"
| "ConditionCost CREATE_COIN = 1800000"
| "ConditionCost _ = 0"

definition condition_cost :: "NPC \<Rightarrow> int \<Rightarrow> int res" where
  "condition_cost npc total_cost =
     rbind (condition_dict npc) (\<lambda>d. Inr (fold (\<lambda>(op, cvp_list) total. total + int (length cvp_list) * ConditionCost op) d total_cost))"

definition calculate_cost_of_program :: "bytes \<Rightarrow> NPCResult \<Rightarrow> int \<Rightarrow> int res" where
  "calculate_cost_of_program prog res cost_per_byte =
     rbind (rfold condition_cost (npc_list res) (0 + clvm_cost res)) (\<lambda>total_cost.
       uint64 (total_cost + int (length prog) * cost_per_byte))"

section \<open>Height and time locks\<close>

text \<open>The cast of the CLVM raises no \<^verbatim>\<open>ValueError\<close>; the handlers for it have no case. A missing argument is an \<^verbatim>\<open>IndexError\<close>.\<close>

definition mempool_assert_absolute_block_height_exceeds :: "crypto \<Rightarrow> ConditionWithArgs \<Rightarrow> int \<Rightarrow> Err option res" where
  "mempool_assert_absolute_block_height_exceeds E c prev_height =
     rbind (py_index (vars c) 0) (\<lambda>b.
       Inr (if prev_height < int_from_bytes E b then Some ASSERT_HEIGHT_ABSOLUTE_FAILED else None))"

definition mempool_assert_relative_block_height_exceeds ::
  "crypto \<Rightarrow> ConditionWithArgs \<Rightarrow> CoinRecord \<Rightarrow> int \<Rightarrow> Err option res" where
  "mempool_assert_relative_block_height_exceeds E c unspent prev_height =
     rbind (py_index (vars c) 0) (\<lambda>b.
       let block_index_exceeds_this = int_from_bytes E b + confirmed_block_index unspent
       in Inr (if prev_height < block_index_exceeds_this then Some ASSERT_HEIGHT_RELATIVE_FAILED else None))"

text \<open>\<open>now\<close> is \<^verbatim>\<open>int(time.time())\<close>, read when no timestamp is given.\<close>

definition mempool_assert_absolute_time_exceeds :: "crypto \<Rightarrow> int \<Rightarrow> ConditionWithArgs \<Rightarrow> int option \<Rightarrow> Err option res" where
  "mempool_assert_absolute_time_exceeds E now c ts =
     rbind (py_index (vars c) 0) (\<lambda>b. rbind (case ts of None \<Rightarrow> uint64 now | Some t \<Rightarrow> Inr t) (\<lambda>t.
       Inr (if t < int_from_bytes E b then Some ASSERT_SECONDS_ABSOLUTE_FAILED else None)))"

definition mempool_assert_relative_time_exceeds ::
  "crypto \<Rightarrow> int \<Rightarrow> ConditionWithArgs \<Rightarrow> CoinRecord \<Rightarrow> int option \<Rightarrow> Err option res" where
  "mempool_assert_relative_time_exceeds E now c unspent ts =
     rbind (py_index (vars c) 0) (\<lambda>b. rbind (case ts of None \<Rightarrow> uint64 now | Some t \<Rightarrow> Inr t) (\<lambda>t.
       Inr (if t < int_from_bytes E b + timestamp unspent then Some ASSERT_SECONDS_RELATIVE_FAILED else None)))"

definition check_condition :: "crypto \<Rightarrow> int \<Rightarrow> CoinRecord \<Rightarrow> int \<Rightarrow> int option \<Rightarrow> ConditionWithArgs \<Rightarrow> Err option res" where
  "check_condition E now unspent prev_height ts cvp =
     (if opcode cvp = ASSERT_HEIGHT_ABSOLUTE then mempool_assert_absolute_block_height_exceeds E cvp prev_height
      else if opcode cvp = ASSERT_HEIGHT_RELATIVE then mempool_assert_relative_block_height_exceeds E cvp unspent prev_height
      else if opcode cvp = ASSERT_SECONDS_ABSOLUTE then mempool_assert_absolute_time_exceeds E now cvp ts
      else if opcode cvp = ASSERT_SECONDS_RELATIVE then mempool_assert_relative_time_exceeds E now cvp unspent ts
      else if opcode cvp \<in> {ASSERT_MY_COIN_ID, ASSERT_COIN_ANNOUNCEMENT, ASSERT_PUZZLE_ANNOUNCEMENT, ASSERT_MY_PARENT_ID,
           ASSERT_MY_PUZZLEHASH, ASSERT_MY_AMOUNT} then Inl AssertionError
      else Inr None)"

text \<open>The first error of a loop that returns as soon as one is found.\<close>

fun first_error :: "('a \<Rightarrow> 'e option res) \<Rightarrow> 'a list \<Rightarrow> 'e option res" where
  "first_error f [] = Inr None"
| "first_error f (x # xs) = rbind (f x) (\<lambda>e. case e of None \<Rightarrow> first_error f xs | Some e \<Rightarrow> Inr (Some e))"

definition mempool_check_conditions_dict ::
  "crypto \<Rightarrow> int \<Rightarrow> CoinRecord \<Rightarrow> conditions_dict \<Rightarrow> int \<Rightarrow> int option \<Rightarrow> Err option res" where
  "mempool_check_conditions_dict E now unspent cd prev_height ts =
     first_error (first_error (check_condition E now unspent prev_height ts)) (dvalues cd)"

section \<open>Facts\<close>

lemma first_error_None: "first_error f xs = Inr None \<longleftrightarrow> (\<forall>x \<in> set xs. f x = Inr None)"
  by (induction xs) (auto simp: rbind_def split: sum.splits option.splits)

lemma first_error_SomeD: "first_error f xs = Inr (Some e) \<Longrightarrow> \<exists>x \<in> set xs. f x = Inr (Some e)"
  by (induction xs) (auto simp: rbind_eq_Inr split: option.splits)

lemma first_error_concat: "first_error (first_error f) xss = first_error f (concat xss)"
proof (induction xss)
  case (Cons xs xss)
  have "first_error f (xs @ ys) = rbind (first_error f xs) (\<lambda>e. case e of None \<Rightarrow> first_error f ys | Some e \<Rightarrow> Inr (Some e))" for ys
    by (induction xs) (auto simp: rbind_def split: sum.splits option.splits)
  with Cons show ?case by simp
qed simp

lemma condition_dict_loop:
  "rfold (\<lambda>(op, l) d. rassert (\<not> din op d) (Inr (dput op l d))) cs d0 =
     (if distinct (map fst cs) \<and> (\<forall>c \<in> set cs. \<not> din (fst c) d0) then Inr (d0 @ cs) else Inl AssertionError)"
proof (induction cs arbitrary: d0)
  case (Cons c cs)
  obtain op l where c: "c = (op, l)" by (cases c)
  show ?case
  proof (cases "din op d0")
    case True
    then show ?thesis by (simp add: c)
  next
    case False
    have "din x (d0 @ [(op, l)]) \<longleftrightarrow> x = op \<or> din x d0" for x by (auto simp: din_def)
    then have "(distinct (map fst cs) \<and> (\<forall>c \<in> set cs. \<not> din (fst c) (d0 @ [(op, l)]))) \<longleftrightarrow>
        (distinct (map fst (c # cs)) \<and> (\<forall>c \<in> set (c # cs). \<not> din (fst c) d0))"
      using False by (auto simp: c)
    then show ?thesis using False Cons.IH [of "d0 @ [(op, l)]"] by (simp add: c dput_fresh)
  qed
qed simp

lemma condition_dict_eq:
  "condition_dict npc = (if distinct (map fst (conditions npc)) then Inr (conditions npc) else Inl AssertionError)"
  unfolding condition_dict_def condition_dict_loop by (simp add: din_def)

lemma py_index_0: "xs \<noteq> [] \<Longrightarrow> py_index xs 0 = Inr (hd xs)"
  by (cases xs) (simp_all add: py_index_def)

text \<open>What a lock demands of the height of the previous transaction block and of the time.\<close>

definition lock_holds :: "crypto \<Rightarrow> CoinRecord \<Rightarrow> int \<Rightarrow> int \<Rightarrow> ConditionWithArgs \<Rightarrow> bool" where
  "lock_holds E unspent prev_height t cvp \<longleftrightarrow>
     (let v = int_from_bytes E (hd (vars cvp)) in
      case opcode cvp of
        ASSERT_HEIGHT_ABSOLUTE \<Rightarrow> v \<le> prev_height
      | ASSERT_HEIGHT_RELATIVE \<Rightarrow> confirmed_block_index unspent + v \<le> prev_height
      | ASSERT_SECONDS_ABSOLUTE \<Rightarrow> v \<le> t
      | ASSERT_SECONDS_RELATIVE \<Rightarrow> timestamp unspent + v \<le> t
      | _ \<Rightarrow> True)"

definition checkable :: "ConditionWithArgs \<Rightarrow> bool" where
  "checkable cvp \<longleftrightarrow>
     (opcode cvp \<in> {ASSERT_HEIGHT_ABSOLUTE, ASSERT_HEIGHT_RELATIVE, ASSERT_SECONDS_ABSOLUTE, ASSERT_SECONDS_RELATIVE} \<longrightarrow> vars cvp \<noteq> []) \<and>
     opcode cvp \<notin> {ASSERT_MY_COIN_ID, ASSERT_COIN_ANNOUNCEMENT, ASSERT_PUZZLE_ANNOUNCEMENT, ASSERT_MY_PARENT_ID,
       ASSERT_MY_PUZZLEHASH, ASSERT_MY_AMOUNT}"

definition lock_error :: "ConditionOpcode \<Rightarrow> Err option" where
  "lock_error op =
     (case op of ASSERT_HEIGHT_ABSOLUTE \<Rightarrow> Some ASSERT_HEIGHT_ABSOLUTE_FAILED | ASSERT_HEIGHT_RELATIVE \<Rightarrow> Some ASSERT_HEIGHT_RELATIVE_FAILED
      | ASSERT_SECONDS_ABSOLUTE \<Rightarrow> Some ASSERT_SECONDS_ABSOLUTE_FAILED | ASSERT_SECONDS_RELATIVE \<Rightarrow> Some ASSERT_SECONDS_RELATIVE_FAILED
      | _ \<Rightarrow> None)"

lemma check_condition_eq:
  assumes "checkable cvp"
  shows "check_condition E now unspent h (Some t) cvp = Inr (if lock_holds E unspent h t cvp then None else lock_error (opcode cvp))"
  using assms
  by (cases "opcode cvp")
    (auto simp: check_condition_def checkable_def lock_holds_def lock_error_def py_index_0 Let_def
      mempool_assert_absolute_block_height_exceeds_def mempool_assert_relative_block_height_exceeds_def
      mempool_assert_absolute_time_exceeds_def mempool_assert_relative_time_exceeds_def)

lemma lock_error_lock: "\<not> lock_holds E unspent h t cvp \<Longrightarrow> lock_error (opcode cvp) \<noteq> None"
  by (auto simp: lock_holds_def lock_error_def Let_def split: ConditionOpcode.splits)

lemma first_error_total: "(\<And>x. x \<in> set xs \<Longrightarrow> \<exists>r. f x = Inr r) \<Longrightarrow> \<exists>r. first_error f xs = Inr r"
  by (induction xs) (force split: option.splits)+

text \<open>
  C32. The check of the conditions of a spend always gives a verdict on conditions that the generator program lets
  through: it accepts exactly when all height and time locks hold for the coin, the previous transaction block and the
  time, and otherwise reports the error of a lock that does not hold.
\<close>

theorem mempool_check_conditions_correct:
  assumes "\<forall>l \<in> set (dvalues cd). \<forall>cvp \<in> set l. checkable cvp"
  shows "\<exists>r. mempool_check_conditions_dict E now unspent cd h (Some t) = Inr r \<and>
    (r = None \<longleftrightarrow> (\<forall>l \<in> set (dvalues cd). \<forall>cvp \<in> set l. lock_holds E unspent h t cvp)) \<and>
    (\<forall>e. r = Some e \<longrightarrow> (\<exists>l \<in> set (dvalues cd). \<exists>cvp \<in> set l. \<not> lock_holds E unspent h t cvp \<and> lock_error (opcode cvp) = Some e))"
proof -
  let ?cs = "concat (dvalues cd)" and ?f = "check_condition E now unspent h (Some t)"
  have eq: "?f cvp = Inr (if lock_holds E unspent h t cvp then None else lock_error (opcode cvp))" if "cvp \<in> set ?cs" for cvp
    using assms that by (intro check_condition_eq) fastforce
  then have "\<exists>r. ?f cvp = Inr r" if "cvp \<in> set ?cs" for cvp using that by blast
  then obtain r where r: "first_error ?f ?cs = Inr r" using first_error_total by metis
  have "?f cvp = Inr None \<longleftrightarrow> lock_holds E unspent h t cvp" if "cvp \<in> set ?cs" for cvp
    using eq [OF that] lock_error_lock [of E unspent h t cvp] by auto
  then have none: "r = None \<longleftrightarrow> (\<forall>cvp \<in> set ?cs. lock_holds E unspent h t cvp)"
    using first_error_None [of ?f ?cs] unfolding r by (simp del: set_concat)
  have some: "\<exists>cvp \<in> set ?cs. \<not> lock_holds E unspent h t cvp \<and> lock_error (opcode cvp) = Some e" if "r = Some e" for e
    using first_error_SomeD [of ?f ?cs e] r that eq by (force split: if_splits)
  have all: "(\<forall>cvp \<in> set ?cs. P cvp) \<longleftrightarrow> (\<forall>l \<in> set (dvalues cd). \<forall>cvp \<in> set l. P cvp)"
    and ex: "(\<exists>cvp \<in> set ?cs. P cvp) \<longleftrightarrow> (\<exists>l \<in> set (dvalues cd). \<exists>cvp \<in> set l. P cvp)" for P
    by simp_all
  have "mempool_check_conditions_dict E now unspent cd h (Some t) = Inr r"
    unfolding mempool_check_conditions_dict_def first_error_concat by (rule r)
  moreover have "\<forall>e. r = Some e \<longrightarrow> (\<exists>l \<in> set (dvalues cd). \<exists>cvp \<in> set l. \<not> lock_holds E unspent h t cvp \<and> lock_error (opcode cvp) = Some e)"
    using some unfolding ex by blast
  ultimately show ?thesis using none unfolding all by blast
qed

theorem mempool_check_conditions_correct_witness:
  "mempool_check_conditions_dict demo_crypto 0 demo_unspent
     [(ASSERT_HEIGHT_RELATIVE, [\<lparr> opcode = ASSERT_HEIGHT_RELATIVE, vars = [[2]] \<rparr>])] 4 (Some 50) = Inr (Some ASSERT_HEIGHT_RELATIVE_FAILED)"
proof -
  have "int_from_bytes demo_crypto [2] = 2" by (simp add: demo_crypto_def be_int_signed_def be_int_def)
  then show ?thesis
    using mempool_check_conditions_correct [of "[(ASSERT_HEIGHT_RELATIVE, [\<lparr> opcode = ASSERT_HEIGHT_RELATIVE, vars = [[2]] \<rparr>])]"
        demo_crypto 0 demo_unspent 4 50]
    by (auto simp: checkable_def lock_holds_def lock_error_def demo_unspent_def new_coin_record_def)
qed

subsection \<open>Cost of a program\<close>

definition conditions_of :: "ConditionOpcode set \<Rightarrow> NPC list \<Rightarrow> int" where
  "conditions_of ops npcs = (\<Sum>npc \<leftarrow> npcs. \<Sum>(op, l) \<leftarrow> conditions npc. if op \<in> ops then int (length l) else 0)"

lemma condition_cost_eq:
  assumes "distinct (map fst (conditions npc))"
  shows "condition_cost npc acc = Inr (acc + 1200000 * conditions_of {AGG_SIG_UNSAFE, AGG_SIG_ME} [npc] + 1800000 * conditions_of {CREATE_COIN} [npc])"
proof -
  have one: "ConditionCost op = (if op \<in> {AGG_SIG_UNSAFE, AGG_SIG_ME} then 1200000 else if op \<in> {CREATE_COIN} then 1800000 else 0)" for op
    by (cases op) simp_all
  have "fold (\<lambda>(op, l) acc. acc + int (length l) * ConditionCost op) cs acc =
      acc + 1200000 * (\<Sum>(op, l) \<leftarrow> cs. if op \<in> {AGG_SIG_UNSAFE, AGG_SIG_ME} then int (length l) else 0)
        + 1800000 * (\<Sum>(op, l) \<leftarrow> cs. if op \<in> {CREATE_COIN} then int (length l) else 0)" for cs
    by (induction cs arbitrary: acc) (auto simp: one algebra_simps split: prod.splits)
  then show ?thesis using assms by (simp add: condition_cost_def condition_dict_eq conditions_of_def)
qed

lemma conditions_of_Cons: "conditions_of ops (npc # npcs) = conditions_of ops [npc] + conditions_of ops npcs"
  by (simp add: conditions_of_def)

text \<open>
  C33. The cost of a block or spend bundle is the cost of running it, plus 1200000 for each signature condition, 1800000 for
  each created coin and the price of the program bytes; it is a \<^verbatim>\<open>uint64\<close> or a \<^verbatim>\<open>ValueError\<close>, and a spend that lists an
  opcode twice is refused by an assertion.
\<close>

theorem cost_of_program:
  "calculate_cost_of_program prog res cpb =
     (if \<forall>npc \<in> set (npc_list res). distinct (map fst (conditions npc))
      then uint64 (clvm_cost res + 1200000 * conditions_of {AGG_SIG_UNSAFE, AGG_SIG_ME} (npc_list res)
             + 1800000 * conditions_of {CREATE_COIN} (npc_list res) + int (length prog) * cpb)
      else Inl AssertionError)"
proof -
  have "rfold condition_cost npcs acc =
    (if \<forall>npc \<in> set npcs. distinct (map fst (conditions npc))
     then Inr (acc + 1200000 * conditions_of {AGG_SIG_UNSAFE, AGG_SIG_ME} npcs + 1800000 * conditions_of {CREATE_COIN} npcs)
     else Inl AssertionError)" for npcs acc
  proof (induction npcs arbitrary: acc)
    case (Cons npc npcs)
    show ?case
    proof (cases "distinct (map fst (conditions npc))")
      case True
      then show ?thesis using Cons.IH
        by (simp add: condition_cost_eq conditions_of_Cons [of _ npc npcs] algebra_simps)
    next
      case False
      then show ?thesis by (simp add: condition_cost_def condition_dict_eq)
    qed
  qed (simp add: conditions_of_def)
  then show ?thesis by (simp add: calculate_cost_of_program_def)
qed

theorem cost_of_program_witness:
  "calculate_cost_of_program [1, 2]
     \<lparr> npc_error = None,
       npc_list = [\<lparr> coin_name = [], npc_puzzle_hash = [],
         conditions = [(CREATE_COIN, [\<lparr> opcode = CREATE_COIN, vars = [] \<rparr>, \<lparr> opcode = CREATE_COIN, vars = [] \<rparr>]),
                       (AGG_SIG_ME, [\<lparr> opcode = AGG_SIG_ME, vars = [] \<rparr>]), (RESERVE_FEE, [])] \<rparr>],
       clvm_cost = 100 \<rparr> 12000 = Inr 4824100"
  by (subst cost_of_program) (simp add: conditions_of_def uint64_eq)

subsection \<open>Grouping by opcode\<close>

lemma conditions_by_opcode_snoc:
  "conditions_by_opcode (cs @ [c]) =
     dput (opcode c) (dget_list (conditions_by_opcode cs) (opcode c) @ [c]) (conditions_by_opcode cs)"
proof -
  have "dput k w (dput k v d) = dput k w d" for k and v w :: "ConditionWithArgs list" and d :: conditions_dict
    by (induction d) (auto simp: dput_def)
  then show ?thesis by (simp add: conditions_by_opcode_def Let_def dget_list_def not_din_map_of)
qed

text \<open>
  Grouping conditions by opcode loses nothing: the dictionary has each opcode once, and under it the conditions with
  that opcode in their order, so that the groups together are a rearrangement of the list.
\<close>

lemma conditions_by_opcode_groups:
  "distinct (dkeys (conditions_by_opcode cs)) \<and>
   (\<forall>op. dget_list (conditions_by_opcode cs) op = filter (\<lambda>c. opcode c = op) cs) \<and>
   mset (concat (dvalues (conditions_by_opcode cs))) = mset cs"
proof -
  have put: "mset (concat (dvalues (dput k (dget_list d k @ [c]) d))) = add_mset c (mset (concat (dvalues d)))"
    if "distinct (dkeys d)" for k c and d :: conditions_dict
    using that
  proof (induction d)
    case (Cons p d)
    then show ?case by (cases p) (auto simp: dput_def dget_list_def)
  qed (simp add: dput_def dget_list_def)
  show ?thesis
  proof (induction cs rule: rev_induct)
    case Nil
    then show ?case by (simp add: conditions_by_opcode_def dget_list_def)
  next
    case (snoc c cs)
    have "dget_list (conditions_by_opcode (cs @ [c])) op = filter (\<lambda>c. opcode c = op) (cs @ [c])" for op
      using snoc.IH by (simp add: conditions_by_opcode_snoc dget_list_def [of "dput _ _ _"]) (auto simp: dget_list_def)
    moreover have "mset (concat (dvalues (conditions_by_opcode (cs @ [c])))) = mset (cs @ [c])"
      using snoc.IH put [of "conditions_by_opcode cs" "opcode c" c] by (simp add: conditions_by_opcode_snoc)
    ultimately show ?case using snoc.IH by (simp add: conditions_by_opcode_snoc)
  qed
qed

subsection \<open>Keys and messages\<close>

text \<open>The pair that one signature condition of a spend stands for.\<close>

definition sig_pair :: "bytes \<Rightarrow> bytes \<Rightarrow> ConditionOpcode \<Rightarrow> ConditionWithArgs \<Rightarrow> bytes \<times> bytes" where
  "sig_pair name additional_data op cwa =
     (vars cwa ! 0, if op = AGG_SIG_ME then vars cwa ! 1 @ name @ additional_data else vars cwa ! 1)"

definition sig_args_ok :: "ConditionWithArgs \<Rightarrow> bool" where
  "sig_args_ok cwa \<longleftrightarrow> length (vars cwa) = 2 \<and> length (vars cwa ! 0) = 48 \<and> length (vars cwa ! 1) \<le> 1024"

lemma agg_sig_args_eq: "agg_sig_args cwa = (if sig_args_ok cwa then Inr (vars cwa ! 0, vars cwa ! 1) else Inl AssertionError)"
  by (simp add: agg_sig_args_def sig_args_ok_def rassert_def bytes48_def sized_bytes_new_def)

definition sig_opcode :: "ConditionOpcode \<Rightarrow> bool" where
  "sig_opcode op \<longleftrightarrow> op = AGG_SIG_UNSAFE \<or> op = AGG_SIG_ME"

definition sig_pairs :: "bytes \<Rightarrow> NPC \<Rightarrow> (bytes \<times> bytes) list" where
  "sig_pairs additional_data npc =
     concat (map (\<lambda>(op, l). if sig_opcode op then map (sig_pair (coin_name npc) additional_data op) l else []) (conditions npc))"

definition sigs_ok :: "NPC \<Rightarrow> bool" where
  "sigs_ok npc \<longleftrightarrow> (\<forall>(op, l) \<in> set (conditions npc). sig_opcode op \<longrightarrow> (\<forall>cwa \<in> set l. sig_args_ok cwa))"

lemma pkm_loop:
  "rfold (\<lambda>cwa (pks, msgs). rbind (agg_sig_args cwa) (\<lambda>(pk, msg). Inr (pks @ [pk], msgs @ [msg @ suffix]))) l (pks, msgs) =
    (if \<forall>cwa \<in> set l. sig_args_ok cwa
     then Inr (pks @ map (\<lambda>cwa. vars cwa ! 0) l, msgs @ map (\<lambda>cwa. vars cwa ! 1 @ suffix) l) else Inl AssertionError)"
  by (induction l arbitrary: pks msgs) (simp_all add: agg_sig_args_eq)

lemma pkm_pairs_npc_eq:
  "pkm_pairs_npc ad npc (pks, msgs) =
    (if sigs_ok npc then Inr (pks @ map fst (sig_pairs ad npc), msgs @ map snd (sig_pairs ad npc)) else Inl AssertionError)"
proof -
  let ?step = "\<lambda>(op, l) ret.
        if op = AGG_SIG_UNSAFE then
          rfold (\<lambda>cwa (pks, msgs). rbind (agg_sig_args cwa) (\<lambda>(pk, msg). Inr (pks @ [pk], msgs @ [msg]))) l ret
        else if op = AGG_SIG_ME then
          rfold (\<lambda>cwa (pks, msgs). rbind (agg_sig_args cwa) (\<lambda>(pk, msg).
            Inr (pks @ [pk], msgs @ [msg @ coin_name npc @ ad]))) l ret
        else Inr ret"
  let ?pairs = "\<lambda>cs. concat (map (\<lambda>(op, l). if sig_opcode op then map (sig_pair (coin_name npc) ad op) l else []) cs)"
  have "rfold ?step cs (pks, msgs) =
    (if \<forall>(op, l) \<in> set cs. sig_opcode op \<longrightarrow> (\<forall>cwa \<in> set l. sig_args_ok cwa)
     then Inr (pks @ map fst (?pairs cs), msgs @ map snd (?pairs cs)) else Inl AssertionError)" for cs
  proof (induction cs arbitrary: pks msgs)
    case (Cons c cs)
    obtain op l where c: "c = (op, l)" by (cases c)
    have step: "?step (op, l) (pks, msgs) =
      (if sig_opcode op \<longrightarrow> (\<forall>cwa \<in> set l. sig_args_ok cwa)
       then Inr (pks @ map fst (?pairs [(op, l)]), msgs @ map snd (?pairs [(op, l)])) else Inl AssertionError)"
      using pkm_loop [of "[]" l pks msgs] pkm_loop [of "coin_name npc @ ad" l pks msgs]
      by (auto simp: sig_opcode_def sig_pair_def comp_def)
    have "?pairs (c # cs) = ?pairs [(op, l)] @ ?pairs cs" by (simp add: c)
    then show ?case
      using Cons.IH by (simp only: rfold.simps step c) (auto simp del: concat.simps list.map)
  qed simp
  then show ?thesis by (simp add: pkm_pairs_npc_def sigs_ok_def sig_pairs_def)
qed

lemma pkm_dict_eq:
  "pkm_pairs_for_conditions_dict cd name ad =
    (if \<forall>cwa \<in> set (dget_list cd AGG_SIG_UNSAFE) \<union> set (dget_list cd AGG_SIG_ME). sig_args_ok cwa
     then Inr (map (sig_pair name ad AGG_SIG_UNSAFE) (dget_list cd AGG_SIG_UNSAFE) @ map (sig_pair name ad AGG_SIG_ME) (dget_list cd AGG_SIG_ME))
     else Inl AssertionError)"
proof -
  have "rmap (\<lambda>cwa. rbind (agg_sig_args cwa) (\<lambda>(pk, msg). Inr (pk, msg @ name @ ad))) l =
      (if \<forall>cwa \<in> set l. sig_args_ok cwa then Inr (map (sig_pair name ad AGG_SIG_ME) l) else Inl AssertionError)"
    "rmap agg_sig_args l = (if \<forall>cwa \<in> set l. sig_args_ok cwa then Inr (map (sig_pair name ad AGG_SIG_UNSAFE) l) else Inl AssertionError)" for l
    by (induction l) (simp_all add: agg_sig_args_eq sig_pair_def)
  then show ?thesis by (simp add: pkm_pairs_for_conditions_dict_def ball_Un)
qed

lemma dget_list_Cons: "dget_list ((k, v) # d) j = (if j = k then v else dget_list d j)"
  by (simp add: dget_list_def)

lemma dget_list_fresh: "k \<notin> set (dkeys d) \<Longrightarrow> dget_list d k = []"
  by (auto simp: dget_list_def split: option.splits dest: map_of_SomeD) (force dest: map_of_SomeD)

lemma sig_pairs_mset:
  assumes "distinct (map fst cs)"
  shows "mset (concat (map (\<lambda>(op, l). if sig_opcode op then map (sig_pair name ad op) l else []) cs)) =
    mset (map (sig_pair name ad AGG_SIG_UNSAFE) (dget_list cs AGG_SIG_UNSAFE)) + mset (map (sig_pair name ad AGG_SIG_ME) (dget_list cs AGG_SIG_ME))"
  using assms
proof (induction cs)
  case (Cons c cs)
  obtain op l where c: "c = (op, l)" by (cases c)
  have "dget_list cs op = []" using Cons.prems by (simp add: c dget_list_fresh)
  with Cons show ?case by (auto simp: c sig_opcode_def dget_list_Cons ac_simps)
qed (simp add: dget_list_def)

lemma sigs_ok_dget:
  assumes "distinct (map fst (conditions npc))"
  shows "sigs_ok npc \<longleftrightarrow> (\<forall>cwa \<in> set (dget_list (conditions npc) AGG_SIG_UNSAFE) \<union> set (dget_list (conditions npc) AGG_SIG_ME). sig_args_ok cwa)"
proof -
  have "x \<in> set (dget_list cs op) \<longleftrightarrow> (\<exists>l. (op, l) \<in> set cs \<and> x \<in> set l)" if "distinct (map fst cs)" for cs op and x :: ConditionWithArgs
    using that
  proof (induction cs)
    case (Cons c cs)
    obtain o' l where c: "c = (o', l)" by (cases c)
    show ?case using Cons dget_list_fresh [of o' cs] by (auto simp: c dget_list_Cons image_iff)
  qed (simp add: dget_list_def)
  from this [OF assms] show ?thesis unfolding sigs_ok_def sig_opcode_def by blast
qed

text \<open>
  C34. The two ways of collecting what has to be signed agree: for a spend whose opcodes are grouped, \<^verbatim>\<open>pkm_pairs\<close> on its
  conditions and \<^verbatim>\<open>pkm_pairs_for_conditions_dict\<close> on its dictionary fail together, and otherwise give the same keys with
  the same messages, up to their order.
\<close>

theorem pkm_pairs_agree:
  assumes "distinct (map fst (conditions npc))"
  shows "(\<exists>e. pkm_pairs [npc] ad = Inl e \<and> pkm_pairs_for_conditions_dict (conditions npc) (coin_name npc) ad = Inl e) \<or>
    (\<exists>pks msgs pairs. pkm_pairs [npc] ad = Inr (pks, msgs) \<and> length pks = length msgs \<and>
       pkm_pairs_for_conditions_dict (conditions npc) (coin_name npc) ad = Inr pairs \<and> mset (zip pks msgs) = mset pairs)"
proof -
  have p: "pkm_pairs [npc] ad = (if sigs_ok npc then Inr (map fst (sig_pairs ad npc), map snd (sig_pairs ad npc)) else Inl AssertionError)"
    by (simp add: pkm_pairs_def pkm_pairs_npc_eq)
  have d: "pkm_pairs_for_conditions_dict (conditions npc) (coin_name npc) ad =
      (if sigs_ok npc
       then Inr (map (sig_pair (coin_name npc) ad AGG_SIG_UNSAFE) (dget_list (conditions npc) AGG_SIG_UNSAFE) @
                 map (sig_pair (coin_name npc) ad AGG_SIG_ME) (dget_list (conditions npc) AGG_SIG_ME)) else Inl AssertionError)"
    by (simp only: pkm_dict_eq sigs_ok_dget [OF assms])
  show ?thesis
    using sig_pairs_mset [OF assms, of "coin_name npc" ad] by (cases "sigs_ok npc") (simp_all add: p d sig_pairs_def zip_map_fst_snd)
qed

theorem pkm_pairs_agree_witness:
  "\<exists>pks msgs. pkm_pairs [\<lparr> coin_name = [7], npc_puzzle_hash = [], conditions = [(AGG_SIG_ME, [\<lparr> opcode = AGG_SIG_ME, vars = [replicate 48 1, [2]] \<rparr>])] \<rparr>] [9] =
     Inr (pks, msgs) \<and> mset (zip pks msgs) = {#(replicate 48 1, [2, 7, 9])#}"
proof -
  have "pkm_pairs_for_conditions_dict [(AGG_SIG_ME, [\<lparr> opcode = AGG_SIG_ME, vars = [replicate 48 1, [2]] \<rparr>])] [7] [9] = Inr [(replicate 48 1, [2, 7, 9])]"
    by (simp add: pkm_dict_eq dget_list_def sig_args_ok_def sig_pair_def)
  then show ?thesis
    using pkm_pairs_agree [of "\<lparr> coin_name = [7], npc_puzzle_hash = [], conditions = [(AGG_SIG_ME, [\<lparr> opcode = AGG_SIG_ME, vars = [replicate 48 1, [2]] \<rparr>])] \<rparr>" "[9]"]
    by auto
qed

end
