(* ===== verification/Mempool.thy ===== *)
theory Mempool
  imports Conditions
begin

text \<open>
  \<^verbatim>\<open>hddcoin/full_node/mempool.py\<close> and \<^verbatim>\<open>hddcoin/full_node/pending_tx_cache.py\<close> with \<^verbatim>\<open>types/mempool_item.py\<close>, \<^verbatim>\<open>types/spend_bundle.py\<close>
  and \<^verbatim>\<open>types/coin_spend.py\<close>. \<^verbatim>\<open>SortedDict\<close> is a class of the package \<^verbatim>\<open>sortedcontainers\<close>: a dictionary whose iteration
  order is the parameter \<open>SD\<close>, of which \<open>sorted_dict_ok\<close> states the documented contract. The invariant \<open>mempool_ok\<close> ties
  the four indexes of the pool together; the lemmas show that adding with eviction keeps it and evicts in the order
  of increasing fee rate.
\<close>

record CoinSpend =
  spend_coin :: Coin
  puzzle_reveal :: bytes
  solution :: bytes

record SpendBundle =
  coin_spends :: "CoinSpend list"
  aggregated_signature :: bytes

definition CoinSpend_additions :: "crypto \<Rightarrow> 'p clvm \<Rightarrow> int \<Rightarrow> CoinSpend \<Rightarrow> Coin list res" where
  "CoinSpend_additions E M infinite_cost self =
     additions_for_solution E M (Coin_name E (spend_coin self)) (puzzle_reveal self) (solution self) infinite_cost"

definition CoinSpend_reserved_fee :: "crypto \<Rightarrow> 'p clvm \<Rightarrow> int \<Rightarrow> CoinSpend \<Rightarrow> int res" where
  "CoinSpend_reserved_fee E M infinite_cost self = fee_for_solution E M (puzzle_reveal self) (solution self) infinite_cost"

definition SpendBundle_additions :: "crypto \<Rightarrow> 'p clvm \<Rightarrow> int \<Rightarrow> SpendBundle \<Rightarrow> Coin list res" where
  "SpendBundle_additions E M infinite_cost self =
     rbind (rmap (CoinSpend_additions E M infinite_cost) (coin_spends self)) (\<lambda>ls. Inr (concat ls))"

definition SpendBundle_removals :: "SpendBundle \<Rightarrow> Coin list" where
  "SpendBundle_removals self = map spend_coin (coin_spends self)"

definition SpendBundle_fees :: "crypto \<Rightarrow> 'p clvm \<Rightarrow> int \<Rightarrow> SpendBundle \<Rightarrow> int res" where
  "SpendBundle_fees E M infinite_cost self =
     rbind (SpendBundle_additions E M infinite_cost self) (\<lambda>adds.
       Inr (sum_list (map amount (SpendBundle_removals self)) - sum_list (map amount adds)))"

definition SpendBundle_not_ephemeral_additions :: "crypto \<Rightarrow> 'p clvm \<Rightarrow> int \<Rightarrow> SpendBundle \<Rightarrow> Coin list res" where
  "SpendBundle_not_ephemeral_additions E M infinite_cost self =
     rbind (SpendBundle_additions E M infinite_cost self) (\<lambda>adds.
       Inr (filter (\<lambda>add. add \<notin> set (SpendBundle_removals self)) adds))"

text \<open>\<open>agg\<close> is \<^verbatim>\<open>AugSchemeMPL.aggregate\<close>.\<close>

definition SpendBundle_aggregate :: "(bytes list \<Rightarrow> bytes) \<Rightarrow> SpendBundle list \<Rightarrow> SpendBundle" where
  "SpendBundle_aggregate agg spend_bundles =
     \<lparr> coin_spends = concat (map coin_spends spend_bundles), aggregated_signature = agg (map aggregated_signature spend_bundles) \<rparr>"

record MempoolItem =
  mi_spend_bundle :: SpendBundle
  mi_fee :: int
  mi_npc_result :: NPCResult
  mi_cost :: int
  spend_bundle_name :: bytes
  mi_additions :: "Coin list"
  mi_removals :: "Coin list"
  mi_program :: bytes

definition fee_per_cost :: "MempoolItem \<Rightarrow> rat res" where
  "fee_per_cost self = py_true_div (mi_fee self) (mi_cost self)"

type_synonym item_dict = "(bytes, MempoolItem) dict"
type_synonym sorted_dict = "(rat, item_dict) dict"

section \<open>Mempool\<close>

record Mempool =
  spends :: item_dict
  sorted_spends :: sorted_dict
  mp_additions :: item_dict
  mp_removals :: item_dict
  max_size_in_cost :: int
  total_mempool_cost :: int

text \<open>What \<^verbatim>\<open>SortedDict\<close> promises: \<^verbatim>\<open>items()\<close> gives the items in increasing order of the keys.\<close>

definition sorted_dict_ok :: "(sorted_dict \<Rightarrow> (rat \<times> item_dict) list) \<Rightarrow> bool" where
  "sorted_dict_ok SD \<longleftrightarrow>
     (\<forall>d. distinct (dkeys d) \<longrightarrow> set (SD d) = set d \<and> sorted (map fst (SD d)) \<and> distinct (map fst (SD d)))"

definition Mempool_init :: "int \<Rightarrow> Mempool" where
  "Mempool_init max_size =
     \<lparr> spends = [], sorted_spends = [], mp_additions = [], mp_removals = [], max_size_in_cost = max_size, total_mempool_cost = 0 \<rparr>"

definition at_full_capacity :: "int \<Rightarrow> Mempool \<Rightarrow> bool" where
  "at_full_capacity c self \<longleftrightarrow> total_mempool_cost self + c > max_size_in_cost self"

text \<open>The two nested loops of \<^verbatim>\<open>get_min_fee_rate\<close> run over the pairs of a fee rate and an item in this order.\<close>

definition rated_items :: "(sorted_dict \<Rightarrow> (rat \<times> item_dict) list) \<Rightarrow> Mempool \<Rightarrow> (rat \<times> MempoolItem) list" where
  "rated_items SD self = concat (map (\<lambda>(fpc, dic). map (\<lambda>(n, item). (fpc, item)) dic) (SD (sorted_spends self)))"

fun min_fee_loop :: "int \<Rightarrow> int \<Rightarrow> int \<Rightarrow> (rat \<times> MempoolItem) list \<Rightarrow> rat res" where
  "min_fee_loop c max_size current_cost [] = Inl ValueError"
| "min_fee_loop c max_size current_cost ((fpc, item) # items) =
     (let current_cost = current_cost - mi_cost item
      in if current_cost + c \<le> max_size then Inr fpc else min_fee_loop c max_size current_cost items)"

definition get_min_fee_rate :: "(sorted_dict \<Rightarrow> (rat \<times> item_dict) list) \<Rightarrow> int \<Rightarrow> Mempool \<Rightarrow> rat res" where
  "get_min_fee_rate SD c self =
     (if at_full_capacity c self then min_fee_loop c (max_size_in_cost self) (total_mempool_cost self) (rated_items SD self)
      else Inr 0)"

definition remove_from_pool :: "crypto \<Rightarrow> MempoolItem \<Rightarrow> Mempool \<Rightarrow> Mempool res" where
  "remove_from_pool E item self =
     rbind (rfold (\<lambda>rem. ddel (Coin_name E rem)) (mi_removals item) (mp_removals self)) (\<lambda>rems.
     rbind (rfold (\<lambda>add. ddel (Coin_name E add)) (mi_additions item) (mp_additions self)) (\<lambda>adds.
     rbind (ddel (spend_bundle_name item) (spends self)) (\<lambda>sps.
     rbind (fee_per_cost item) (\<lambda>fpc.
     rbind (dget (sorted_spends self) fpc) (\<lambda>dic.
     rbind (ddel (spend_bundle_name item) dic) (\<lambda>dic.
     rbind (if length dic = 0 then ddel fpc (sorted_spends self) else Inr (dput fpc dic (sorted_spends self))) (\<lambda>sorted.
     let t = total_mempool_cost self - mi_cost item in
     rassert (t \<ge> 0)
       (Inr (self\<lparr>spends := sps, sorted_spends := sorted, mp_additions := adds, mp_removals := rems, total_mempool_cost := t\<rparr>)))))))))"

definition evict_step :: "crypto \<Rightarrow> (sorted_dict \<Rightarrow> (rat \<times> item_dict) list) \<Rightarrow> Mempool \<Rightarrow> Mempool res" where
  "evict_step E SD self =
     rbind (py_index (SD (sorted_spends self)) 0) (\<lambda>(fpc, val).
     rbind (py_index (dvalues val) 0) (\<lambda>to_remove. remove_from_pool E to_remove self))"

definition add_to_pool :: "crypto \<Rightarrow> (sorted_dict \<Rightarrow> (rat \<times> item_dict) list) \<Rightarrow> MempoolItem \<Rightarrow> Mempool \<Rightarrow> Mempool res" where
  "add_to_pool E SD item self =
     rbind (py_while (at_full_capacity (mi_cost item)) (evict_step E SD) self) (\<lambda>self.
     rbind (fee_per_cost item) (\<lambda>fpc.
     let sps = dput (spend_bundle_name item) item (spends self);
         sorted = (if \<not> din fpc (sorted_spends self) then dput fpc [] (sorted_spends self) else sorted_spends self) in
     rbind (dget sorted fpc) (\<lambda>dic.
       Inr (self\<lparr>spends := sps,
                 sorted_spends := dput fpc (dput (spend_bundle_name item) item dic) sorted,
                 mp_additions := fold (\<lambda>add. dput (Coin_name E add) item) (mi_additions item) (mp_additions self),
                 mp_removals := fold (\<lambda>coin. dput (Coin_name E coin) item) (mi_removals item) (mp_removals self),
                 total_mempool_cost := total_mempool_cost self + mi_cost item\<rparr>))))"

section \<open>Pending transactions\<close>

record PendingTxCache =
  cache_max_total_cost :: int
  cache_cost :: int
  txs :: item_dict

definition PendingTxCache_init :: "int \<Rightarrow> PendingTxCache" where
  "PendingTxCache_init cost_limit = \<lparr> cache_max_total_cost = cost_limit, cache_cost = 0, txs = [] \<rparr>"

definition pending_evict :: "PendingTxCache \<Rightarrow> PendingTxCache res" where
  "pending_evict self =
     rbind (py_index (dkeys (txs self)) 0) (\<lambda>first_in.
     rbind (dget (txs self) first_in) (\<lambda>item.
     rbind (ddel first_in (txs self)) (\<lambda>d. Inr (self\<lparr>cache_cost := cache_cost self - mi_cost item, txs := d\<rparr>))))"

definition pending_add :: "MempoolItem \<Rightarrow> PendingTxCache \<Rightarrow> PendingTxCache res" where
  "pending_add item self =
     (if din (spend_bundle_name item) (txs self) then Inr self
      else py_while (\<lambda>s. cache_cost s > cache_max_total_cost s) pending_evict
             (self\<lparr>txs := dput (spend_bundle_name item) item (txs self), cache_cost := cache_cost self + mi_cost item\<rparr>))"

definition drain :: "PendingTxCache \<Rightarrow> item_dict \<times> PendingTxCache" where
  "drain self = (txs self, self\<lparr>txs := [], cache_cost := 0\<rparr>)"

definition pending_cost :: "PendingTxCache \<Rightarrow> int" where
  "pending_cost self = cache_cost self"

section \<open>The order of a sorted dictionary\<close>

declare map_of_eq_Some_iff [simp del]

lemma sorted_keys_unique:
  fixes xs ys :: "('k :: linorder \<times> 'v) list"
  assumes "set xs = set ys" "sorted (map fst xs)" "sorted (map fst ys)" "distinct (map fst xs)" "distinct (map fst ys)"
  shows "xs = ys"
  using assms
proof (induction xs arbitrary: ys)
  case (Cons x xs)
  obtain y ys' where ys: "ys = y # ys'" using Cons.prems(1) by (cases ys) auto
  have lt: "fst x < fst z" if "z \<in> set xs" for z
    using Cons.prems(2,4) that by (fastforce simp: order.strict_iff_order)
  have lt': "fst y < fst z" if "z \<in> set ys'" for z
    using Cons.prems(3,5) that ys by (fastforce simp: order.strict_iff_order)
  have xy: "x = y" using Cons.prems(1) lt [of y] lt' [of x] ys by (metis list.set_intros(1) order.asym set_ConsD)
  have "x \<notin> set xs" "x \<notin> set ys'" using lt [of x] lt' [of x] xy by auto
  then have "set xs = set ys'" using Cons.prems(1) ys xy by auto
  then have "xs = ys'" using Cons.IH [of ys'] Cons.prems ys by simp
  then show ?case using xy ys by simp
qed simp

lemma SD_Cons:
  assumes "sorted_dict_ok SD" "distinct (dkeys d)" "SD d = (k, v) # r"
  shows "SD (AList.delete k d) = r" and "SD (dput k w d) = (k, w) # r" and "map_of d k = Some v"
proof -
  have SD: "set (SD e) = set e" "sorted (map fst (SD e))" "distinct (map fst (SD e))" if "distinct (dkeys e)" for e
    using assms(1) that by (auto simp: sorted_dict_ok_def)
  have d: "set d = set ((k, v) # r)" "sorted (map fst ((k, v) # r))" "distinct (map fst ((k, v) # r))"
    using SD [OF assms(2)] assms(3) by auto
  show m: "map_of d k = Some v" using d(1) assms(2) by (simp add: distinct_map_of_iff)
  have ne: "j \<noteq> k" if "(j, x) \<in> set r" for j x using that d(3) by force
  have "set (AList.delete k d) = set r" using d(1) ne by (auto simp: AList.delete_eq)
  then show "SD (AList.delete k d) = r"
    using SD [of "AList.delete k d"] assms(2) d by (intro sorted_keys_unique) auto
  have "set (dput k w d) = set ((k, w) # r)"
  proof -
    have "(j, x) \<in> set (dput k w d) \<longleftrightarrow> (j, x) \<in> set ((k, w) # r)" for j x
      using distinct_map_of_iff [OF distinct_dput [OF assms(2), of k w], of j x] distinct_map_of_iff [OF assms(2), of j x] d(1) ne
      by (auto split: if_splits)
    then show ?thesis by auto
  qed
  then show "SD (dput k w d) = (k, w) # r"
    using SD [of "dput k w d"] assms(2) d by (intro sorted_keys_unique) auto
qed

section \<open>Invariant of the pool\<close>

definition rate :: "MempoolItem \<Rightarrow> rat" where
  "rate item = fl (of_int (mi_fee item) / of_int (mi_cost item))"

definition item_ok :: "crypto \<Rightarrow> MempoolItem \<Rightarrow> bool" where
  "item_ok E i \<longleftrightarrow> 0 < mi_cost i \<and> distinct (map (Coin_name E) (mi_removals i)) \<and> distinct (map (Coin_name E) (mi_additions i))"

definition spends_ok :: "crypto \<Rightarrow> Mempool \<Rightarrow> bool" where
  "spends_ok E m \<longleftrightarrow>
     distinct (dkeys (spends m)) \<and>
     (\<forall>n i. map_of (spends m) n = Some i \<longrightarrow> item_ok E i \<and> spend_bundle_name i = n) \<and>
     total_mempool_cost m = dsum mi_cost (spends m) \<and> total_mempool_cost m \<le> max_size_in_cost m"

definition sorted_ok :: "Mempool \<Rightarrow> bool" where
  "sorted_ok m \<longleftrightarrow>
     distinct (dkeys (sorted_spends m)) \<and>
     (\<forall>r d. map_of (sorted_spends m) r = Some d \<longrightarrow>
        d \<noteq> [] \<and> distinct (dkeys d) \<and> (\<forall>n i. map_of d n = Some i \<longrightarrow> map_of (spends m) n = Some i \<and> rate i = r)) \<and>
     (\<forall>n i. map_of (spends m) n = Some i \<longrightarrow> (\<exists>d. map_of (sorted_spends m) (rate i) = Some d \<and> map_of d n = Some i))"

text \<open>An index by coin name: \<open>coins i\<close> are the coins under which item \<open>i\<close> is found.\<close>

definition index_ok :: "crypto \<Rightarrow> (MempoolItem \<Rightarrow> Coin list) \<Rightarrow> item_dict \<Rightarrow> item_dict \<Rightarrow> bool" where
  "index_ok E coins idx sps \<longleftrightarrow>
     distinct (dkeys idx) \<and>
     (\<forall>n i. map_of idx n = Some i \<longleftrightarrow> map_of sps (spend_bundle_name i) = Some i \<and> n \<in> Coin_name E ` set (coins i))"

definition mempool_ok :: "crypto \<Rightarrow> Mempool \<Rightarrow> bool" where
  "mempool_ok E m \<longleftrightarrow>
     spends_ok E m \<and> sorted_ok m \<and> index_ok E mi_removals (mp_removals m) (spends m) \<and> index_ok E mi_additions (mp_additions m) (spends m)"

lemma fee_per_cost_rate: "0 < mi_cost i \<Longrightarrow> fee_per_cost i = Inr (rate i)"
  by (simp add: fee_per_cost_def py_true_div_def rate_def)

lemma mempool_ok_init: "0 \<le> max_size \<Longrightarrow> mempool_ok E (Mempool_init max_size)"
  by (simp add: mempool_ok_def spends_ok_def sorted_ok_def index_ok_def Mempool_init_def)

lemma ddel_fold:
  assumes "distinct (map f cs)" "\<forall>c \<in> set cs. din (f c) idx" "distinct (dkeys idx)"
  shows "\<exists>idx'. rfold (\<lambda>c. ddel (f c)) cs idx = Inr idx' \<and> distinct (dkeys idx') \<and> map_of idx' = map_of idx |` (- f ` set cs)"
  using assms
proof (induction cs arbitrary: idx)
  case (Cons c cs)
  have "\<forall>c' \<in> set cs. din (f c') (AList.delete (f c) idx)" using Cons.prems(1,2) by (auto simp: image_iff)
  moreover have "distinct (map f cs)" "distinct (dkeys (AList.delete (f c) idx))" using Cons.prems(1,3) by simp_all
  ultimately obtain idx' where r: "rfold (\<lambda>c. ddel (f c)) cs (AList.delete (f c) idx) = Inr idx'" "distinct (dkeys idx')"
    "map_of idx' = map_of (AList.delete (f c) idx) |` (- f ` set cs)"
    using Cons.IH by blast
  have "map_of idx' = map_of idx |` (- f ` set (c # cs))"
    by (auto simp: r(3) restrict_map_def)
  then show ?case using r(1,2) Cons.prems(2) by simp
qed (simp add: restrict_map_def)

text \<open>Deleting the coins of an item from an index.\<close>

lemma index_delete:
  assumes "index_ok E coins idx sps" "map_of sps (spend_bundle_name i) = Some i" "distinct (map (Coin_name E) (coins i))"
    and "distinct (dkeys sps)"
  shows "\<exists>idx'. rfold (\<lambda>c. ddel (Coin_name E c)) (coins i) idx = Inr idx' \<and> index_ok E coins idx' (AList.delete (spend_bundle_name i) sps)"
proof -
  have iff: "map_of idx n = Some j \<longleftrightarrow> map_of sps (spend_bundle_name j) = Some j \<and> n \<in> Coin_name E ` set (coins j)" for n j
    using assms(1) unfolding index_ok_def by blast
  have di: "distinct (dkeys idx)" using assms(1) unfolding index_ok_def by blast
  have "din (Coin_name E c) idx" if "c \<in> set (coins i)" for c
  proof -
    have "map_of idx (Coin_name E c) = Some i" using iff assms(2) that by blast
    then show ?thesis by (rule map_of_Some_din)
  qed
  then have "\<forall>c \<in> set (coins i). din (Coin_name E c) idx" by blast
  from ddel_fold [OF assms(3) this di] obtain idx' where r: "rfold (\<lambda>c. ddel (Coin_name E c)) (coins i) idx = Inr idx'" "distinct (dkeys idx')"
    "map_of idx' = map_of idx |` (- Coin_name E ` set (coins i))"
    by blast
  have "map_of idx' n = Some j \<longleftrightarrow>
      map_of (AList.delete (spend_bundle_name i) sps) (spend_bundle_name j) = Some j \<and> n \<in> Coin_name E ` set (coins j)" for n j
  proof
    assume "map_of idx' n = Some j"
    then have n: "n \<notin> Coin_name E ` set (coins i)" "map_of idx n = Some j" by (simp_all add: r(3) restrict_map_def split: if_splits)
    then have j: "map_of sps (spend_bundle_name j) = Some j" "n \<in> Coin_name E ` set (coins j)" unfolding iff by blast+
    have "spend_bundle_name j \<noteq> spend_bundle_name i"
    proof
      assume "spend_bundle_name j = spend_bundle_name i"
      then have "i = j" using j(1) assms(2) by (metis option.inject)
      then show False using n(1) j(2) by blast
    qed
    then show "map_of (AList.delete (spend_bundle_name i) sps) (spend_bundle_name j) = Some j \<and> n \<in> Coin_name E ` set (coins j)"
      using j by simp
  next
    assume "map_of (AList.delete (spend_bundle_name i) sps) (spend_bundle_name j) = Some j \<and> n \<in> Coin_name E ` set (coins j)"
    then have j: "spend_bundle_name j \<noteq> spend_bundle_name i" "map_of sps (spend_bundle_name j) = Some j" "n \<in> Coin_name E ` set (coins j)"
      by (simp_all split: if_splits)
    then have n: "map_of idx n = Some j" using iff by blast
    have "n \<notin> Coin_name E ` set (coins i)"
    proof
      assume "n \<in> Coin_name E ` set (coins i)"
      then have "map_of idx n = Some i" using iff assms(2) by blast
      then show False using n j(1) by simp
    qed
    then show "map_of idx' n = Some j" using n by (simp add: r(3) restrict_map_def)
  qed
  then have "index_ok E coins idx' (AList.delete (spend_bundle_name i) sps)" using r(2) unfolding index_ok_def by blast
  then show ?thesis using r(1) by blast
qed

lemma spends_dsum_ge:
  assumes "spends_ok E m" "map_of (spends m) n = Some i"
  shows "mi_cost i \<le> total_mempool_cost m"
proof -
  have "0 \<le> dsum mi_cost (AList.delete n (spends m))"
  proof (rule dsum_nonneg)
    fix k v assume "(k, v) \<in> set (AList.delete n (spends m))"
    then have "(k, v) \<in> set (spends m)" by (auto simp: AList.delete_eq)
    then show "0 \<le> mi_cost v"
      using assms(1) by (auto simp: spends_ok_def item_ok_def distinct_map_of_iff intro: less_imp_le)
  qed
  then show ?thesis using assms dsum_delete [of "spends m" n i mi_cost] by (simp add: spends_ok_def)
qed

text \<open>The bucket of an item after the item is taken out.\<close>

definition sorted_without :: "MempoolItem \<Rightarrow> sorted_dict \<Rightarrow> sorted_dict" where
  "sorted_without i s =
     (case map_of s (rate i) of
        None \<Rightarrow> s
      | Some d \<Rightarrow>
          let d' = AList.delete (spend_bundle_name i) d in if d' = [] then AList.delete (rate i) s else dput (rate i) d' s)"

lemma sorted_okD:
  assumes "sorted_ok m"
  shows "distinct (dkeys (sorted_spends m))"
    and "map_of (sorted_spends m) r = Some d \<Longrightarrow>
      d \<noteq> [] \<and> distinct (dkeys d) \<and> (\<forall>n i. map_of d n = Some i \<longrightarrow> map_of (spends m) n = Some i \<and> rate i = r)"
    and "map_of (spends m) n = Some i \<Longrightarrow> \<exists>d. map_of (sorted_spends m) (rate i) = Some d \<and> map_of d n = Some i"
  using assms unfolding sorted_ok_def by blast+

lemma sorted_ok_without:
  assumes "sorted_ok m" "map_of (spends m) (spend_bundle_name i) = Some i"
  shows "sorted_ok (m\<lparr>spends := AList.delete (spend_bundle_name i) (spends m), sorted_spends := sorted_without i (sorted_spends m)\<rparr>)"
proof -
  let ?n = "spend_bundle_name i" and ?s = "sorted_spends m"
  obtain d where d: "map_of ?s (rate i) = Some d" "map_of d ?n = Some i"
    using sorted_okD(3) [OF assms] by blast
  then have "distinct (dkeys d)" using sorted_okD(2) [OF assms(1)] by blast
  note d = d this
  have bucket: "map_of ?s r = Some e \<Longrightarrow> e \<noteq> [] \<and> distinct (dkeys e) \<and> (\<forall>n j. map_of e n = Some j \<longrightarrow> map_of (spends m) n = Some j \<and> rate j = r)" for r e
    by (rule sorted_okD(2) [OF assms(1)])
  have w: "map_of (sorted_without i ?s) r =
      (if r = rate i then (if AList.delete ?n d = [] then None else Some (AList.delete ?n d)) else map_of ?s r)" for r
    by (simp add: sorted_without_def d(1) Let_def)
  have "distinct (dkeys (sorted_without i ?s))" using assms(1) by (simp add: sorted_without_def sorted_ok_def d(1) Let_def)
  moreover have "e \<noteq> [] \<and> distinct (dkeys e) \<and>
      (\<forall>n j. map_of e n = Some j \<longrightarrow> map_of (AList.delete ?n (spends m)) n = Some j \<and> rate j = r)"
    if e: "map_of (sorted_without i ?s) r = Some e" for r e
  proof (cases "r = rate i")
    case True
    then show ?thesis using e bucket [OF d(1)] d(3) by (simp add: w split: if_splits) auto
  next
    case False
    then have "map_of ?s r = Some e" using e by (simp add: w)
    note b = bucket [OF this]
    then have "map_of e ?n = None" using False assms(2) by (metis not_None_eq option.inject)
    then show ?thesis using b by auto
  qed
  moreover have "\<exists>e. map_of (sorted_without i ?s) (rate j) = Some e \<and> map_of e n = Some j"
    if j: "map_of (AList.delete ?n (spends m)) n = Some j" for n j
  proof -
    have n: "n \<noteq> ?n" "map_of (spends m) n = Some j" using j by (auto split: if_splits)
    then obtain e where e: "map_of ?s (rate j) = Some e" "map_of e n = Some j" using sorted_okD(3) [OF assms(1)] by blast
    show ?thesis
    proof (cases "rate j = rate i")
      case True
      then have m: "map_of (AList.delete ?n d) n = Some j" using e d n by simp
      then have "AList.delete ?n d \<noteq> []" by (cases "AList.delete ?n d") (simp_all del: map_of_AList_delete)
      then show ?thesis using True m by (simp add: w)
    next
      case False
      then show ?thesis using e by (auto simp: w)
    qed
  qed
  ultimately show ?thesis by (simp add: sorted_ok_def)
qed

lemma remove_from_pool_ok:
  assumes "mempool_ok E m" "map_of (spends m) (spend_bundle_name i) = Some i"
  shows "\<exists>m'. remove_from_pool E i m = Inr m' \<and> mempool_ok E m' \<and> spends m' = AList.delete (spend_bundle_name i) (spends m) \<and>
    sorted_spends m' = sorted_without i (sorted_spends m) \<and> total_mempool_cost m' = total_mempool_cost m - mi_cost i \<and>
    max_size_in_cost m' = max_size_in_cost m"
proof -
  let ?n = "spend_bundle_name i"
  have sp: "spends_ok E m" and so: "sorted_ok m" and ir: "index_ok E mi_removals (mp_removals m) (spends m)"
    and ia: "index_ok E mi_additions (mp_additions m) (spends m)" using assms(1) by (auto simp: mempool_ok_def)
  have i: "item_ok E i" and ds: "distinct (dkeys (spends m))" using sp assms(2) by (auto simp: spends_ok_def)
  obtain rems where rems: "rfold (\<lambda>c. ddel (Coin_name E c)) (mi_removals i) (mp_removals m) = Inr rems"
    "index_ok E mi_removals rems (AList.delete ?n (spends m))"
    using index_delete [OF ir assms(2) _ ds] i by (auto simp: item_ok_def)
  obtain adds where adds: "rfold (\<lambda>c. ddel (Coin_name E c)) (mi_additions i) (mp_additions m) = Inr adds"
    "index_ok E mi_additions adds (AList.delete ?n (spends m))"
    using index_delete [OF ia assms(2) _ ds] i by (auto simp: item_ok_def)
  obtain d where d: "map_of (sorted_spends m) (rate i) = Some d" "map_of d ?n = Some i"
    using sorted_okD(3) [OF so assms(2)] by blast
  have del: "ddel ?n (spends m) = Inr (AList.delete ?n (spends m))" "ddel ?n d = Inr (AList.delete ?n d)"
    "ddel (rate i) (sorted_spends m) = Inr (AList.delete (rate i) (sorted_spends m))"
    using assms(2) d by (auto dest: map_of_Some_din)
  define m' where "m' = m\<lparr>spends := AList.delete ?n (spends m), sorted_spends := sorted_without i (sorted_spends m), mp_additions := adds,
      mp_removals := rems, total_mempool_cost := total_mempool_cost m - mi_cost i\<rparr>"
  have "remove_from_pool E i m = Inr m'"
    using spends_dsum_ge [OF sp assms(2)] i d(1)
    by (simp add: remove_from_pool_def rems(1) adds(1) del fee_per_cost_rate item_ok_def dget_def m'_def sorted_without_def Let_def)
  moreover have "spends_ok E m'"
    using sp dsum_delete [OF ds assms(2), of mi_cost] i by (auto simp: spends_ok_def m'_def item_ok_def)
  moreover have "sorted_ok m'" using sorted_ok_without [OF so assms(2)] by (simp add: sorted_ok_def m'_def)
  ultimately show ?thesis using rems(2) adds(2) by (auto simp: mempool_ok_def m'_def)
qed

section \<open>Eviction\<close>

lemma SD_items:
  assumes "sorted_dict_ok SD" "sorted_ok m"
  shows "set (SD (sorted_spends m)) = set (sorted_spends m)" "sorted (map fst (SD (sorted_spends m)))"
  using assms by (auto simp: sorted_dict_ok_def sorted_okD(1))

lemma bucket_items:
  assumes "sorted_dict_ok SD" "sorted_ok m" "(r, d) \<in> set (SD (sorted_spends m))"
  shows "distinct (dkeys d) \<and> (\<forall>n i. map_of d n = Some i \<longrightarrow> map_of (spends m) n = Some i \<and> rate i = r)"
proof -
  have "map_of (sorted_spends m) r = Some d"
    using assms(3) unfolding SD_items(1) [OF assms(1,2)] distinct_map_of_iff [OF sorted_okD(1) [OF assms(2)]] .
  from sorted_okD(2) [OF assms(2) this] show ?thesis by blast
qed

text \<open>The pairs that the loops run over are the items of the pool with their rates, cheapest first.\<close>

lemma rated_items_pool:
  assumes "sorted_dict_ok SD" "mempool_ok E m"
  shows "(r, i) \<in> set (rated_items SD m) \<longleftrightarrow> r = rate i \<and> map_of (spends m) (spend_bundle_name i) = Some i"
    and "sorted (map fst (rated_items SD m))"
proof -
  have so: "sorted_ok m" and sp: "spends_ok E m" using assms(2) by (auto simp: mempool_ok_def)
  note SD = SD_items [OF assms(1) so]
  note b = bucket_items [OF assms(1) so]
  show "(r, i) \<in> set (rated_items SD m) \<longleftrightarrow> r = rate i \<and> map_of (spends m) (spend_bundle_name i) = Some i"
  proof
    assume "(r, i) \<in> set (rated_items SD m)"
    then obtain d n where d: "(r, d) \<in> set (SD (sorted_spends m))" "(n, i) \<in> set d" by (auto simp: rated_items_def)
    then have "map_of (spends m) n = Some i" "rate i = r" using b [OF d(1)] by (auto simp: distinct_map_of_iff)
    moreover from this have "spend_bundle_name i = n" using sp unfolding spends_ok_def by blast
    ultimately show "r = rate i \<and> map_of (spends m) (spend_bundle_name i) = Some i" by simp
  next
    assume i: "r = rate i \<and> map_of (spends m) (spend_bundle_name i) = Some i"
    then obtain d where "map_of (sorted_spends m) (rate i) = Some d" "map_of d (spend_bundle_name i) = Some i"
      using sorted_okD(3) [OF so] by blast
    then have "(r, d) \<in> set (SD (sorted_spends m))" "(spend_bundle_name i, i) \<in> set d"
      using i unfolding SD(1) by (auto dest: map_of_SomeD)
    then show "(r, i) \<in> set (rated_items SD m)" by (force simp: rated_items_def)
  qed
  have "sorted (map fst (concat (map (\<lambda>(fpc, dic). map (\<lambda>(n, item). (fpc, item)) dic) l)))" if "sorted (map fst l)" for l :: "(rat \<times> item_dict) list"
    using that
  proof (induction l)
    case (Cons p l)
    obtain r d where p: "p = (r, d)" by (cases p)
    have "map fst (map (\<lambda>(n, item). (r, item)) d) = replicate (length d) r" by (induction d) auto
    then show ?case using Cons by (fastforce simp: p sorted_append)
  qed simp
  then show "sorted (map fst (rated_items SD m))" using SD(2) by (simp add: rated_items_def)
qed

lemma evict_step_ok:
  assumes "sorted_dict_ok SD" "mempool_ok E m" "spends m \<noteq> []"
  shows "\<exists>i m'. evict_step E SD m = Inr m' \<and> rated_items SD m = (rate i, i) # rated_items SD m' \<and>
    map_of (spends m) (spend_bundle_name i) = Some i \<and> mempool_ok E m' \<and> spends m' = AList.delete (spend_bundle_name i) (spends m) \<and>
    total_mempool_cost m' = total_mempool_cost m - mi_cost i \<and> max_size_in_cost m' = max_size_in_cost m"
proof -
  have so: "sorted_ok m" and sp: "spends_ok E m" using assms(2) by (auto simp: mempool_ok_def)
  note ds = sorted_okD(1) [OF so]
  obtain p ps where "spends m = p # ps" using assms(3) by (cases "spends m") auto
  then have "map_of (spends m) (fst p) = Some (snd p)" by simp
  then have "sorted_spends m \<noteq> []" using sorted_okD(3) [OF so] by fastforce
  then obtain r d rest where SD: "SD (sorted_spends m) = (r, d) # rest"
    using SD_items(1) [OF assms(1) so] by (cases "SD (sorted_spends m)") auto
  note c = SD_Cons [OF assms(1) ds SD]
  obtain n i d' where d: "d = (n, i) # d'" using sorted_okD(2) [OF so c(3)] by (cases d) auto
  have "map_of d n = Some i" by (simp add: d)
  then have i: "map_of (spends m) n = Some i" "rate i = r" and dd: "distinct (dkeys d)" using sorted_okD(2) [OF so c(3)] by auto
  have n: "spend_bundle_name i = n" using i(1) sp unfolding spends_ok_def by blast
  obtain m' where m': "remove_from_pool E i m = Inr m'" "mempool_ok E m'" "spends m' = AList.delete n (spends m)"
    "sorted_spends m' = sorted_without i (sorted_spends m)" "total_mempool_cost m' = total_mempool_cost m - mi_cost i"
    "max_size_in_cost m' = max_size_in_cost m"
    using remove_from_pool_ok [OF assms(2), of i] i(1) n by auto
  have "\<not> din n d'" using dd by (simp add: d din_def)
  then have del: "AList.delete n d = d'" by (simp add: d delete_fresh)
  have "SD (sorted_spends m') = (if d' = [] then rest else (r, d') # rest)"
    using c(1,2) by (simp add: m'(4) sorted_without_def i(2) c(3) n del)
  then have "rated_items SD m = (rate i, i) # rated_items SD m'"
    by (simp add: rated_items_def SD d i(2))
  moreover have "evict_step E SD m = Inr m'" by (simp add: evict_step_def SD d py_index_def m'(1))
  ultimately show ?thesis using m' i(1) n by blast
qed

text \<open>The loop of \<^verbatim>\<open>add_to_pool\<close> ends, and what it evicts is the prefix that \<^verbatim>\<open>get_min_fee_rate\<close> walks over.\<close>

lemma evict_loop:
  assumes "sorted_dict_ok SD" "mempool_ok E m" "c \<le> max_size_in_cost m"
  shows "\<exists>ev m'. py_while (at_full_capacity c) (evict_step E SD) m = Inr m' \<and> rated_items SD m = ev @ rated_items SD m' \<and>
    mempool_ok E m' \<and> \<not> at_full_capacity c m' \<and> max_size_in_cost m' = max_size_in_cost m \<and>
    (\<forall>n. map_of (spends m') n = (if n \<in> spend_bundle_name ` snd ` set ev then None else map_of (spends m) n)) \<and>
    (ev = [] \<longleftrightarrow> \<not> at_full_capacity c m) \<and>
    (ev \<noteq> [] \<longrightarrow> min_fee_loop c (max_size_in_cost m) (total_mempool_cost m) (rated_items SD m) = Inr (fst (last ev)))"
  using assms(2,3)
proof (induction "length (spends m)" arbitrary: m rule: less_induct)
  case less
  show ?case
  proof (cases "at_full_capacity c m")
    case False
    then show ?thesis using less.prems by (intro exI [of _ "[]"] exI [of _ m]) simp
  next
    case True
    have "spends m \<noteq> []"
    proof
      assume "spends m = []"
      then have "total_mempool_cost m = 0" using less.prems(1) by (simp add: mempool_ok_def spends_ok_def)
      then show False using True less.prems(2) by (simp add: at_full_capacity_def)
    qed
    then obtain i m1 where s: "evict_step E SD m = Inr m1" "rated_items SD m = (rate i, i) # rated_items SD m1"
      "map_of (spends m) (spend_bundle_name i) = Some i" "mempool_ok E m1" "spends m1 = AList.delete (spend_bundle_name i) (spends m)"
      "total_mempool_cost m1 = total_mempool_cost m - mi_cost i" "max_size_in_cost m1 = max_size_in_cost m"
      using evict_step_ok [OF assms(1) less.prems(1)] by blast
    have ds: "distinct (dkeys (spends m))" using less.prems(1) by (simp add: mempool_ok_def spends_ok_def)
    have "length (spends m1) < length (spends m)"
      using length_delete [OF ds map_of_Some_din [OF s(3)]] by (simp add: s(5))
    then obtain ev m' where e: "py_while (at_full_capacity c) (evict_step E SD) m1 = Inr m'" "rated_items SD m1 = ev @ rated_items SD m'"
      "mempool_ok E m'" "\<not> at_full_capacity c m'" "max_size_in_cost m' = max_size_in_cost m1"
      "\<forall>n. map_of (spends m') n = (if n \<in> spend_bundle_name ` snd ` set ev then None else map_of (spends m1) n)"
      "ev = [] \<longleftrightarrow> \<not> at_full_capacity c m1"
      "ev \<noteq> [] \<longrightarrow> min_fee_loop c (max_size_in_cost m1) (total_mempool_cost m1) (rated_items SD m1) = Inr (fst (last ev))"
      using less.hyps [of m1] s(4,7) less.prems(2) by metis
    have fee: "min_fee_loop c (max_size_in_cost m) (total_mempool_cost m) (rated_items SD m) = Inr (fst (last ((rate i, i) # ev)))"
      using e(7,8) s(6,7) by (auto simp: s(2) Let_def at_full_capacity_def)
    have "py_while (at_full_capacity c) (evict_step E SD) m = Inr m'"
      using py_while_step [of "at_full_capacity c" m "evict_step E SD" m1] True s(1) e(1) by simp
    moreover have "map_of (spends m') n = (if n \<in> spend_bundle_name ` snd ` set ((rate i, i) # ev) then None else map_of (spends m) n)" for n
      using e(6) by (simp add: s(5))
    ultimately show ?thesis
      using s(2,7) e(2-5) True fee by (intro exI [of _ "(rate i, i) # ev"] exI [of _ m']) simp
  qed
qed

section \<open>Insertion\<close>

lemma map_of_fold_dput: "map_of (fold (\<lambda>c. dput (f c) item) cs idx) n = (if n \<in> f ` set cs then Some item else map_of idx n)"
  by (induction cs arbitrary: idx) auto

lemma distinct_fold_dput: "distinct (dkeys idx) \<Longrightarrow> distinct (dkeys (fold (\<lambda>c. dput (f c) item) cs idx))"
  by (induction cs arbitrary: idx) auto

lemma index_insert:
  assumes "index_ok E coins idx sps" "map_of sps (spend_bundle_name item) = None" "\<forall>c \<in> set (coins item). map_of idx (Coin_name E c) = None"
  shows "index_ok E coins (fold (\<lambda>c. dput (Coin_name E c) item) (coins item) idx) (dput (spend_bundle_name item) item sps)"
proof -
  let ?idx = "fold (\<lambda>c. dput (Coin_name E c) item) (coins item) idx" and ?sps = "dput (spend_bundle_name item) item sps"
  have iff: "map_of idx n = Some j \<longleftrightarrow> map_of sps (spend_bundle_name j) = Some j \<and> n \<in> Coin_name E ` set (coins j)" for n j
    using assms(1) unfolding index_ok_def by blast
  have "map_of ?idx n = Some j \<longleftrightarrow> map_of ?sps (spend_bundle_name j) = Some j \<and> n \<in> Coin_name E ` set (coins j)" for n j
  proof (cases "spend_bundle_name j = spend_bundle_name item")
    case True
    then have "map_of idx n \<noteq> Some j" using iff assms(2) by (metis option.distinct(1))
    then show ?thesis using True by (auto simp: map_of_fold_dput)
  next
    case False
    then have "j \<noteq> item" by blast
    moreover have "n \<notin> Coin_name E ` set (coins item)" if "map_of idx n = Some j" using that assms(3) by auto
    ultimately show ?thesis using False iff [of n j] by (auto simp: map_of_fold_dput)
  qed
  moreover have "distinct (dkeys ?idx)" using assms(1) unfolding index_ok_def by (blast intro: distinct_fold_dput)
  ultimately show ?thesis unfolding index_ok_def by blast
qed

text \<open>The bucket of a fee rate after an item is put into it.\<close>

definition sorted_with :: "MempoolItem \<Rightarrow> sorted_dict \<Rightarrow> sorted_dict" where
  "sorted_with i s =
     (let s' = (if \<not> din (rate i) s then dput (rate i) [] s else s);
          d = (case map_of s (rate i) of None \<Rightarrow> [] | Some d \<Rightarrow> d)
      in dput (rate i) (dput (spend_bundle_name i) i d) s')"

lemma sorted_ok_with:
  assumes "sorted_ok m" "map_of (spends m) (spend_bundle_name i) = None"
  shows "sorted_ok (m\<lparr>spends := dput (spend_bundle_name i) i (spends m), sorted_spends := sorted_with i (sorted_spends m)\<rparr>)"
proof -
  let ?n = "spend_bundle_name i" and ?s = "sorted_spends m"
  define d where "d = (case map_of ?s (rate i) of None \<Rightarrow> [] | Some d \<Rightarrow> d)"
  have w: "map_of (sorted_with i ?s) r = (if r = rate i then Some (dput ?n i d) else map_of ?s r)" for r
    by (simp add: sorted_with_def d_def Let_def)
  have d: "distinct (dkeys d) \<and> (\<forall>n j. map_of d n = Some j \<longrightarrow> map_of (spends m) n = Some j \<and> rate j = rate i)"
  proof (cases "map_of ?s (rate i)")
    case None
    then show ?thesis by (simp add: d_def)
  next
    case (Some e)
    then show ?thesis using sorted_okD(2) [OF assms(1), of "rate i" e] by (simp add: d_def)
  qed
  have ne: "dput ?n i d \<noteq> []" by (metis din_dput din_def list.map_disc_iff empty_iff empty_set)
  have "distinct (dkeys (sorted_with i ?s))" using sorted_okD(1) [OF assms(1)] by (simp add: sorted_with_def Let_def)
  moreover have "e \<noteq> [] \<and> distinct (dkeys e) \<and> (\<forall>n j. map_of e n = Some j \<longrightarrow> map_of (dput ?n i (spends m)) n = Some j \<and> rate j = r)"
    if e: "map_of (sorted_with i ?s) r = Some e" for r e
  proof (cases "r = rate i")
    case True
    then have "e = dput ?n i d" using e by (simp add: w)
    then show ?thesis using ne d True by simp
  next
    case False
    then have "map_of ?s r = Some e" using e by (simp add: w)
    note b = sorted_okD(2) [OF assms(1) this]
    then have "map_of e ?n \<noteq> Some j" for j using assms(2) by force
    then show ?thesis using b by simp
  qed
  moreover have "\<exists>e. map_of (sorted_with i ?s) (rate j) = Some e \<and> map_of e n = Some j"
    if j: "map_of (dput ?n i (spends m)) n = Some j" for n j
  proof (cases "n = ?n")
    case True
    then have "j = i" using j by simp
    then show ?thesis using True w [of "rate i"] by simp
  next
    case False
    then obtain e where "map_of ?s (rate j) = Some e" "map_of e n = Some j" using j sorted_okD(3) [OF assms(1), of n j] by auto
    then show ?thesis using False by (auto simp: w d_def)
  qed
  ultimately show ?thesis unfolding sorted_ok_def by simp
qed

definition fresh_item :: "crypto \<Rightarrow> MempoolItem \<Rightarrow> Mempool \<Rightarrow> bool" where
  "fresh_item E item m \<longleftrightarrow>
     item_ok E item \<and> mi_cost item \<le> max_size_in_cost m \<and> map_of (spends m) (spend_bundle_name item) = None \<and>
     (\<forall>c \<in> set (mi_removals item). map_of (mp_removals m) (Coin_name E c) = None) \<and>
     (\<forall>c \<in> set (mi_additions item). map_of (mp_additions m) (Coin_name E c) = None)"

lemma index_shrink:
  assumes "index_ok E coins idx sps" "index_ok E coins idx' sps'" "\<And>n j. map_of sps' n = Some j \<Longrightarrow> map_of sps n = Some j" "map_of idx n = None"
  shows "map_of idx' n = None"
proof (rule ccontr)
  assume "map_of idx' n \<noteq> None"
  then obtain j where "map_of idx' n = Some j" by blast
  then have "map_of sps' (spend_bundle_name j) = Some j" "n \<in> Coin_name E ` set (coins j)" using assms(2) unfolding index_ok_def by blast+
  then have "map_of idx n = Some j" using assms(1,3) unfolding index_ok_def by blast
  then show False using assms(4) by simp
qed

lemma dsum_insert: "map_of d k = None \<Longrightarrow> dsum f (dput k v d) = dsum f d + f v"
  by (simp add: dsum_fresh not_din_map_of)

lemma add_to_pool_ok:
  assumes "sorted_dict_ok SD" "mempool_ok E m" "fresh_item E item m"
  shows "\<exists>ev m1 m'. add_to_pool E SD item m = Inr m' \<and> mempool_ok E m' \<and> max_size_in_cost m' = max_size_in_cost m \<and>
    rated_items SD m = ev @ rated_items SD m1 \<and> mempool_ok E m1 \<and>
    (\<forall>n. map_of (spends m1) n = (if n \<in> spend_bundle_name ` snd ` set ev then None else map_of (spends m) n)) \<and>
    spends m' = dput (spend_bundle_name item) item (spends m1) \<and> total_mempool_cost m' = total_mempool_cost m1 + mi_cost item \<and>
    (ev = [] \<longleftrightarrow> \<not> at_full_capacity (mi_cost item) m) \<and> (ev = [] \<longrightarrow> m1 = m) \<and>
    (ev \<noteq> [] \<longrightarrow> min_fee_loop (mi_cost item) (max_size_in_cost m) (total_mempool_cost m) (rated_items SD m) = Inr (fst (last ev)))"
proof -
  have f: "item_ok E item" "mi_cost item \<le> max_size_in_cost m" "map_of (spends m) (spend_bundle_name item) = None"
    "\<And>c. c \<in> set (mi_removals item) \<Longrightarrow> map_of (mp_removals m) (Coin_name E c) = None"
    "\<And>c. c \<in> set (mi_additions item) \<Longrightarrow> map_of (mp_additions m) (Coin_name E c) = None"
    using assms(3) unfolding fresh_item_def by blast+
  obtain ev m1 where e: "py_while (at_full_capacity (mi_cost item)) (evict_step E SD) m = Inr m1" "rated_items SD m = ev @ rated_items SD m1"
    "mempool_ok E m1" "\<not> at_full_capacity (mi_cost item) m1" "max_size_in_cost m1 = max_size_in_cost m"
    "\<forall>n. map_of (spends m1) n = (if n \<in> spend_bundle_name ` snd ` set ev then None else map_of (spends m) n)"
    "ev = [] \<longleftrightarrow> \<not> at_full_capacity (mi_cost item) m"
    "ev \<noteq> [] \<longrightarrow> min_fee_loop (mi_cost item) (max_size_in_cost m) (total_mempool_cost m) (rated_items SD m) = Inr (fst (last ev))"
    using evict_loop [OF assms(1,2) f(2)] by metis
  have ok: "spends_ok E m1" "sorted_ok m1" "index_ok E mi_removals (mp_removals m1) (spends m1)" "index_ok E mi_additions (mp_additions m1) (spends m1)"
    "index_ok E mi_removals (mp_removals m) (spends m)" "index_ok E mi_additions (mp_additions m) (spends m)"
    using e(3) assms(2) unfolding mempool_ok_def by blast+
  have sub: "map_of (spends m) n = Some j" if "map_of (spends m1) n = Some j" for n j using that e(6) by (simp split: if_splits)
  have fresh: "map_of (spends m1) (spend_bundle_name item) = None" using e(6) f(3) by simp
  have fr: "\<forall>c \<in> set (mi_removals item). map_of (mp_removals m1) (Coin_name E c) = None"
    using index_shrink [OF ok(5,3) sub f(4)] by blast
  have fa: "\<forall>c \<in> set (mi_additions item). map_of (mp_additions m1) (Coin_name E c) = None"
    using index_shrink [OF ok(6,4) sub f(5)] by blast
  define m' where "m' = m1\<lparr>spends := dput (spend_bundle_name item) item (spends m1), sorted_spends := sorted_with item (sorted_spends m1),
      mp_additions := fold (\<lambda>add. dput (Coin_name E add) item) (mi_additions item) (mp_additions m1),
      mp_removals := fold (\<lambda>coin. dput (Coin_name E coin) item) (mi_removals item) (mp_removals m1),
      total_mempool_cost := total_mempool_cost m1 + mi_cost item\<rparr>"
  have add: "add_to_pool E SD item m = Inr m'"
    using f(1) by (simp add: add_to_pool_def e(1) item_ok_def fee_per_cost_rate Let_def dget_def m'_def sorted_with_def not_din_map_of
        split: option.splits)
  have "spends_ok E m'"
    using ok(1) f(1) e(4) fresh by (auto simp: spends_ok_def m'_def dsum_insert at_full_capacity_def)
  moreover have "sorted_ok m'" using sorted_ok_with [OF ok(2) fresh] by (simp add: sorted_ok_def m'_def)
  ultimately have "mempool_ok E m'"
    using index_insert [OF ok(3) fresh fr] index_insert [OF ok(4) fresh fa] by (simp add: mempool_ok_def m'_def)
  moreover have "ev = [] \<longrightarrow> m1 = m" using e(1,7) by auto
  ultimately show ?thesis using add e by (intro exI [of _ ev] exI [of _ m1] exI [of _ m']) (simp add: m'_def)
qed

section \<open>Properties of the pool\<close>

text \<open>
  C35. \<^verbatim>\<open>add_to_pool\<close> ends for every item that fits an empty pool and conflicts with nothing in it: all indexes stay consistent
  and the pool within its size, the item is in it, and what had to leave is exactly a set of old items none of which has
  a higher fee per cost than an old item that stays; nothing leaves when there was room.
\<close>

theorem add_to_pool_evicts:
  assumes "sorted_dict_ok SD" "mempool_ok E m" "fresh_item E item m"
  shows "\<exists>ev m'. add_to_pool E SD item m = Inr m' \<and> mempool_ok E m' \<and>
    (\<forall>n. map_of (spends m') n =
       (if n = spend_bundle_name item then Some item else if n \<in> spend_bundle_name ` set ev then None else map_of (spends m) n)) \<and>
    (\<forall>e \<in> set ev. map_of (spends m) (spend_bundle_name e) = Some e) \<and>
    (\<forall>e k. e \<in> set ev \<and> map_of (spends m) (spend_bundle_name k) = Some k \<and> k \<notin> set ev \<longrightarrow> rate e \<le> rate k) \<and>
    (ev = [] \<longleftrightarrow> \<not> at_full_capacity (mi_cost item) m)"
proof -
  obtain ev m1 m' where a: "add_to_pool E SD item m = Inr m'" "mempool_ok E m'" "rated_items SD m = ev @ rated_items SD m1" "mempool_ok E m1"
    "\<forall>n. map_of (spends m1) n = (if n \<in> spend_bundle_name ` snd ` set ev then None else map_of (spends m) n)"
    "spends m' = dput (spend_bundle_name item) item (spends m1)" "ev = [] \<longleftrightarrow> \<not> at_full_capacity (mi_cost item) m"
    using add_to_pool_ok [OF assms] by metis
  note pool = rated_items_pool [OF assms(1,2)]
  have "rate e \<le> rate k" if ek: "e \<in> snd ` set ev" "map_of (spends m) (spend_bundle_name k) = Some k" "k \<notin> snd ` set ev" for e k
  proof -
    obtain r where re: "(r, e) \<in> set ev" using ek(1) by force
    then have r: "r = rate e" using pool(1) [of r e] by (simp add: a(3))
    have "(rate k, k) \<in> set (rated_items SD m)" using pool(1) ek(2) by simp
    then have "(rate k, k) \<in> set (rated_items SD m1)" using ek(3) by (force simp: a(3))
    then show ?thesis using pool(2) re r by (force simp: a(3) sorted_append)
  qed
  moreover have "map_of (spends m) (spend_bundle_name e) = Some e" if "e \<in> snd ` set ev" for e
    using that pool(1) by (force simp: a(3))
  ultimately show ?thesis using a(1,2,5,6,7) by (intro exI [of _ "map snd ev"] exI [of _ m']) auto
qed

lemma sorted_last: "sorted xs \<Longrightarrow> x \<in> set xs \<Longrightarrow> x \<le> last xs"
  by (induction xs) auto

text \<open>
  C36. The fee rate that \<^verbatim>\<open>get_min_fee_rate\<close> quotes protects the pool: it exists for every cost that fits the pool, and adding an
  item of that cost never drives out an item with a fee per cost above it. A newcomer that has to beat the quote thus
  only replaces cheaper items.
\<close>

theorem min_fee_rate_protects:
  assumes "sorted_dict_ok SD" "mempool_ok E m" "fresh_item E item m"
  shows "\<exists>r m'. get_min_fee_rate SD (mi_cost item) m = Inr r \<and> add_to_pool E SD item m = Inr m' \<and>
    (\<forall>n e. map_of (spends m) n = Some e \<and> map_of (spends m') n = None \<longrightarrow> rate e \<le> r)"
proof -
  obtain ev m1 m' where a: "add_to_pool E SD item m = Inr m'" "rated_items SD m = ev @ rated_items SD m1"
    "\<forall>n. map_of (spends m1) n = (if n \<in> spend_bundle_name ` snd ` set ev then None else map_of (spends m) n)"
    "spends m' = dput (spend_bundle_name item) item (spends m1)" "ev = [] \<longleftrightarrow> \<not> at_full_capacity (mi_cost item) m"
    "ev \<noteq> [] \<longrightarrow> min_fee_loop (mi_cost item) (max_size_in_cost m) (total_mempool_cost m) (rated_items SD m) = Inr (fst (last ev))"
    using add_to_pool_ok [OF assms] by metis
  note pool = rated_items_pool [OF assms(1,2)]
  have lost: "\<exists>j. (rate j, j) \<in> set ev \<and> spend_bundle_name j = n \<and> map_of (spends m) n = Some j"
    if "map_of (spends m) n = Some e" "map_of (spends m') n = None" for n e
  proof -
    have "n \<in> spend_bundle_name ` snd ` set ev" using that a(3) by (simp add: a(4) split: if_splits)
    then obtain r j where j: "(r, j) \<in> set ev" "spend_bundle_name j = n" by force
    then show ?thesis using pool(1) [of r j] by (auto simp: a(2))
  qed
  show ?thesis
  proof (cases "ev = []")
    case True
    then show ?thesis using a(1,5) lost by (fastforce simp: get_min_fee_rate_def)
  next
    case False
    have "r \<le> fst (last ev)" if "(r, j) \<in> set ev" for r j
    proof -
      have "sorted (map fst ev)" using pool(2) by (simp add: a(2) sorted_append)
      then have "r \<le> last (map fst ev)" using sorted_last [of "map fst ev" r] that by force
      then show ?thesis using False by (simp add: last_map)
    qed
    then have "rate e \<le> fst (last ev)" if "map_of (spends m) n = Some e" "map_of (spends m') n = None" for n e
      using lost [OF that] that by (metis option.inject)
    then show ?thesis using a(1,5,6) False by (auto simp: get_min_fee_rate_def)
  qed
qed

lemma index_determined:
  assumes "index_ok E coins idx sps" "index_ok E coins idx' sps'" "map_of sps = map_of sps'"
  shows "map_of idx = map_of idx'"
proof
  fix n
  have "map_of idx n = Some i \<longleftrightarrow> map_of idx' n = Some i" for i
    using assms unfolding index_ok_def by (metis (no_types, lifting))
  then show "map_of idx n = map_of idx' n" by (metis not_None_eq)
qed

text \<open>
  C37. Removing an item undoes adding it: when there is room for the item, adding and then removing it succeeds and gives back
  the pool, with the same items, the same index of created and of spent coins and the same total cost.
\<close>

theorem remove_undoes_add:
  assumes "sorted_dict_ok SD" "mempool_ok E m" "fresh_item E item m" "\<not> at_full_capacity (mi_cost item) m"
  shows "\<exists>m1 m2. add_to_pool E SD item m = Inr m1 \<and> remove_from_pool E item m1 = Inr m2 \<and> mempool_ok E m2 \<and>
    map_of (spends m2) = map_of (spends m) \<and> map_of (mp_removals m2) = map_of (mp_removals m) \<and>
    map_of (mp_additions m2) = map_of (mp_additions m) \<and> total_mempool_cost m2 = total_mempool_cost m"
proof -
  let ?n = "spend_bundle_name item"
  obtain m1 where a: "add_to_pool E SD item m = Inr m1" "mempool_ok E m1" "spends m1 = dput ?n item (spends m)"
    "total_mempool_cost m1 = total_mempool_cost m + mi_cost item"
    using add_to_pool_ok [OF assms(1-3)] assms(4) by metis
  have "map_of (spends m1) ?n = Some item" by (simp add: a(3))
  from remove_from_pool_ok [OF a(2) this] obtain m2 where r: "remove_from_pool E item m1 = Inr m2" "mempool_ok E m2"
    "spends m2 = AList.delete ?n (spends m1)" "total_mempool_cost m2 = total_mempool_cost m1 - mi_cost item" by blast
  have "map_of (spends m2) = map_of (spends m)" using assms(3) by (auto simp: r(3) a(3) fresh_item_def)
  moreover from this have "map_of (mp_removals m2) = map_of (mp_removals m)" "map_of (mp_additions m2) = map_of (mp_additions m)"
    using r(2) assms(2) unfolding mempool_ok_def by (blast intro: index_determined)+
  ultimately show ?thesis using a r by auto
qed

text \<open>
  An item that is larger than the whole pool is never accepted: \<^verbatim>\<open>add_to_pool\<close> evicts everything and then raises the
  \<^verbatim>\<open>IndexError\<close> of an empty \<^verbatim>\<open>SortedDict\<close> instead of looping forever.
\<close>

lemma add_to_pool_oversized:
  assumes "sorted_dict_ok SD" "mempool_ok E m" "mi_cost item > max_size_in_cost m"
  shows "add_to_pool E SD item m = Inl IndexError"
proof -
  have "py_while (at_full_capacity (mi_cost item)) (evict_step E SD) m = Inl IndexError"
    using assms(2,3)
  proof (induction "length (spends m)" arbitrary: m rule: less_induct)
    case less
    have sp: "spends_ok E m" and so: "sorted_ok m" using less.prems(1) unfolding mempool_ok_def by blast+
    have "0 \<le> dsum mi_cost (spends m)"
    proof (rule dsum_nonneg)
      fix n i assume "(n, i) \<in> set (spends m)"
      then have "item_ok E i" using sp unfolding spends_ok_def by (metis map_of_is_SomeI)
      then show "0 \<le> mi_cost i" by (simp add: item_ok_def)
    qed
    then have "0 \<le> total_mempool_cost m" using sp by (simp add: spends_ok_def)
    then have full: "at_full_capacity (mi_cost item) m" using less.prems(2) by (simp add: at_full_capacity_def)
    show ?case
    proof (cases "spends m = []")
      case True
      have "sorted_spends m = []"
      proof (rule ccontr)
        assume "sorted_spends m \<noteq> []"
        then obtain r d l where "sorted_spends m = (r, d) # l" by (cases "sorted_spends m") auto
        then have "map_of (sorted_spends m) r = Some d" by simp
        from sorted_okD(2) [OF so this] have "d \<noteq> []" "\<forall>n i. map_of d n \<noteq> Some i" using True by auto
        then show False by (cases d) (auto split: if_splits)
      qed
      then have "SD (sorted_spends m) = []" using SD_items(1) [OF assms(1) so] by simp
      then have "evict_step E SD m = Inl IndexError" by (simp add: evict_step_def py_index_def)
      then show ?thesis using full by (rule py_while_raise [rotated])
    next
      case False
      obtain i m1 where s: "evict_step E SD m = Inr m1" "map_of (spends m) (spend_bundle_name i) = Some i" "mempool_ok E m1"
        "spends m1 = AList.delete (spend_bundle_name i) (spends m)" "max_size_in_cost m1 = max_size_in_cost m"
        using evict_step_ok [OF assms(1) less.prems(1) False] by blast
      have "distinct (dkeys (spends m))" using sp by (simp add: spends_ok_def)
      then have "length (spends m1) < length (spends m)" using length_delete [OF _ map_of_Some_din [OF s(2)]] by (simp add: s(4))
      then have "py_while (at_full_capacity (mi_cost item)) (evict_step E SD) m1 = Inl IndexError"
        using less.hyps [of m1] s(3,5) less.prems(2) by simp
      then show ?thesis using py_while_step [of "at_full_capacity (mi_cost item)" m "evict_step E SD" m1] full s(1) by simp
    qed
  qed
  then show ?thesis by (simp add: add_to_pool_def)
qed

section \<open>Properties of the pending transactions\<close>

definition pending_ok :: "PendingTxCache \<Rightarrow> bool" where
  "pending_ok s \<longleftrightarrow>
     distinct (dkeys (txs s)) \<and> (\<forall>(n, i) \<in> set (txs s). spend_bundle_name i = n \<and> 0 \<le> mi_cost i) \<and>
     cache_cost s = dsum mi_cost (txs s) \<and> cache_cost s \<le> cache_max_total_cost s"

lemma pending_loop:
  assumes "distinct (dkeys (txs s))" "cache_cost s = dsum mi_cost (txs s)" "0 \<le> cache_max_total_cost s"
  shows "\<exists>k. k \<le> length (txs s) \<and> py_while (\<lambda>s. cache_cost s > cache_max_total_cost s) pending_evict s =
      Inr (s\<lparr>txs := drop k (txs s), cache_cost := dsum mi_cost (drop k (txs s))\<rparr>) \<and>
    dsum mi_cost (drop k (txs s)) \<le> cache_max_total_cost s \<and> (\<forall>j < k. dsum mi_cost (drop j (txs s)) > cache_max_total_cost s)"
  using assms
proof (induction "txs s" arbitrary: s)
  case Nil
  then show ?case by (intro exI [of _ 0]) simp
next
  case (Cons p ps)
  obtain n i where p: "p = (n, i)" by (cases p)
  show ?case
  proof (cases "cache_cost s > cache_max_total_cost s")
    case False
    then show ?thesis using Cons.prems(2) by (intro exI [of _ 0]) simp
  next
    case True
    let ?s1 = "s\<lparr>cache_cost := cache_cost s - mi_cost i, txs := ps\<rparr>"
    have eq: "txs s = (n, i) # ps" using Cons.hyps(2) p by simp
    have "\<not> din n ps" using Cons.prems(1) by (simp add: eq din_def)
    then have "AList.delete n (txs s) = ps" "din n (txs s)" by (simp_all add: eq delete_fresh din_def)
    then have step: "pending_evict s = Inr ?s1" by (simp add: pending_evict_def eq py_index_def dget_def)
    have "cache_cost ?s1 = dsum mi_cost (txs ?s1)" using Cons.prems(2) by (simp add: eq)
    then obtain k where k: "k \<le> length ps" "py_while (\<lambda>s. cache_cost s > cache_max_total_cost s) pending_evict ?s1 =
        Inr (?s1\<lparr>txs := drop k ps, cache_cost := dsum mi_cost (drop k ps)\<rparr>)"
      "dsum mi_cost (drop k ps) \<le> cache_max_total_cost s" "\<forall>j < k. dsum mi_cost (drop j ps) > cache_max_total_cost s"
      using Cons.hyps(1) [of ?s1] Cons.prems(1,3) by (auto simp: eq)
    have "\<forall>j < Suc k. dsum mi_cost (drop j (txs s)) > cache_max_total_cost s"
      using k(4) True Cons.prems(2) by (auto simp: eq less_Suc_eq_0_disj)
    moreover have "py_while (\<lambda>s. cache_cost s > cache_max_total_cost s) pending_evict s =
        Inr (s\<lparr>txs := drop (Suc k) (txs s), cache_cost := dsum mi_cost (drop (Suc k) (txs s))\<rparr>)"
      using py_while_step [of "\<lambda>s. cache_cost s > cache_max_total_cost s" s pending_evict ?s1] True step k(2) by (simp add: eq)
    ultimately show ?thesis using k(1,3) by (intro exI [of _ "Suc k"]) (simp add: eq)
  qed
qed

lemma pending_add_ok:
  assumes "pending_ok s" "0 \<le> mi_cost item" "0 \<le> cache_max_total_cost s"
  shows "\<exists>s'. pending_add item s = Inr s' \<and> pending_ok s' \<and> cache_max_total_cost s' = cache_max_total_cost s \<and>
    (if din (spend_bundle_name item) (txs s) then s' = s
     else \<exists>k. txs s' = drop k (txs s @ [(spend_bundle_name item, item)]) \<and>
            (\<forall>j < k. dsum mi_cost (drop j (txs s @ [(spend_bundle_name item, item)])) > cache_max_total_cost s))"
proof (cases "din (spend_bundle_name item) (txs s)")
  case True
  then show ?thesis using assms(1) by (simp add: pending_add_def)
next
  case False
  let ?t = "txs s @ [(spend_bundle_name item, item)]"
  let ?s = "s\<lparr>txs := ?t, cache_cost := cache_cost s + mi_cost item\<rparr>"
  have d: "distinct (dkeys ?t)" using assms(1) False by (auto simp: pending_ok_def din_def)
  have c: "cache_cost ?s = dsum mi_cost ?t" using assms(1) by (simp add: pending_ok_def)
  obtain k where k: "py_while (\<lambda>s. cache_cost s > cache_max_total_cost s) pending_evict ?s = Inr (?s\<lparr>txs := drop k ?t, cache_cost := dsum mi_cost (drop k ?t)\<rparr>)"
    "dsum mi_cost (drop k ?t) \<le> cache_max_total_cost s" "\<forall>j < k. dsum mi_cost (drop j ?t) > cache_max_total_cost s"
    using pending_loop [of ?s] d c assms(3) by auto
  have "\<forall>(n, i) \<in> set (drop k ?t). spend_bundle_name i = n \<and> 0 \<le> mi_cost i"
    using assms(1,2) set_drop_subset [of k ?t] by (auto simp: pending_ok_def)
  moreover have "distinct (dkeys (drop k ?t))" using distinct_drop [OF d, of k] by (simp only: drop_map)
  ultimately have "pending_ok (?s\<lparr>txs := drop k ?t, cache_cost := dsum mi_cost (drop k ?t)\<rparr>)" using k(2) by (simp add: pending_ok_def)
  moreover have "pending_add item s = Inr (?s\<lparr>txs := drop k ?t, cache_cost := dsum mi_cost (drop k ?t)\<rparr>)"
    using False k(1) by (simp add: pending_add_def dput_fresh)
  ultimately show ?thesis using False k(3) by auto
qed

lemma pending_add_keeps:
  assumes "pending_ok s" "0 \<le> mi_cost item" "0 \<le> cache_max_total_cost s" "pending_add item s = Inr s'"
  shows "pending_ok s' \<and> cache_max_total_cost s' = cache_max_total_cost s"
  using pending_add_ok [OF assms(1-3)] assms(4) by auto

text \<open>
  C38. The cache of pending transactions is a bounded queue: adding a new item always ends, keeps the cost counter equal to the
  cost of the cached items and below the limit, and drops the oldest items, as few of them as possible; an item that is
  already there changes nothing.
\<close>

theorem pending_add_fifo:
  assumes "pending_ok s" "0 \<le> mi_cost item" "0 \<le> cache_max_total_cost s"
  shows "\<exists>s'. pending_add item s = Inr s' \<and> pending_ok s' \<and>
    (if din (spend_bundle_name item) (txs s) then s' = s
     else \<exists>k. txs s' = drop k (txs s @ [(spend_bundle_name item, item)]) \<and>
            (\<forall>j < k. dsum mi_cost (drop j (txs s @ [(spend_bundle_name item, item)])) > cache_max_total_cost s))"
  using pending_add_ok [OF assms] by blast

section \<open>A concrete pool\<close>

definition demo_item :: "byte \<Rightarrow> int \<Rightarrow> MempoolItem" where
  "demo_item k f =
     \<lparr> mi_spend_bundle = \<lparr> coin_spends = [], aggregated_signature = [] \<rparr>, mi_fee = f,
       mi_npc_result = \<lparr> npc_error = None, npc_list = [], clvm_cost = 0 \<rparr>, mi_cost = 10, spend_bundle_name = [k],
       mi_additions = [], mi_removals = [demo_coin k], mi_program = [] \<rparr>"

definition demo_pool :: Mempool where
  "demo_pool =
     \<lparr> spends = [([1], demo_item 1 20)], sorted_spends = [(2, [([1], demo_item 1 20)])], mp_additions = [],
       mp_removals = [(replicate 32 1, demo_item 1 20)], max_size_in_cost = 15, total_mempool_cost = 10 \<rparr>"

lemma demo_item_simps [simp]:
  "mi_fee (demo_item k f) = f" "mi_cost (demo_item k f) = 10" "spend_bundle_name (demo_item k f) = [k]" "mi_additions (demo_item k f) = []"
  "mi_removals (demo_item k f) = [demo_coin k]"
  by (simp_all add: demo_item_def)

lemma sort_key_sorted_dict: "sorted_dict_ok (sort_key fst)"
proof -
  have "distinct (map fst (sort_key fst d))" if "distinct (dkeys d)" for d :: sorted_dict
    using that by (metis distinct_map distinct_sort set_sort inj_on_cong)
  then show ?thesis by (simp add: sorted_dict_ok_def)
qed

lemma rate_demo: "rate (demo_item 1 20) = 2"
  using fl_int [of 2] by (simp add: rate_def)

lemma demo_pool_ok: "mempool_ok demo_crypto demo_pool"
proof -
  have "spends_ok demo_crypto demo_pool" by (simp add: spends_ok_def demo_pool_def item_ok_def)
  moreover have "sorted_ok demo_pool" by (simp add: sorted_ok_def demo_pool_def rate_demo)
  moreover have "index_ok demo_crypto mi_removals (mp_removals demo_pool) (spends demo_pool)"
    by (auto simp: index_ok_def demo_pool_def split: if_splits)
  moreover have "index_ok demo_crypto mi_additions (mp_additions demo_pool) (spends demo_pool)"
    by (auto simp: index_ok_def demo_pool_def split: if_splits)
  ultimately show ?thesis by (simp add: mempool_ok_def)
qed

lemma demo_fresh: "fresh_item demo_crypto (demo_item 2 50) demo_pool"
  by (simp add: fresh_item_def item_ok_def demo_pool_def replicate_eq_replicate)

lemma demo_full: "at_full_capacity 10 demo_pool"
  by (simp add: at_full_capacity_def demo_pool_def)

theorem add_to_pool_evicts_witness:
  "\<exists>m'. add_to_pool demo_crypto (sort_key fst) (demo_item 2 50) demo_pool = Inr m' \<and> map_of (spends m') [1] = None \<and>
     map_of (spends m') [2] = Some (demo_item 2 50)"
proof -
  obtain ev m' where m': "add_to_pool demo_crypto (sort_key fst) (demo_item 2 50) demo_pool = Inr m'"
    "\<forall>n. map_of (spends m') n = (if n = [2] then Some (demo_item 2 50) else if n \<in> spend_bundle_name ` set ev then None else map_of (spends demo_pool) n)"
    "\<forall>e \<in> set ev. map_of (spends demo_pool) (spend_bundle_name e) = Some e" "ev \<noteq> []"
    using add_to_pool_evicts [OF sort_key_sorted_dict demo_pool_ok demo_fresh] demo_full by auto
  obtain e where e: "e \<in> set ev" using m'(4) by (cases ev) auto
  then have "map_of (spends demo_pool) (spend_bundle_name e) = Some e" using m'(3) by blast
  then have "spend_bundle_name e = [1]" by (simp add: demo_pool_def split: if_splits)
  then have "[1] \<in> spend_bundle_name ` set ev" using e by (metis image_eqI)
  then show ?thesis using m'(1,2) by simp
qed

theorem min_fee_rate_protects_witness:
  "\<exists>r m'. get_min_fee_rate (sort_key fst) 10 demo_pool = Inr r \<and> add_to_pool demo_crypto (sort_key fst) (demo_item 2 50) demo_pool = Inr m' \<and> r = 2"
  using min_fee_rate_protects [OF sort_key_sorted_dict demo_pool_ok demo_fresh]
  by (simp add: get_min_fee_rate_def at_full_capacity_def rated_items_def demo_pool_def) metis

theorem remove_undoes_add_witness:
  "\<exists>m1 m2. add_to_pool demo_crypto (sort_key fst) (demo_item 2 50) (Mempool_init 15) = Inr m1 \<and> remove_from_pool demo_crypto (demo_item 2 50) m1 = Inr m2 \<and>
     map_of (spends m2) = Map.empty \<and> total_mempool_cost m2 = 0"
  using remove_undoes_add [OF sort_key_sorted_dict mempool_ok_init, of 15 demo_crypto "demo_item 2 50"]
  by (auto simp: fresh_item_def item_ok_def Mempool_init_def at_full_capacity_def)

lemma add_to_pool_oversized_witness:
  "add_to_pool demo_crypto (sort_key fst) (demo_item 2 50) (Mempool_init 5) = Inl IndexError"
  by (rule add_to_pool_oversized [OF sort_key_sorted_dict mempool_ok_init]) (simp_all add: Mempool_init_def)

theorem pending_add_fifo_witness:
  "\<exists>s'. pending_add (demo_item 2 50) \<lparr> cache_max_total_cost = 15, cache_cost = 10, txs = [([1], demo_item 1 20)] \<rparr> = Inr s' \<and> cache_cost s' \<le> 15"
  using pending_add_fifo [of "\<lparr> cache_max_total_cost = 15, cache_cost = 10, txs = [([1], demo_item 1 20)] \<rparr>" "demo_item 2 50"]
  by (simp add: pending_ok_def pending_add_def din_def py_while_unfold pending_evict_def py_index_def dget_def dput_def ddel_def)

end
