(* ===== verification/Generator.thy ===== *)
theory Generator
  imports Mempool
begin

text \<open>
  \<^verbatim>\<open>types/generator_types.py\<close>, the block generators of \<^verbatim>\<open>full_node/generator.py\<close>, \<^verbatim>\<open>simple_solution_generator\<close> of
  \<^verbatim>\<open>full_node/bundle_tools.py\<close> and \<^verbatim>\<open>get_name_puzzle_conditions\<close> of \<^verbatim>\<open>full_node/mempool_check_conditions.py\<close>. The programs run in
  \<^verbatim>\<open>clvm_rs\<close>; the record \<open>generator_vm\<close> holds the calls into it and into the serialization of \<^verbatim>\<open>clvm\<close>.
\<close>

record GeneratorArg =
  ga_block_height :: int
  ga_generator :: bytes

record BlockGenerator =
  bg_program :: bytes
  generator_args :: "GeneratorArg list"

definition block_height_list :: "BlockGenerator \<Rightarrow> int list" where
  "block_height_list self = map ga_block_height (generator_args self)"

definition generator_refs :: "BlockGenerator \<Rightarrow> bytes list" where
  "generator_refs self = map ga_generator (generator_args self)"

text \<open>\<open>lookup\<close> is \<^verbatim>\<open>get_generator_for_block_height\<close> of the cache interface that is passed in.\<close>

fun create_block_generator_loop :: "(int \<Rightarrow> bytes option res) \<Rightarrow> int list \<Rightarrow> GeneratorArg list \<Rightarrow> GeneratorArg list option res" where
  "create_block_generator_loop lookup [] args = Inr (Some args)"
| "create_block_generator_loop lookup (i # is) args =
     rbind (lookup i) (\<lambda>previous_generator.
       case previous_generator of
         None \<Rightarrow> Inr None
       | Some g \<Rightarrow> create_block_generator_loop lookup is (args @ [\<lparr> ga_block_height = i, ga_generator = g \<rparr>]))"

definition create_block_generator :: "(int \<Rightarrow> bytes option res) \<Rightarrow> bytes \<Rightarrow> int list \<Rightarrow> BlockGenerator option res" where
  "create_block_generator lookup gen block_heights_list =
     rbind (create_block_generator_loop lookup block_heights_list []) (\<lambda>args.
       Inr (map_option (\<lambda>l. \<lparr> bg_program = gen, generator_args = l \<rparr>) args))"

text \<open>What \<^verbatim>\<open>run_as_generator\<close> returns for each spend: opcodes are numbers, with the conditions grouped by opcode.\<close>

record spend_result =
  sr_coin_name :: bytes
  sr_puzzle_hash :: bytes
  sr_conditions :: "(int \<times> (int \<times> bytes list) list) list"

record 'a generator_vm =
  program_to :: "bytes list \<Rightarrow> 'a"
  run_as_generator :: "int \<Rightarrow> bool \<Rightarrow> bytes \<Rightarrow> 'a \<Rightarrow> (int option \<times> spend_result list \<times> int) option"
  atom_as_bin :: "bytes \<Rightarrow> bytes"
  int_as_bin :: "int \<Rightarrow> bytes"
  quote_as_bin :: bytes

definition create_generator_args :: "'a generator_vm \<Rightarrow> bytes list \<Rightarrow> 'a" where
  "create_generator_args V generator_ref_list = program_to V generator_ref_list"

definition setup_generator_args :: "'a generator_vm \<Rightarrow> BlockGenerator \<Rightarrow> bytes \<times> 'a" where
  "setup_generator_args V self = (bg_program self, create_generator_args V (generator_refs self))"

definition spend_bundle_to_serialized_coin_spend_entry_list :: "'a generator_vm \<Rightarrow> SpendBundle \<Rightarrow> bytes" where
  "spend_bundle_to_serialized_coin_spend_entry_list V bundle =
     concat (map (\<lambda>cs.
        [0xff] @ [0xff] @ atom_as_bin V (parent_coin_info (spend_coin cs)) @ [0xff] @ puzzle_reveal cs @
        [0xff] @ int_as_bin V (amount (spend_coin cs)) @ [0xff] @ solution cs @ [0x80]) (coin_spends bundle)) @ [0x80]"

definition simple_solution_generator :: "'a generator_vm \<Rightarrow> SpendBundle \<Rightarrow> BlockGenerator" where
  "simple_solution_generator V bundle =
     \<lparr> bg_program = [0xff] @ quote_as_bin V @ [0xff] @ spend_bundle_to_serialized_coin_spend_entry_list V bundle @ [0x80],
       generator_args = [] \<rparr>"

text \<open>\<^verbatim>\<open>bytes([n])\<close>.\<close>

definition byte_of :: "int \<Rightarrow> bytes res" where
  "byte_of n = (if 0 \<le> n \<and> n < 256 then Inr [word_of_int n] else Inl ValueError)"

definition opcode_of :: "int \<Rightarrow> ConditionOpcode res" where
  "opcode_of n = rbind (byte_of n) ConditionOpcode_new"

text \<open>The round of the loop for one spend; the constructor of \<^verbatim>\<open>NPC\<close> checks that its first two fields have 32 bytes.\<close>

definition npc_of_result :: "spend_result \<Rightarrow> NPC res" where
  "npc_of_result r =
     rbind (rmap (\<lambda>(c, l).
        rbind (rmap (\<lambda>(op, args). rbind (opcode_of op) (\<lambda>op. Inr \<lparr> opcode = op, vars = args \<rparr>)) l) (\<lambda>cwa.
        rbind (opcode_of c) (\<lambda>c. Inr (c, cwa)))) (sr_conditions r)) (\<lambda>cs.
     rbind (strict_bytes32 (sr_coin_name r)) (\<lambda>name. rbind (strict_bytes32 (sr_puzzle_hash r)) (\<lambda>ph.
       Inr \<lparr> coin_name = name, npc_puzzle_hash = ph, conditions = cs \<rparr>)))"

definition npc_failure :: "Err \<Rightarrow> NPCResult" where
  "npc_failure e = \<lparr> npc_error = Some (Err_value e), npc_list = [], clvm_cost = 0 \<rparr>"

text \<open>The body of the \<^verbatim>\<open>try\<close>; every exception in it becomes \<^verbatim>\<open>GENERATOR_RUNTIME_ERROR\<close>.\<close>

definition run_generator_body :: "'a generator_vm \<Rightarrow> int \<Rightarrow> bool \<Rightarrow> bytes \<times> 'a \<Rightarrow> NPCResult res" where
  "run_generator_body V max_cost safe_mode pa =
     (case run_as_generator V max_cost safe_mode (fst pa) (snd pa) of
        None \<Rightarrow> Inl ValueError
      | Some (err, result, cost) \<Rightarrow>
          (case err of
             Some e \<Rightarrow> rbind (uint16 e) (\<lambda>e. Inr \<lparr> npc_error = Some e, npc_list = [], clvm_cost = 0 \<rparr>)
           | None \<Rightarrow>
               rbind (rmap npc_of_result result) (\<lambda>npcs. rbind (uint64 cost) (\<lambda>cost.
                 Inr \<lparr> npc_error = None, npc_list = npcs, clvm_cost = cost \<rparr>))))"

definition get_name_puzzle_conditions :: "'a generator_vm \<Rightarrow> BlockGenerator \<Rightarrow> int \<Rightarrow> int \<Rightarrow> bool \<Rightarrow> NPCResult" where
  "get_name_puzzle_conditions V gen max_cost cost_per_byte safe_mode =
     (let pa = setup_generator_args V gen;
          max_cost = max_cost - int (length (bg_program gen)) * cost_per_byte
      in if max_cost < 0 then npc_failure INVALID_BLOCK_COST
         else case run_generator_body V max_cost safe_mode pa of
             Inl _ \<Rightarrow> npc_failure GENERATOR_RUNTIME_ERROR
           | Inr r \<Rightarrow> r)"

section \<open>Properties\<close>

text \<open>The entry that stands for a spend: the same 32-byte names and, in order, the same conditions with their opcodes decoded.\<close>

definition opcode_named :: "int \<Rightarrow> ConditionOpcode \<Rightarrow> bool" where
  "opcode_named n op \<longleftrightarrow> 0 \<le> n \<and> n < 256 \<and> opcode_value op = [word_of_int n]"

definition npc_matches :: "spend_result \<Rightarrow> NPC \<Rightarrow> bool" where
  "npc_matches r npc \<longleftrightarrow>
     coin_name npc = sr_coin_name r \<and> length (coin_name npc) = 32 \<and> npc_puzzle_hash npc = sr_puzzle_hash r \<and> length (npc_puzzle_hash npc) = 32 \<and>
     list_all2 (\<lambda>(n, l) (op, cwas). opcode_named n op \<and>
        list_all2 (\<lambda>(n, args) cwa. opcode_named n (opcode cwa) \<and> vars cwa = args) l cwas) (sr_conditions r) (conditions npc)"

lemma opcode_of_named: "opcode_of n = Inr op \<longleftrightarrow> opcode_named n op"
proof -
  have "ConditionOpcode_new [b] = Inr op \<longleftrightarrow> opcode_value op = [b]" for b
    using ConditionOpcode_from_bytes_value [of op] ConditionOpcode_from_bytes_canonical [of "[b]" op]
    by (auto simp: ConditionOpcode_from_bytes_def)
  then show ?thesis by (auto simp: opcode_of_def byte_of_def opcode_named_def)
qed

lemma strict_bytes32_Inr: "strict_bytes32 b = Inr v \<longleftrightarrow> length b = 32 \<and> v = b"
  by (auto simp: strict_bytes32_def bytes32_def sized_bytes_new_def sized_bytes_from_bytes_eq)

lemma npc_of_result_matches: "npc_of_result r = Inr npc \<longleftrightarrow> npc_matches r npc"
proof -
  have cwa: "rbind (opcode_of op) (\<lambda>op. Inr \<lparr> opcode = op, vars = args \<rparr>) = Inr c \<longleftrightarrow> opcode_named op (opcode c) \<and> vars c = args" for op args c
    by (cases c) (auto simp: rbind_eq_Inr opcode_of_named)
  let ?cwas = "rmap (\<lambda>(op, args). rbind (opcode_of op) (\<lambda>op. Inr \<lparr> opcode = op, vars = args \<rparr>))"
  have l: "?cwas l = Inr ys \<longleftrightarrow> list_all2 (\<lambda>(n, args) cwa. opcode_named n (opcode cwa) \<and> vars cwa = args) l ys" for l ys
    unfolding rmap_Inr_iff by (intro list.rel_cong refl) (auto simp: cwa)
  have cs: "rbind (?cwas l) (\<lambda>cwa. rbind (opcode_of c) (\<lambda>c. Inr (c, cwa))) = Inr y \<longleftrightarrow>
      opcode_named c (fst y) \<and> list_all2 (\<lambda>(n, args) cwa. opcode_named n (opcode cwa) \<and> vars cwa = args) l (snd y)" for c l y
    unfolding rbind_eq_Inr l by (cases y) (auto simp: rbind_eq_Inr opcode_of_named)
  have "rmap (\<lambda>(c, l). rbind (?cwas l) (\<lambda>cwa. rbind (opcode_of c) (\<lambda>c. Inr (c, cwa)))) xs = Inr ys \<longleftrightarrow>
      list_all2 (\<lambda>(n, l) (op, cwas). opcode_named n op \<and>
        list_all2 (\<lambda>(n, args) cwa. opcode_named n (opcode cwa) \<and> vars cwa = args) l cwas) xs ys" for xs ys
    unfolding rmap_Inr_iff by (intro list.rel_cong refl) (auto simp: cs case_prod_beta)
  then show ?thesis
    by (cases npc) (auto simp: npc_of_result_def npc_matches_def rbind_eq_Inr strict_bytes32_Inr)
qed

lemma rmap_npcs: "rmap npc_of_result rs = Inr npcs \<longleftrightarrow> list_all2 npc_matches rs npcs"
  by (simp add: rmap_Inr_iff npc_of_result_matches)

lemma run_generator_body_cases:
  "run_generator_body V max_cost safe_mode pa = Inr r \<longleftrightarrow>
     (\<exists>rs c npcs. run_as_generator V max_cost safe_mode (fst pa) (snd pa) = Some (None, rs, c) \<and> 0 \<le> c \<and> c < 2 ^ 64 \<and>
        list_all2 npc_matches rs npcs \<and> r = \<lparr> npc_error = None, npc_list = npcs, clvm_cost = c \<rparr>) \<or>
     (\<exists>e rs c. run_as_generator V max_cost safe_mode (fst pa) (snd pa) = Some (Some e, rs, c) \<and> 0 \<le> e \<and> e < 2 ^ 16 \<and>
        r = \<lparr> npc_error = Some e, npc_list = [], clvm_cost = 0 \<rparr>)"
  by (auto simp: run_generator_body_def rbind_eq_Inr rmap_npcs uint16_eq uint64_eq split: option.splits if_splits)

text \<open>
  C40. \<^verbatim>\<open>get_name_puzzle_conditions\<close> always returns a result of the declared type: an error is a 16-bit code that comes with no
  spends and no cost, the cost is a 64-bit number, and the names and puzzle hashes of the entries have 32 bytes. Which result it is depends on
  the machine, run on the budget left after paying for the bytes of the program. No budget left is \<^verbatim>\<open>INVALID_BLOCK_COST\<close>.
  A run that ends well, within a 64-bit cost, gives that cost and one entry for each spend, in order, with the same names and
  conditions; a run that ends with a 16-bit error gives this error. Everything else (an exception of the machine, a name of the wrong
  size, an unknown opcode, a number out of range) is \<^verbatim>\<open>GENERATOR_RUNTIME_ERROR\<close>.
\<close>

theorem get_name_puzzle_conditions_typed:
  "let r = get_name_puzzle_conditions V gen max_cost cost_per_byte safe_mode;
       limit = max_cost - int (length (bg_program gen)) * cost_per_byte
   in (case npc_error r of None \<Rightarrow> True | Some e \<Rightarrow> 0 \<le> e \<and> e < 2 ^ 16 \<and> npc_list r = [] \<and> clvm_cost r = 0) \<and>
      0 \<le> clvm_cost r \<and> clvm_cost r < 2 ^ 64 \<and>
      list_all (\<lambda>npc. length (coin_name npc) = 32 \<and> length (npc_puzzle_hash npc) = 32) (npc_list r) \<and>
      (if limit < 0 then r = npc_failure INVALID_BLOCK_COST
       else case run_as_generator V limit safe_mode (bg_program gen) (create_generator_args V (generator_refs gen)) of
           Some (None, rs, c) \<Rightarrow>
             (if 0 \<le> c \<and> c < 2 ^ 64 \<and> (\<exists>npcs. list_all2 npc_matches rs npcs)
              then npc_error r = None \<and> clvm_cost r = c \<and> list_all2 npc_matches rs (npc_list r)
              else r = npc_failure GENERATOR_RUNTIME_ERROR)
         | Some (Some e, rs, c) \<Rightarrow>
             r = (if 0 \<le> e \<and> e < 2 ^ 16 then \<lparr> npc_error = Some e, npc_list = [], clvm_cost = 0 \<rparr> else npc_failure GENERATOR_RUNTIME_ERROR)
         | None \<Rightarrow> r = npc_failure GENERATOR_RUNTIME_ERROR)"
proof -
  let ?m = "max_cost - int (length (bg_program gen)) * cost_per_byte"
  let ?run = "run_as_generator V ?m safe_mode (bg_program gen) (create_generator_args V (generator_refs gen))"
  let ?body = "run_generator_body V ?m safe_mode (setup_generator_args V gen)"
  have typed: "list_all2 npc_matches rs npcs \<Longrightarrow> list_all (\<lambda>npc. length (coin_name npc) = 32 \<and> length (npc_puzzle_hash npc) = 32) npcs" for rs npcs
    by (induction rs npcs rule: list_all2_induct) (auto simp: npc_matches_def)
  note body = run_generator_body_cases [of V ?m safe_mode "setup_generator_args V gen", unfolded setup_generator_args_def fst_conv snd_conv, folded setup_generator_args_def]
  note result = get_name_puzzle_conditions_def [of V gen max_cost cost_per_byte safe_mode, unfolded Let_def]
  consider (low) "?m < 0" | (raise) e where "0 \<le> ?m" "?body = Inl e" | (ok) r where "0 \<le> ?m" "?body = Inr r"
    by (cases "?m < 0"; cases ?body) auto
  then show ?thesis
  proof cases
    case low
    then show ?thesis by (simp add: result npc_failure_def)
  next
    case raise
    have none: "\<not> (\<exists>r. ?body = Inr r)" using raise by simp
    show ?thesis
    proof (cases ?run)
      case None
      then show ?thesis using raise by (simp add: result npc_failure_def)
    next
      case (Some a)
      obtain err rs c where a: "a = (err, rs, c)" by (cases a)
      show ?thesis
      proof (cases err)
        case e: None
        have "\<not> (0 \<le> c \<and> c < 2 ^ 64 \<and> (\<exists>npcs. list_all2 npc_matches rs npcs))"
          using none Some unfolding body a e by blast
        then show ?thesis using raise Some by (simp add: result npc_failure_def a e)
      next
        case e: (Some x)
        have "\<not> (0 \<le> x \<and> x < 2 ^ 16)" using none Some unfolding body a e by blast
        then show ?thesis using raise Some by (auto simp: result npc_failure_def a e)
      qed
    qed
  next
    case ok
    from ok(2) [unfolded body] show ?thesis
    proof (elim disjE exE conjE)
      fix rs c npcs
      assume "?run = Some (None, rs, c)" "0 \<le> c" "c < 2 ^ 64" "list_all2 npc_matches rs npcs"
        "r = \<lparr> npc_error = None, npc_list = npcs, clvm_cost = c \<rparr>"
      then show ?thesis using ok typed [of rs npcs] by (auto simp: result)
    next
      fix e rs c
      assume "?run = Some (Some e, rs, c)" "0 \<le> e" "e < 2 ^ 16" "r = \<lparr> npc_error = Some e, npc_list = [], clvm_cost = 0 \<rparr>"
      then show ?thesis using ok by (simp add: result)
    qed
  qed
qed

text \<open>A machine that reports one spend, which creates a coin, when it has a budget of at least 10.\<close>

definition one_spend :: spend_result where
  "one_spend = \<lparr> sr_coin_name = replicate 32 8, sr_puzzle_hash = replicate 32 1, sr_conditions = [(51, [(51, [replicate 32 1, [5]])])] \<rparr>"

definition one_spend_vm :: "unit generator_vm" where
  "one_spend_vm = \<lparr> program_to = (\<lambda>_. ()), run_as_generator = (\<lambda>limit _ _ _. if limit < 10 then None else Some (None, [one_spend], 10)),
     atom_as_bin = id, int_as_bin = (\<lambda>i. []), quote_as_bin = [] \<rparr>"

definition one_npc :: NPC where
  "one_npc = \<lparr> coin_name = replicate 32 8, npc_puzzle_hash = replicate 32 1,
     conditions = [(CREATE_COIN, [\<lparr> opcode = CREATE_COIN, vars = [replicate 32 1, [5]] \<rparr>])] \<rparr>"

lemma one_spend_matches: "npc_matches one_spend one_npc"
  by (simp add: npc_matches_def one_spend_def one_npc_def opcode_named_def)

theorem get_name_puzzle_conditions_typed_witness:
  "\<exists>npc. get_name_puzzle_conditions one_spend_vm \<lparr> bg_program = [1, 2], generator_args = [] \<rparr> 100 3 True =
       \<lparr> npc_error = None, npc_list = [npc], clvm_cost = 10 \<rparr> \<and> npc_matches one_spend npc \<and>
     get_name_puzzle_conditions one_spend_vm \<lparr> bg_program = [1, 2], generator_args = [] \<rparr> 15 3 True = npc_failure GENERATOR_RUNTIME_ERROR \<and>
     get_name_puzzle_conditions one_spend_vm \<lparr> bg_program = [1, 2], generator_args = [] \<rparr> 5 3 True = npc_failure INVALID_BLOCK_COST"
proof -
  let ?g = "\<lparr> bg_program = [1, 2], generator_args = [] \<rparr>"
  let ?r = "get_name_puzzle_conditions one_spend_vm ?g 100 3 True"
  have "list_all2 npc_matches [one_spend] [one_npc]" using one_spend_matches by simp
  then have e: "\<exists>npcs. list_all2 npc_matches [one_spend] npcs" by blast
  have "npc_error ?r = None" "clvm_cost ?r = 10" "list_all2 npc_matches [one_spend] (npc_list ?r)"
    using get_name_puzzle_conditions_typed [of one_spend_vm ?g 100 3 True] e by (simp_all add: Let_def one_spend_vm_def)
  moreover from this(3) obtain npc where "npc_list ?r = [npc]" "npc_matches one_spend npc" by (auto simp: list_all2_Cons1)
  ultimately have "?r = \<lparr> npc_error = None, npc_list = [npc], clvm_cost = 10 \<rparr>" "npc_matches one_spend npc" by (cases ?r; simp)+
  then show ?thesis
    using get_name_puzzle_conditions_typed [of one_spend_vm ?g 15 3 True] get_name_puzzle_conditions_typed [of one_spend_vm ?g 5 3 True]
    by (auto simp: Let_def one_spend_vm_def)
qed

end
