(* ===== verification/BlsCache.thy ===== *)
theory BlsCache
  imports Coins LruCache
begin

text \<open>
  \<^verbatim>\<open>hddcoin/util/cached_bls.py\<close>: verification of aggregate signatures with a cache of pairings. The group operations of
  \<^verbatim>\<open>blspy\<close> are the fields of \<open>bls\<close>, and \<open>bls_ok\<close> states what is used of them: verification compares the product of the
  pairings of keys and messages with the pairing of the signature. Keys have 48 bytes. The lemmas show that the cache,
  which may have forgotten anything, never changes a verdict.
\<close>

record 'g bls =
  pk_valid :: "bytes \<Rightarrow> bool"
  pk_pair :: "bytes \<Rightarrow> bytes \<Rightarrow> 'g"
  gt_mul :: "'g \<Rightarrow> 'g \<Rightarrow> 'g"
  sig_pair_generator :: "bytes \<Rightarrow> 'g"
  bls_aggregate_verify :: "bytes list \<Rightarrow> bytes list \<Rightarrow> bytes \<Rightarrow> bool"

text \<open>\<^verbatim>\<open>functools.reduce\<close> without an initial value raises a \<^verbatim>\<open>TypeError\<close> on an empty list.\<close>

fun py_reduce :: "('a \<Rightarrow> 'a \<Rightarrow> 'a) \<Rightarrow> 'a list \<Rightarrow> 'a res" where
  "py_reduce f [] = Inl TypeError"
| "py_reduce f (x # xs) = Inr (foldl f x xs)"

definition pairing_of :: "'g bls \<Rightarrow> bytes \<Rightarrow> bytes \<Rightarrow> 'g" where
  "pairing_of B pk msg = pk_pair B pk (pk @ msg)"

text \<open>First loop of \<^verbatim>\<open>get_pairings\<close>: \<open>None\<close> is the early \<^verbatim>\<open>return []\<close> when more than half of the pairings are missing.\<close>

fun lookup_pairings ::
  "crypto \<Rightarrow> bool \<Rightarrow> nat \<Rightarrow> (bytes \<times> bytes) list \<Rightarrow> nat \<Rightarrow> 'g option list \<Rightarrow> (bytes, 'g) LRUCache \<Rightarrow> 'g option list option \<times> (bytes, 'g) LRUCache" where
  "lookup_pairings E force_cache n [] missing_count pairings c = (Some pairings, c)"
| "lookup_pairings E force_cache n ((pk, msg) # ps) missing_count pairings c =
     (case LRUCache_get (std_hash E (pk @ msg)) c of (pairing, c) \<Rightarrow>
        if \<not> force_cache \<and> pairing = None then
          (if missing_count + 1 > n div 2 then (None, c)
           else lookup_pairings E force_cache n ps (missing_count + 1) (pairings @ [pairing]) c)
        else lookup_pairings E force_cache n ps missing_count (pairings @ [pairing]) c)"

text \<open>Second loop: missing pairings are computed and stored; \<^verbatim>\<open>G1Element.from_bytes\<close> raises on bytes that are no key.\<close>

fun fill_pairings :: "crypto \<Rightarrow> 'g bls \<Rightarrow> ((bytes \<times> bytes) \<times> 'g option) list \<Rightarrow> (bytes, 'g) LRUCache \<Rightarrow> ('g list \<times> (bytes, 'g) LRUCache) res" where
  "fill_pairings E B [] c = Inr ([], c)"
| "fill_pairings E B (((pk, msg), pairing) # ps) c =
     (case pairing of
        Some p \<Rightarrow> rbind (fill_pairings E B ps c) (\<lambda>(l, c). Inr (p # l, c))
      | None \<Rightarrow>
          if \<not> pk_valid B pk then Inl ValueError
          else let p = pairing_of B pk msg
               in rbind (fill_pairings E B ps (LRUCache_put (std_hash E (pk @ msg)) p c)) (\<lambda>(l, c). Inr (p # l, c)))"

definition get_pairings ::
  "crypto \<Rightarrow> 'g bls \<Rightarrow> (bytes, 'g) LRUCache \<Rightarrow> bytes list \<Rightarrow> bytes list \<Rightarrow> bool \<Rightarrow> ('g list \<times> (bytes, 'g) LRUCache) res" where
  "get_pairings E B c pks msgs force_cache =
     (case lookup_pairings E force_cache (length pks) (zip pks msgs) 0 [] c of
        (None, c) \<Rightarrow> Inr ([], c)
      | (Some pairings, c) \<Rightarrow> fill_pairings E B (zip (zip pks msgs) pairings) c)"

definition aggregate_verify ::
  "crypto \<Rightarrow> 'g bls \<Rightarrow> bytes list \<Rightarrow> bytes list \<Rightarrow> bytes \<Rightarrow> bool \<Rightarrow> (bytes, 'g) LRUCache \<Rightarrow> (bool \<times> (bytes, 'g) LRUCache) res" where
  "aggregate_verify E B pks msgs sig force_cache c =
     rbind (get_pairings E B c pks msgs force_cache) (\<lambda>(pairings, c).
       if length pairings = 0 then
         (if \<forall>pk \<in> set pks. pk_valid B pk then Inr (bls_aggregate_verify B pks msgs sig, c) else Inl ValueError)
       else rbind (py_reduce (gt_mul B) pairings) (\<lambda>pairings_prod. Inr (pairings_prod = sig_pair_generator B sig, c)))"

section \<open>The cache does not matter\<close>

text \<open>Aggregate verification of \<^verbatim>\<open>blspy\<close>, for at least one key.\<close>

definition bls_ok :: "'g bls \<Rightarrow> bool" where
  "bls_ok B \<longleftrightarrow>
     (\<forall>pks msgs sig. pks \<noteq> [] \<and> length pks = length msgs \<longrightarrow>
        bls_aggregate_verify B pks msgs sig \<longleftrightarrow>
        py_reduce (gt_mul B) (map (\<lambda>(pk, msg). pairing_of B pk msg) (zip pks msgs)) = Inr (sig_pair_generator B sig))"

text \<open>
  Every cached value is the pairing of a valid key and a message whose hash is its key. The hashed strings come from a set \<open>S\<close>
  without collisions.
\<close>

definition pairings_ok :: "crypto \<Rightarrow> 'g bls \<Rightarrow> bytes set \<Rightarrow> (bytes, 'g) LRUCache \<Rightarrow> bool" where
  "pairings_ok E B S c \<longleftrightarrow>
     LRUCache_ok c \<and>
     (\<forall>h p. LRUCache_look c h = Some p \<longrightarrow>
        (\<exists>pk msg. length pk = 48 \<and> pk_valid B pk \<and> pk @ msg \<in> S \<and> h = std_hash E (pk @ msg) \<and> p = pairing_of B pk msg))"

lemma pairings_ok_get:
  assumes "pairings_ok E B S c" "inj_on (hash256 E) S" "pk @ msg \<in> S" "length pk = 48" "LRUCache_get (std_hash E (pk @ msg)) c = (r, c')"
  shows "pairings_ok E B S c' \<and> (\<forall>p. r = Some p \<longrightarrow> pk_valid B pk \<and> p = pairing_of B pk msg)"
proof -
  have c: "LRUCache_ok c" using assms(1) by (simp add: pairings_ok_def)
  have l: "LRUCache_look c' = LRUCache_look c" "LRUCache_ok c'" "r = LRUCache_look c (std_hash E (pk @ msg))"
    using lru.get_look [OF c, of "std_hash E (pk @ msg)"] lru.get_inv [OF c, of "std_hash E (pk @ msg)"]
      lru.get_value [OF c, of "std_hash E (pk @ msg)"] by (simp_all add: assms(5))
  have "pk_valid B pk \<and> p = pairing_of B pk msg" if r: "r = Some p" for p
  proof -
    have "LRUCache_look c (std_hash E (pk @ msg)) = Some p" using l(3) r by simp
    then have "\<exists>pk' msg'. length pk' = 48 \<and> pk_valid B pk' \<and> pk' @ msg' \<in> S \<and> std_hash E (pk @ msg) = std_hash E (pk' @ msg') \<and> p = pairing_of B pk' msg'"
      using conjunct2 [OF assms(1) [unfolded pairings_ok_def]] by blast
    then obtain pk' msg' where k: "length pk' = 48" "pk_valid B pk'" "pk' @ msg' \<in> S" "std_hash E (pk @ msg) = std_hash E (pk' @ msg')" "p = pairing_of B pk' msg'"
      by blast
    then have "pk @ msg = pk' @ msg'" using assms(2,3) by (simp add: std_hash_def inj_on_eq_iff)
    then show ?thesis using k assms(4) by simp
  qed
  then show ?thesis using assms(1) l by (simp add: pairings_ok_def)
qed

lemma pairings_ok_put:
  assumes "pairings_ok E B S c" "pk @ msg \<in> S" "length pk = 48" "pk_valid B pk"
  shows "pairings_ok E B S (LRUCache_put (std_hash E (pk @ msg)) (pairing_of B pk msg) c)"
proof -
  have c: "LRUCache_ok c" using assms(1) by (simp add: pairings_ok_def)
  let ?c = "LRUCache_put (std_hash E (pk @ msg)) (pairing_of B pk msg) c"
  have "LRUCache_look c h = Some p \<or> h = std_hash E (pk @ msg) \<and> p = pairing_of B pk msg" if "LRUCache_look ?c h = Some p" for h p
    using lru.put_Some [OF c that] by blast
  then show ?thesis using assms lru.put_inv [OF c] unfolding pairings_ok_def by blast
qed

definition keys_in :: "bytes set \<Rightarrow> (bytes \<times> bytes) list \<Rightarrow> bool" where
  "keys_in S ps \<longleftrightarrow> (\<forall>(pk, msg) \<in> set ps. length pk = 48 \<and> pk @ msg \<in> S)"

definition hit_ok :: "'g bls \<Rightarrow> (bytes \<times> bytes) \<times> 'g option \<Rightarrow> bool" where
  "hit_ok B x \<longleftrightarrow> (\<forall>p. snd x = Some p \<longrightarrow> pk_valid B (fst (fst x)) \<and> p = pairing_of B (fst (fst x)) (snd (fst x)))"

lemma lookup_pairings_ok:
  assumes "pairings_ok E B S c" "inj_on (hash256 E) S" "keys_in S ps"
    and "lookup_pairings E force n ps missing pairings c = (r, c')"
  shows "pairings_ok E B S c' \<and>
    (\<forall>l. r = Some l \<longrightarrow> (\<exists>l'. l = pairings @ l' \<and> length l' = length ps \<and> (\<forall>x \<in> set (zip ps l'). hit_ok B x)))"
  using assms(1,3,4)
proof (induction ps arbitrary: missing pairings c)
  case (Cons q ps)
  obtain pk msg where q: "q = (pk, msg)" by (cases q)
  obtain x c1 where g: "LRUCache_get (std_hash E (pk @ msg)) c = (x, c1)" by force
  have k: "pk @ msg \<in> S" "length pk = 48" "keys_in S ps" using Cons.prems(2) by (auto simp: keys_in_def q)
  note h = pairings_ok_get [OF Cons.prems(1) assms(2) k(1,2) g]
  have hit: "hit_ok B ((pk, msg), x)" using h by (simp add: hit_ok_def)
  show ?case
  proof (cases "\<not> force \<and> x = None \<and> missing + 1 > n div 2")
    case True
    then show ?thesis using Cons.prems(3) h by (simp add: q g)
  next
    case False
    then obtain missing' where "lookup_pairings E force n ps missing' (pairings @ [x]) c1 = (r, c')"
      using Cons.prems(3) by (cases "\<not> force \<and> x = None") (auto simp: q g)
    from Cons.IH [OF _ k(3) this] h have IH: "pairings_ok E B S c'"
      "\<forall>l. r = Some l \<longrightarrow> (\<exists>l'. l = (pairings @ [x]) @ l' \<and> length l' = length ps \<and> (\<forall>x \<in> set (zip ps l'). hit_ok B x))" by blast+
    have "\<exists>l'. l = pairings @ l' \<and> length l' = length (q # ps) \<and> (\<forall>x \<in> set (zip (q # ps) l'). hit_ok B x)" if r: "r = Some l" for l
    proof -
      obtain l' where "l = (pairings @ [x]) @ l'" "length l' = length ps" "\<forall>x \<in> set (zip ps l'). hit_ok B x" using IH(2) r by blast
      then show ?thesis using hit by (intro exI [of _ "x # l'"]) (simp add: q)
    qed
    then show ?thesis using IH(1) by blast
  qed
qed auto

lemma fill_pairings_ok:
  assumes "pairings_ok E B S c" "keys_in S (map fst qs)" "\<forall>x \<in> set qs. hit_ok B x"
  shows "if \<forall>x \<in> set qs. pk_valid B (fst (fst x))
    then \<exists>c'. fill_pairings E B qs c = Inr (map (\<lambda>((pk, msg), p). pairing_of B pk msg) qs, c') \<and> pairings_ok E B S c'
    else fill_pairings E B qs c = Inl ValueError"
  using assms
proof (induction qs arbitrary: c)
  case (Cons x qs)
  obtain pk msg p where x: "x = ((pk, msg), p)" by (metis prod.collapse)
  have k: "pk @ msg \<in> S" "length pk = 48" "keys_in S (map fst qs)" using Cons.prems(2) by (auto simp: keys_in_def x)
  show ?case
  proof (cases p)
    case (Some v)
    then have v: "pk_valid B pk" "v = pairing_of B pk msg" using Cons.prems(3) by (auto simp: x hit_ok_def)
    show ?thesis using Cons.IH [OF Cons.prems(1) k(3)] Cons.prems(3) Some v by (auto simp: x)
  next
    case None
    show ?thesis
    proof (cases "pk_valid B pk")
      case True
      show ?thesis using Cons.IH [OF pairings_ok_put [OF Cons.prems(1) k(1,2) True] k(3)] Cons.prems(3) None True
        by (auto simp: x Let_def)
    next
      case False
      then show ?thesis using None by (simp add: x)
    qed
  qed
qed simp

lemma aggregate_verify_eq:
  assumes "bls_ok B" "pairings_ok E B S c" "inj_on (hash256 E) S" "length pks = length msgs" "keys_in S (zip pks msgs)"
  shows "if \<forall>pk \<in> set pks. pk_valid B pk
    then \<exists>c'. aggregate_verify E B pks msgs sig force c = Inr (bls_aggregate_verify B pks msgs sig, c') \<and> pairings_ok E B S c'
    else aggregate_verify E B pks msgs sig force c = Inl ValueError"
proof -
  obtain r c1 where lk: "lookup_pairings E force (length pks) (zip pks msgs) 0 [] c = (r, c1)" by force
  note ok = lookup_pairings_ok [OF assms(2,3,5) lk]
  show ?thesis
  proof (cases r)
    case None
    then show ?thesis using ok by (simp add: aggregate_verify_def get_pairings_def lk)
  next
    case (Some l)
    then have l: "length l = length (zip pks msgs)" "\<forall>x \<in> set (zip (zip pks msgs) l). hit_ok B x" using ok by auto
    let ?qs = "zip (zip pks msgs) l"
    have f: "map fst ?qs = zip pks msgs" using l(1) by simp
    have valid: "(\<forall>x \<in> set ?qs. pk_valid B (fst (fst x))) \<longleftrightarrow> (\<forall>pk \<in> set pks. pk_valid B pk)"
    proof -
      have "map fst (map fst ?qs) = pks" unfolding f using assms(4) by simp
      then have "set pks = fst ` fst ` set ?qs" by (metis set_map)
      then show ?thesis by simp
    qed
    have m: "map (\<lambda>((pk, msg), p). pairing_of B pk msg) ?qs = map (\<lambda>(pk, msg). pairing_of B pk msg) (zip pks msgs)"
    proof -
      have "map (\<lambda>((pk, msg), p). pairing_of B pk msg) ?qs = map (\<lambda>(pk, msg). pairing_of B pk msg) (map fst ?qs)"
        by (simp only: map_map comp_def) (simp add: case_prod_beta)
      then show ?thesis by (simp only: f)
    qed
    have "keys_in S (map fst ?qs)" using assms(5) by (simp only: f)
    from fill_pairings_ok [OF conjunct1 [OF ok] this l(2)] have fill: "if \<forall>pk \<in> set pks. pk_valid B pk
      then \<exists>c'. fill_pairings E B ?qs c1 = Inr (map (\<lambda>(pk, msg). pairing_of B pk msg) (zip pks msgs), c') \<and> pairings_ok E B S c'
      else fill_pairings E B ?qs c1 = Inl ValueError" by (simp only: valid m)
    show ?thesis
    proof (cases "\<forall>pk \<in> set pks. pk_valid B pk")
      case True
      then obtain c' where c': "fill_pairings E B ?qs c1 = Inr (map (\<lambda>(pk, msg). pairing_of B pk msg) (zip pks msgs), c')" "pairings_ok E B S c'"
        using fill by auto
      show ?thesis
      proof (cases "pks = []")
        case True
        then show ?thesis using assms(2) by (simp add: aggregate_verify_def get_pairings_def)
      next
        case False
        then have ne: "map (\<lambda>(pk, msg). pairing_of B pk msg) (zip pks msgs) \<noteq> []" using assms(4) by (cases pks; cases msgs) simp_all
        then obtain g where g: "py_reduce (gt_mul B) (map (\<lambda>(pk, msg). pairing_of B pk msg) (zip pks msgs)) = Inr g"
          by (cases "map (\<lambda>(pk, msg). pairing_of B pk msg) (zip pks msgs)") simp_all
        have "bls_aggregate_verify B pks msgs sig \<longleftrightarrow> g = sig_pair_generator B sig"
          using assms(1,4) False g by (simp add: bls_ok_def)
        moreover have "get_pairings E B c pks msgs force = Inr (map (\<lambda>(pk, msg). pairing_of B pk msg) (zip pks msgs), c')"
          using c'(1) Some by (simp add: get_pairings_def lk)
        ultimately show ?thesis using True c'(2) g ne by (simp add: aggregate_verify_def)
      qed
    next
      case False
      then have "fill_pairings E B ?qs c1 = Inl ValueError" using fill by simp
      then show ?thesis using False Some by (simp add: aggregate_verify_def get_pairings_def lk)
    qed
  qed
qed

text \<open>
  C39. The cache of pairings never changes a verdict: on keys of 48 bytes with as many messages, \<^verbatim>\<open>aggregate_verify\<close> answers
  what the uncached verification of the BLS library answers, whatever the cache has kept or evicted and whether its use is
  forced or not, raises exactly when a key is invalid, and leaves a cache that is still correct.
\<close>

theorem aggregate_verify_uncached:
  assumes "bls_ok B" "pairings_ok E B S c" "inj_on (hash256 E) S" "length pks = length msgs" "keys_in S (zip pks msgs)"
  shows "if \<forall>pk \<in> set pks. pk_valid B pk
    then \<exists>c'. aggregate_verify E B pks msgs sig force c = Inr (bls_aggregate_verify B pks msgs sig, c') \<and> pairings_ok E B S c'
    else aggregate_verify E B pks msgs sig force c = Inl ValueError"
  using assms by (rule aggregate_verify_eq)

text \<open>A concrete instance: pairings are lengths, multiplied by adding them up.\<close>

definition demo_bls :: "int bls" where
  "demo_bls =
     \<lparr> pk_valid = (\<lambda>pk. True), pk_pair = (\<lambda>pk b. int (length b)), gt_mul = (+), sig_pair_generator = be_int,
       bls_aggregate_verify = (\<lambda>pks msgs sig.
         py_reduce (+) (map (\<lambda>(pk, msg). int (length (pk @ msg))) (zip pks msgs)) = Inr (be_int sig)) \<rparr>"

lemma demo_bls_ok: "bls_ok demo_bls"
  by (simp add: bls_ok_def demo_bls_def pairing_of_def)

text \<open>The first call fills the cache with a pairing, the second starts from the cache the first one left.\<close>

theorem aggregate_verify_uncached_witness:
  "\<exists>c' c''. aggregate_verify demo_crypto demo_bls [replicate 48 1] [[7]] [49] True (LRUCache_init 5) = Inr (True, c') \<and>
     aggregate_verify demo_crypto demo_bls [replicate 48 1] [[7]] [50] False c' = Inr (False, c'')"
proof -
  let ?S = "{replicate 48 1 @ [7] :: bytes}"
  have "pairings_ok demo_crypto demo_bls ?S (LRUCache_init 5)"
    by (simp add: pairings_ok_def LRUCache_init_def LRUCache_ok_def LRUCache_look_def)
  moreover have v: "bls_aggregate_verify demo_bls [replicate 48 1] [[7]] [49]" "\<not> bls_aggregate_verify demo_bls [replicate 48 1] [[7]] [50]"
    by (simp_all add: demo_bls_def be_int_def)
  moreover have k: "keys_in ?S (zip [replicate 48 1] [[7]])" by (simp add: keys_in_def)
  ultimately obtain c' where c': "aggregate_verify demo_crypto demo_bls [replicate 48 1] [[7]] [49] True (LRUCache_init 5) = Inr (True, c')"
    "pairings_ok demo_crypto demo_bls ?S c'"
    using aggregate_verify_uncached [OF demo_bls_ok, of demo_crypto ?S "LRUCache_init 5" "[replicate 48 1]" "[[7]]" "[49]" True]
    by (auto simp: demo_bls_def)
  moreover obtain c'' where "aggregate_verify demo_crypto demo_bls [replicate 48 1] [[7]] [50] False c' = Inr (False, c'')"
    using aggregate_verify_uncached [OF demo_bls_ok c'(2), of "[replicate 48 1]" "[[7]]" "[50]" False] v(2) k by (auto simp: demo_bls_def)
  ultimately show ?thesis by blast
qed

end
