(* ===== verification/MempoolManager.thy ===== *)
theory MempoolManager
  imports Generator BlsCache BlockRecords
begin

text \<open>
  \<^verbatim>\<open>hddcoin/full_node/mempool_manager.py\<close>: admission of transactions to the pool. Its methods run under one lock, so each is a
  function on the state of the manager. A state machine of phases mirrors \<^verbatim>\<open>add_spendbundle\<close>: a phase either returns early with
  an error or hands its results to the next one. The Bloom filters of \<^verbatim>\<open>chiabip158\<close>, the CLVM and the BLS library are parameters.
\<close>

datatype MempoolInclusionStatus = SUCCESS | PENDING | FAILED

record MempoolManager =
  mm_constants :: ConsensusConstants
  seen_bundle_hashes :: "(bytes, bytes) dict"
  mm_coin_store :: CoinStore
  nonzero_fee_minimum_fpc :: int
  limit_factor :: rat
  mempool_max_total_cost :: int
  potential_cache :: PendingTxCache
  seen_cache_size :: int
  mm_peak :: "BlockRecord option"
  mempool :: Mempool

definition MempoolManager_init :: "CoinStore \<Rightarrow> ConsensusConstants \<Rightarrow> MempoolManager" where
  "MempoolManager_init store constants =
     (let max_total = MAX_BLOCK_COST_CLVM constants * MEMPOOL_BLOCK_BUFFER constants in
      \<lparr> mm_constants = constants, seen_bundle_hashes = [], mm_coin_store = store, nonzero_fee_minimum_fpc = 5,
        limit_factor = 1 / 2, mempool_max_total_cost = max_total,
        potential_cache = PendingTxCache_init (MAX_BLOCK_COST_CLVM constants * 5), seen_cache_size = 10000,
        mm_peak = None, mempool = Mempool_init max_total \<rparr>)"

text \<open>\<^verbatim>\<open>self.limit_factor * self.constants.MAX_BLOCK_COST_CLVM\<close>, a float.\<close>

definition cost_limit :: "MempoolManager \<Rightarrow> rat" where
  "cost_limit self = py_fmul (limit_factor self) (py_float (MAX_BLOCK_COST_CLVM (mm_constants self)))"

section \<open>Bundles as bytes\<close>

definition CoinSpend_fields :: "ty list" where
  "CoinSpend_fields = [TClass Coin_fields, TCustom, TCustom]"

definition CoinSpend_items :: "CoinSpend \<Rightarrow> item list" where
  "CoinSpend_items cs = [VObj (Coin_items (spend_coin cs)), VCustom (puzzle_reveal cs), VCustom (solution cs)]"

definition SpendBundle_fields :: "ty list" where
  "SpendBundle_fields = [TList (TClass CoinSpend_fields), TBls G2Element]"

definition SpendBundle_items :: "SpendBundle \<Rightarrow> item list" where
  "SpendBundle_items b = [VList (map (\<lambda>cs. VObj (CoinSpend_items cs)) (coin_spends b)), VBls (SpendBundle.aggregated_signature b)]"

definition Coin_of_item :: "item \<Rightarrow> Coin res" where
  "Coin_of_item v =
     (case v of
        VObj [VBytes p, VBytes q, VInt a] \<Rightarrow> Inr \<lparr> parent_coin_info = p, puzzle_hash = q, amount = a \<rparr>
      | _ \<Rightarrow> Inl TypeError)"

definition CoinSpend_of_item :: "item \<Rightarrow> CoinSpend res" where
  "CoinSpend_of_item v =
     (case v of
        VObj [c, VCustom r, VCustom s] \<Rightarrow>
          rbind (Coin_of_item c) (\<lambda>c. Inr \<lparr> spend_coin = c, puzzle_reveal = r, solution = s \<rparr>)
      | _ \<Rightarrow> Inl TypeError)"

definition SpendBundle_of_item :: "item \<Rightarrow> SpendBundle res" where
  "SpendBundle_of_item v =
     (case v of
        VObj [VList l, VBls sig] \<Rightarrow>
          rbind (rmap CoinSpend_of_item l) (\<lambda>css. Inr \<lparr> coin_spends = css, aggregated_signature = sig \<rparr>)
      | _ \<Rightarrow> Inl TypeError)"

definition SpendBundle_from_bytes :: "crypto \<Rightarrow> bytes \<Rightarrow> SpendBundle res" where
  "SpendBundle_from_bytes E blob = rbind (Streamable_from_bytes (bls_codec E) SpendBundle_fields blob) SpendBundle_of_item"

definition SpendBundle_to_bytes :: "crypto \<Rightarrow> SpendBundle \<Rightarrow> bytes res" where
  "SpendBundle_to_bytes E b = Streamable_stream (bls_codec E) SpendBundle_fields (SpendBundle_items b)"

lemma SpendBundle_of_items: "SpendBundle_of_item (VObj (SpendBundle_items b)) = Inr b"
proof -
  have "rmap CoinSpend_of_item (map (\<lambda>cs. VObj (CoinSpend_items cs)) l) = Inr l" for l
    by (induction l) (simp_all add: CoinSpend_of_item_def Coin_of_item_def CoinSpend_items_def Coin_items_def)
  then show ?thesis by (simp add: SpendBundle_of_item_def SpendBundle_items_def)
qed

text \<open>A bundle that is sent to a worker process as bytes arrives there unchanged.\<close>

lemma SpendBundle_bytes_roundtrip:
  assumes "crypto_ok E" "has_type (bls_codec E) (TClass SpendBundle_fields) (VObj (SpendBundle_items b))"
  shows "\<exists>bs. SpendBundle_to_bytes E b = Inr bs \<and> SpendBundle_from_bytes E bs = Inr b"
proof -
  have "codec_ok (bls_codec E)" using assms(1) by (simp add: crypto_ok_def)
  from item_codec.round_trip [OF item_codec_one [where can = False, OF this] assms(2)] obtain bs where
    bs: "stream_one_item (bls_codec E) (TClass SpendBundle_fields) (VObj (SpendBundle_items b)) = Inr bs"
      "\<And>rest. parse_one_item (bls_codec E) (TClass SpendBundle_fields) (bs @ rest) = Inr (VObj (SpendBundle_items b), rest)" by blast
  have "length (SpendBundle_items b) = length SpendBundle_fields" using assms(2) by simp
  then have "SpendBundle_to_bytes E b = Inr bs" using bs(1) by (simp only: SpendBundle_to_bytes_def Streamable_stream_eq)
  moreover have "Streamable_from_bytes (bls_codec E) SpendBundle_fields bs = Inr (VObj (SpendBundle_items b))"
    using bs(2) [of "[]"] by (simp only: Streamable_from_bytes_def Streamable_parse_eq append_Nil2) simp
  ultimately show ?thesis by (simp add: SpendBundle_from_bytes_def SpendBundle_of_items)
qed

section \<open>Validation of signatures\<close>

text \<open>
  \<^verbatim>\<open>validate_clvm_and_signature\<close>: the body of the \<^verbatim>\<open>try\<close>, whose early returns are \<open>Inl\<close>, and the function. Every exception of the body, also
  that of \<^verbatim>\<open>Err(result.error)\<close> on an unknown number, becomes \<^verbatim>\<open>Err.UNKNOWN\<close>. The result and the pairings that were computed are handed back
  as they are; the code turns them into bytes for the way between the processes.
\<close>

definition validate_body ::
  "crypto \<Rightarrow> 'a generator_vm \<Rightarrow> 'g bls \<Rightarrow> bytes \<Rightarrow> int \<Rightarrow> int \<Rightarrow> bytes \<Rightarrow> ((Err + int) + NPCResult \<times> (bytes, 'g) dict) res" where
  "validate_body E V B spend_bundle_bytes max_cost cost_per_byte additional_data =
     rbind (SpendBundle_from_bytes E spend_bundle_bytes) (\<lambda>bundle.
     let result = get_name_puzzle_conditions V (simple_solution_generator V bundle) max_cost cost_per_byte True
     in case npc_error result of
         Some e \<Rightarrow> rbind (Err_member e) (\<lambda>e. Inr (Inl (Inr e)))
       | None \<Rightarrow>
           rbind (pkm_pairs (npc_list result) additional_data) (\<lambda>(pks, msgs).
           rbind (aggregate_verify E B pks msgs (SpendBundle.aggregated_signature bundle) True (LRUCache_init 10000)) (\<lambda>(valid, c).
             Inr (if \<not> valid then Inl (Inl BAD_AGGREGATE_SIGNATURE) else Inr (result, cache c)))))"

definition validate_clvm_and_signature ::
  "crypto \<Rightarrow> 'a generator_vm \<Rightarrow> 'g bls \<Rightarrow> bytes \<Rightarrow> int \<Rightarrow> int \<Rightarrow> bytes \<Rightarrow>
   (Err + int) option \<times> NPCResult option \<times> (bytes, 'g) dict" where
  "validate_clvm_and_signature E V B spend_bundle_bytes max_cost cost_per_byte additional_data =
     (case validate_body E V B spend_bundle_bytes max_cost cost_per_byte additional_data of
        Inl _ \<Rightarrow> (Some (Inl UNKNOWN), None, [])
      | Inr (Inl e) \<Rightarrow> (Some e, None, [])
      | Inr (Inr (result, new_cache_entries)) \<Rightarrow> (None, Some result, new_cache_entries))"

text \<open>
  \<^verbatim>\<open>pre_validate_spendbundle\<close>: the result of the worker process, or the code of the \<^verbatim>\<open>ValidationError\<close> it raises; the pairings go to
  the cache of this process.
\<close>

definition pre_validate_spendbundle ::
  "crypto \<Rightarrow> 'a generator_vm \<Rightarrow> 'g bls \<Rightarrow> SpendBundle \<Rightarrow> bytes option \<Rightarrow> MempoolManager \<Rightarrow> (bytes, 'g) LRUCache \<Rightarrow>
   (((Err + int) + NPCResult) \<times> (bytes, 'g) LRUCache) res" where
  "pre_validate_spendbundle E V B new_spend new_spend_bytes self local_cache =
     rbind (case new_spend_bytes of None \<Rightarrow> SpendBundle_to_bytes E new_spend | Some bs \<Rightarrow> Inr bs) (\<lambda>bs.
       Inr (case validate_clvm_and_signature E V B bs (py_int (cost_limit self)) (COST_PER_BYTE (mm_constants self))
                   (AGG_SIG_ME_ADDITIONAL_DATA (mm_constants self)) of
              (Some err, _, _) \<Rightarrow> (Inl err, local_cache)
            | (None, Some result, new_cache_entries) \<Rightarrow>
                (Inr result, fold (\<lambda>(k, v). LRUCache_put k v) new_cache_entries local_cache)
            | (None, None, _) \<Rightarrow> (Inl (Inl UNKNOWN), local_cache)))"

section \<open>Building a block\<close>

definition fits_block :: "MempoolManager \<Rightarrow> int \<Rightarrow> int \<Rightarrow> MempoolItem \<Rightarrow> bool" where
  "fits_block self cost_sum fee_sum item \<longleftrightarrow>
     of_int (mi_cost item + cost_sum) \<le> cost_limit self \<and> mi_fee item + fee_sum \<le> MAX_COIN_AMOUNT (mm_constants self)"

text \<open>The nested loops stop at the first item that does not fit.\<close>

fun choose_items :: "MempoolManager \<Rightarrow> MempoolItem list \<Rightarrow> int \<Rightarrow> int \<Rightarrow> MempoolItem list" where
  "choose_items self [] cost_sum fee_sum = []"
| "choose_items self (item # items) cost_sum fee_sum =
     (if fits_block self cost_sum fee_sum item
      then item # choose_items self items (cost_sum + mi_cost item) (fee_sum + mi_fee item) else [])"

definition reversed_items :: "(sorted_dict \<Rightarrow> (rat \<times> item_dict) list) \<Rightarrow> Mempool \<Rightarrow> MempoolItem list" where
  "reversed_items SD pool = concat (map (\<lambda>(fpc, dic). dvalues dic) (rev (SD (sorted_spends pool))))"

definition create_bundle_from_mempool ::
  "(sorted_dict \<Rightarrow> (rat \<times> item_dict) list) \<Rightarrow> (bytes list \<Rightarrow> bytes) \<Rightarrow> bytes \<Rightarrow> MempoolManager \<Rightarrow> (SpendBundle \<times> Coin list \<times> Coin list) option" where
  "create_bundle_from_mempool SD agg last_tb_header_hash self =
     (case mm_peak self of
        None \<Rightarrow> None
      | Some p \<Rightarrow>
          (if header_hash p \<noteq> last_tb_header_hash then None
           else let items = choose_items self (reversed_items SD (mempool self)) 0 0
                in if length items > 0
                   then Some (SpendBundle_aggregate agg (map mi_spend_bundle items), concat (map mi_additions items), concat (map mi_removals items))
                   else None))"

text \<open>\<open>bip158\<close> is the encoding of a \<^verbatim>\<open>PyBIP158\<close> filter.\<close>

definition get_filter :: "(bytes list \<Rightarrow> bytes) \<Rightarrow> MempoolManager \<Rightarrow> bytes" where
  "get_filter bip158 self =
     bip158 (snd (fold (\<lambda>key (all, l). if key \<notin> set all then (all @ [key], l @ [key]) else (all, l)) (dkeys (spends (mempool self))) ([], [])))"

definition is_fee_enough :: "(sorted_dict \<Rightarrow> (rat \<times> item_dict) list) \<Rightarrow> int \<Rightarrow> int \<Rightarrow> MempoolManager \<Rightarrow> bool res" where
  "is_fee_enough SD fee c self =
     (if c = 0 then Inr False
      else rbind (py_true_div fee c) (\<lambda>fees_per_cost.
        if \<not> at_full_capacity c (mempool self) then Inr True
        else if fees_per_cost \<ge> of_int (nonzero_fee_minimum_fpc self)
             then rbind (get_min_fee_rate SD c (mempool self)) (\<lambda>r. Inr (fees_per_cost > r))
             else Inr False))"

section \<open>Bundles that were seen\<close>

definition pop_seen :: "MempoolManager \<Rightarrow> MempoolManager res" where
  "pop_seen self =
     rbind (py_index (dkeys (seen_bundle_hashes self)) 0) (\<lambda>first_in.
     rbind (ddel first_in (seen_bundle_hashes self)) (\<lambda>d. Inr (self\<lparr>seen_bundle_hashes := d\<rparr>)))"

definition add_and_maybe_pop_seen :: "bytes \<Rightarrow> MempoolManager \<Rightarrow> MempoolManager res" where
  "add_and_maybe_pop_seen spend_name self =
     py_while (\<lambda>s. int (length (seen_bundle_hashes s)) > seen_cache_size s) pop_seen
       (self\<lparr>seen_bundle_hashes := dput spend_name spend_name (seen_bundle_hashes self)\<rparr>)"

definition seen :: "bytes \<Rightarrow> MempoolManager \<Rightarrow> bool" where
  "seen bundle_hash self = din bundle_hash (seen_bundle_hashes self)"

definition remove_seen :: "bytes \<Rightarrow> MempoolManager \<Rightarrow> MempoolManager" where
  "remove_seen bundle_hash self =
     (if din bundle_hash (seen_bundle_hashes self) then self\<lparr>seen_bundle_hashes := AList.delete bundle_hash (seen_bundle_hashes self)\<rparr> else self)"

section \<open>Admission\<close>

definition get_min_fee_increase :: int where
  "get_min_fee_increase = 10000000"

fun spends_all :: "crypto \<Rightarrow> (bytes, CoinRecord) dict \<Rightarrow> MempoolItem list \<Rightarrow> int \<Rightarrow> int \<Rightarrow> (int \<times> int) option" where
  "spends_all E removals [] conflicting_fees conflicting_cost = Some (conflicting_fees, conflicting_cost)"
| "spends_all E removals (item # items) conflicting_fees conflicting_cost =
     (if \<exists>c \<in> set (mi_removals item). \<not> din (Coin_name E c) removals then None
      else spends_all E removals items (conflicting_fees + mi_fee item) (conflicting_cost + mi_cost item))"

definition can_replace :: "crypto \<Rightarrow> item_dict \<Rightarrow> (bytes, CoinRecord) dict \<Rightarrow> int \<Rightarrow> rat \<Rightarrow> bool res" where
  "can_replace E conflicting_items removals fee fees_per_cost =
     (case spends_all E removals (dvalues conflicting_items) 0 0 of
        None \<Rightarrow> Inr False
      | Some (conflicting_fees, conflicting_cost) \<Rightarrow>
          rbind (py_true_div conflicting_fees conflicting_cost) (\<lambda>conflicting_fees_per_cost.
            if fees_per_cost \<le> conflicting_fees_per_cost then Inr False
            else Inr (\<not> fee - conflicting_fees < get_min_fee_increase)))"

text \<open>The amounts of the additions: an early return is \<open>Inl\<close> of the error it reports.\<close>

fun check_addition_amounts :: "int \<Rightarrow> Coin list \<Rightarrow> int \<Rightarrow> (Err + int) res" where
  "check_addition_amounts max_coin_amount [] addition_amount = Inr (Inr addition_amount)"
| "check_addition_amounts max_coin_amount (c # cs) addition_amount =
     (if amount c < 0 then Inr (Inl COIN_AMOUNT_NEGATIVE)
      else if amount c > max_coin_amount then Inr (Inl COIN_AMOUNT_EXCEEDS_MAXIMUM)
      else rbind (uint64 (addition_amount + amount c)) (check_addition_amounts max_coin_amount cs))"

text \<open>\<^verbatim>\<open>collections.Counter\<close> with a count above one.\<close>

definition has_duplicates :: "'a list \<Rightarrow> bool" where
  "has_duplicates xs \<longleftrightarrow> \<not> distinct xs"

text \<open>The record of a coin that the bundle itself creates.\<close>

definition ephemeral_record :: "BlockRecord \<Rightarrow> Coin \<Rightarrow> CoinRecord res" where
  "ephemeral_record peak c =
     (case BlockRecord.timestamp peak of
        None \<Rightarrow> Inl AssertionError
      | Some ts \<Rightarrow>
          rbind (uint32 (height peak + 1)) (\<lambda>h. rbind (uint64 (ts + 1)) (\<lambda>t. Inr (new_coin_record h t False c))))"

fun collect_removals ::
  "crypto \<Rightarrow> BlockRecord \<Rightarrow> (bytes, Coin) dict \<Rightarrow> bytes list \<Rightarrow> CoinStore \<Rightarrow> (bytes, CoinRecord) dict \<Rightarrow> int \<Rightarrow>
   (CoinStore \<times> (Err + (bytes, CoinRecord) dict \<times> int)) res" where
  "collect_removals E peak additions_dict [] store records removal_amount = Inr (store, Inr (records, removal_amount))"
| "collect_removals E peak additions_dict (name # names) store records removal_amount =
     rbind (get_coin_record E name store) (\<lambda>(removal_record, store).
       if removal_record = None \<and> \<not> din name additions_dict then Inr (store, Inl UNKNOWN_UNSPENT)
       else rbind (if din name additions_dict then rbind (dget additions_dict name) (ephemeral_record peak)
                   else case removal_record of None \<Rightarrow> Inl AssertionError | Some r \<Rightarrow> Inr r) (\<lambda>r.
            rbind (uint64 (removal_amount + amount (coin r)))
              (collect_removals E peak additions_dict names store (dput name r records))))"

fun reserve_fee_loop :: "crypto \<Rightarrow> ConditionWithArgs list \<Rightarrow> int \<Rightarrow> (Err + int) res" where
  "reserve_fee_loop E [] assert_fee_sum = Inr (Inr assert_fee_sum)"
| "reserve_fee_loop E (cvp # cvps) assert_fee_sum =
     rbind (py_index (vars cvp) 0) (\<lambda>b.
       let fee = int_from_bytes E b
       in if fee < 0 then Inr (Inl RESERVE_FEE_CONDITION_FAILED) else reserve_fee_loop E cvps (assert_fee_sum + fee))"

fun reserved_fees :: "crypto \<Rightarrow> NPC list \<Rightarrow> int \<Rightarrow> (Err + int) res" where
  "reserved_fees E [] assert_fee_sum = Inr (Inr assert_fee_sum)"
| "reserved_fees E (npc # npcs) assert_fee_sum =
     rbind (condition_dict npc) (\<lambda>d.
     rbind (reserve_fee_loop E (dget_list d RESERVE_FEE) assert_fee_sum) (\<lambda>r.
       case r of Inl e \<Rightarrow> Inr (Inl e) | Inr s \<Rightarrow> reserved_fees E npcs s))"

fun removal_conflicts :: "crypto \<Rightarrow> Mempool \<Rightarrow> CoinRecord list \<Rightarrow> Coin list \<Rightarrow> Err option \<times> Coin list" where
  "removal_conflicts E pool [] conflicts = (if length conflicts > 0 then (Some MEMPOOL_CONFLICT, conflicts) else (None, []))"
| "removal_conflicts E pool (r # rs) conflicts =
     (if spent r then (Some DOUBLE_SPEND, [])
      else removal_conflicts E pool rs (if din (Coin_name E (coin r)) (mp_removals pool) then conflicts @ [coin r] else conflicts))"

definition check_removals :: "crypto \<Rightarrow> (bytes, CoinRecord) dict \<Rightarrow> MempoolManager \<Rightarrow> (Err option \<times> Coin list) res" where
  "check_removals E removals self =
     rassert (mm_peak self \<noteq> None) (Inr (removal_conflicts E (mempool self) (dvalues removals) []))"

text \<open>The loop over the conditions: \<open>Some (status, error)\<close> is a verdict, \<open>None\<close> means that all conditions hold.\<close>

fun verify_conditions ::
  "crypto \<Rightarrow> int \<Rightarrow> BlockRecord \<Rightarrow> (bytes, CoinRecord) dict \<Rightarrow> NPC list \<Rightarrow> (MempoolInclusionStatus \<times> Err) option res" where
  "verify_conditions E now peak records [] = Inr None"
| "verify_conditions E now peak records (npc # npcs) =
     rbind (dget records (coin_name npc)) (\<lambda>coin_record.
       if npc_puzzle_hash npc \<noteq> puzzle_hash (coin coin_record) then Inr (Some (FAILED, WRONG_PUZZLE_HASH))
       else
         let chialisp_height = (if \<not> is_transaction_block peak then prev_transaction_block_height peak else height peak)
         in case BlockRecord.timestamp peak of
              None \<Rightarrow> Inl AssertionError
            | Some ts \<Rightarrow>
                rbind (condition_dict npc) (\<lambda>d. rbind (uint32 chialisp_height) (\<lambda>h.
                rbind (mempool_check_conditions_dict E now coin_record d h (Some ts)) (\<lambda>error.
                  case error of
                    None \<Rightarrow> verify_conditions E now peak records npcs
                  | Some e \<Rightarrow>
                      Inr (Some (if e = ASSERT_HEIGHT_ABSOLUTE_FAILED \<or> e = ASSERT_HEIGHT_RELATIVE_FAILED then PENDING else FAILED, e))))))"

text \<open>What \<^verbatim>\<open>add_spendbundle\<close> returns: the cost, the status and the error.\<close>

type_synonym add_result = "int option \<times> MempoolInclusionStatus \<times> Err option"

definition failed :: "Err \<Rightarrow> MempoolManager \<Rightarrow> (add_result \<times> MempoolManager) res" where
  "failed e self = Inr ((None, FAILED, Some e), self)"

definition pend :: "MempoolItem \<Rightarrow> Err \<Rightarrow> MempoolManager \<Rightarrow> (add_result \<times> MempoolManager) res" where
  "pend item e self =
     rbind (pending_add item (potential_cache self)) (\<lambda>p.
     rbind (uint64 (mi_cost item)) (\<lambda>c. Inr ((Some c, PENDING, Some e), self\<lparr>potential_cache := p\<rparr>)))"

definition conflicting_pool_items :: "crypto \<Rightarrow> Coin list \<Rightarrow> Mempool \<Rightarrow> item_dict res" where
  "conflicting_pool_items E conflicts pool =
     rfold (\<lambda>c d. rbind (dget (mp_removals pool) (Coin_name E c)) (\<lambda>sb. Inr (dput (spend_bundle_name sb) sb d))) conflicts []"

text \<open>The end of \<^verbatim>\<open>add_spendbundle\<close>: conditions, removal of the conflicting items, insertion.\<close>

definition admit_item ::
  "crypto \<Rightarrow> (sorted_dict \<Rightarrow> (rat \<times> item_dict) list) \<Rightarrow> int \<Rightarrow> BlockRecord \<Rightarrow> (bytes, CoinRecord) dict \<Rightarrow> item_dict \<Rightarrow> MempoolItem \<Rightarrow>
   MempoolManager \<Rightarrow> (add_result \<times> MempoolManager) res" where
  "admit_item E SD now peak records conflicting item self =
     rbind (verify_conditions E now peak records (npc_list (mi_npc_result item))) (\<lambda>verdict.
       case verdict of
         Some (status, e) \<Rightarrow> (if status = PENDING then pend item e self else failed e self)
       | None \<Rightarrow>
           rbind (rfold (remove_from_pool E) (dvalues conflicting) (mempool self)) (\<lambda>pool.
           rbind (add_to_pool E SD item pool) (\<lambda>pool.
           rbind (uint64 (mi_cost item)) (\<lambda>c. Inr ((Some c, SUCCESS, None), self\<lparr>mempool := pool\<rparr>)))))"

definition resolve_conflicts ::
  "crypto \<Rightarrow> (sorted_dict \<Rightarrow> (rat \<times> item_dict) list) \<Rightarrow> int \<Rightarrow> BlockRecord \<Rightarrow> (bytes, CoinRecord) dict \<Rightarrow> rat \<Rightarrow> MempoolItem \<Rightarrow>
   MempoolManager \<Rightarrow> (add_result \<times> MempoolManager) res" where
  "resolve_conflicts E SD now peak records fees_per_cost item self =
     rbind (check_removals E records self) (\<lambda>(fail_reason, conflicts).
       case fail_reason of
         None \<Rightarrow> admit_item E SD now peak records [] item self
       | Some e \<Rightarrow>
           if e = MEMPOOL_CONFLICT then
             rbind (conflicting_pool_items E conflicts (mempool self)) (\<lambda>conflicting.
             rbind (can_replace E conflicting records (mi_fee item) fees_per_cost) (\<lambda>ok.
               if \<not> ok then pend item MEMPOOL_CONFLICT self else admit_item E SD now peak records conflicting item self))
           else failed e self)"

definition fee_refused :: "(sorted_dict \<Rightarrow> (rat \<times> item_dict) list) \<Rightarrow> int \<Rightarrow> rat \<Rightarrow> MempoolManager \<Rightarrow> Err option res" where
  "fee_refused SD c fees_per_cost self =
     (if at_full_capacity c (mempool self) then
        (if fees_per_cost < of_int (nonzero_fee_minimum_fpc self) then Inr (Some INVALID_FEE_TOO_CLOSE_TO_ZERO)
         else rbind (get_min_fee_rate SD c (mempool self)) (\<lambda>r. Inr (if fees_per_cost \<le> r then Some INVALID_FEE_LOW_FEE else None)))
      else Inr None)"

definition add_with_fees ::
  "crypto \<Rightarrow> (sorted_dict \<Rightarrow> (rat \<times> item_dict) list) \<Rightarrow> int \<Rightarrow> BlockRecord \<Rightarrow> SpendBundle \<Rightarrow> NPCResult \<Rightarrow> int \<Rightarrow> bytes \<Rightarrow> bytes \<Rightarrow>
   Coin list \<Rightarrow> (bytes, CoinRecord) dict \<Rightarrow> int \<Rightarrow> int \<Rightarrow> MempoolManager \<Rightarrow> (add_result \<times> MempoolManager) res" where
  "add_with_fees E SD now peak new_spend res c spend_name prog adds records addition_amount removal_amount self =
     (if addition_amount > removal_amount then failed MINTING_COIN self
      else rbind (uint64 (removal_amount - addition_amount)) (\<lambda>fee.
           rbind (reserved_fees E (npc_list res) 0) (\<lambda>r. case r of Inl e \<Rightarrow> failed e self | Inr assert_fee_sum \<Rightarrow>
             if fee < assert_fee_sum then failed RESERVE_FEE_CONDITION_FAILED self
             else if c = 0 then failed UNKNOWN self
             else rbind (py_true_div fee c) (\<lambda>fees_per_cost.
                  rbind (fee_refused SD c fees_per_cost self) (\<lambda>refused. case refused of Some e \<Rightarrow> failed e self | None \<Rightarrow>
                    resolve_conflicts E SD now peak records fees_per_cost
                      \<lparr> mi_spend_bundle = new_spend, mi_fee = fee, mi_npc_result = res, mi_cost = c, spend_bundle_name = spend_name,
                        mi_additions = adds, mi_removals = map coin (dvalues records), mi_program = prog \<rparr> self)))))"

definition add_with_cost ::
  "crypto \<Rightarrow> (sorted_dict \<Rightarrow> (rat \<times> item_dict) list) \<Rightarrow> int \<Rightarrow> BlockRecord \<Rightarrow> SpendBundle \<Rightarrow> NPCResult \<Rightarrow> int \<Rightarrow> bytes \<Rightarrow> bytes \<Rightarrow>
   MempoolManager \<Rightarrow> (add_result \<times> MempoolManager) res" where
  "add_with_cost E SD now peak new_spend res c spend_name prog self =
     (let removal_names = map coin_name (npc_list res) in
      if set removal_names \<noteq> set (map (Coin_name E) (SpendBundle_removals new_spend)) then failed INVALID_SPEND_BUNDLE self
      else rbind (additions_for_npc E (npc_list res)) (\<lambda>adds.
           rbind (check_addition_amounts (MAX_COIN_AMOUNT (mm_constants self)) adds 0) (\<lambda>r. case r of Inl e \<Rightarrow> failed e self | Inr addition_amount \<Rightarrow>
             if has_duplicates (map (Coin_name E) adds) then failed DUPLICATE_OUTPUT self
             else if has_duplicates removal_names then failed DOUBLE_SPEND self
             else if din spend_name (spends (mempool self)) then rbind (uint64 c) (\<lambda>c. Inr ((Some c, SUCCESS, None), self))
             else rbind (collect_removals E peak (fold (\<lambda>a. dput (Coin_name E a) a) adds []) removal_names (mm_coin_store self) [] 0) (\<lambda>(store, r).
                  let self = self\<lparr>mm_coin_store := store\<rparr> in
                  case r of
                    Inl e \<Rightarrow> failed e self
                  | Inr (records, removal_amount) \<Rightarrow>
                      add_with_fees E SD now peak new_spend res c spend_name prog adds records addition_amount removal_amount self))))"

definition add_spendbundle ::
  "crypto \<Rightarrow> 'a generator_vm \<Rightarrow> (sorted_dict \<Rightarrow> (rat \<times> item_dict) list) \<Rightarrow> int \<Rightarrow> SpendBundle \<Rightarrow> NPCResult \<Rightarrow> bytes \<Rightarrow> bytes option \<Rightarrow>
   MempoolManager \<Rightarrow> (add_result \<times> MempoolManager) res" where
  "add_spendbundle E V SD now new_spend res spend_name prog self =
     (case mm_peak self of
        None \<Rightarrow> failed MEMPOOL_NOT_INITIALIZED self
      | Some peak \<Rightarrow>
          rassert (npc_error res = None)
            (let prog = (case prog of None \<Rightarrow> bg_program (simple_solution_generator V new_spend) | Some p \<Rightarrow> p)
             in rbind (calculate_cost_of_program prog res (COST_PER_BYTE (mm_constants self))) (\<lambda>c.
                  if c > py_int (cost_limit self) then failed BLOCK_COST_EXCEEDS_MAX self
                  else add_with_cost E SD now peak new_spend res c spend_name prog self)))"

section \<open>Queries and a new peak\<close>

definition get_spendbundle :: "bytes \<Rightarrow> MempoolManager \<Rightarrow> SpendBundle option" where
  "get_spendbundle bundle_hash self = map_option mi_spend_bundle (map_of (spends (mempool self)) bundle_hash)"

definition get_mempool_item :: "bytes \<Rightarrow> bool \<Rightarrow> MempoolManager \<Rightarrow> MempoolItem option" where
  "get_mempool_item bundle_hash include_pending self =
     (case map_of (spends (mempool self)) bundle_hash of
        Some i \<Rightarrow> Some i
      | None \<Rightarrow> if include_pending then map_of (txs (potential_cache self)) bundle_hash else None)"

definition readd_item ::
  "crypto \<Rightarrow> 'a generator_vm \<Rightarrow> (sorted_dict \<Rightarrow> (rat \<times> item_dict) list) \<Rightarrow> int \<Rightarrow> bytes set option \<Rightarrow> MempoolItem \<Rightarrow> MempoolManager \<Rightarrow> MempoolManager res" where
  "readd_item E V SD now changed_coins item self =
     (case changed_coins of
        Some changed \<Rightarrow>
          (if \<exists>c \<in> set (mi_removals item). Coin_name E c \<in> changed then Inr (remove_seen (spend_bundle_name item) self)
           else rbind (add_to_pool E SD item (mempool self)) (\<lambda>pool. Inr (self\<lparr>mempool := pool\<rparr>)))
      | None \<Rightarrow>
          rbind (add_spendbundle E V SD now (mi_spend_bundle item) (mi_npc_result item) (spend_bundle_name item) (Some (mi_program item)) self)
            (\<lambda>((c, status, err), self). Inr (if status \<noteq> SUCCESS then remove_seen (spend_bundle_name item) self else self)))"

definition retry_pending ::
  "crypto \<Rightarrow> 'a generator_vm \<Rightarrow> (sorted_dict \<Rightarrow> (rat \<times> item_dict) list) \<Rightarrow> int \<Rightarrow> MempoolItem \<Rightarrow>
   (SpendBundle \<times> NPCResult \<times> bytes) list \<times> MempoolManager \<Rightarrow> ((SpendBundle \<times> NPCResult \<times> bytes) list \<times> MempoolManager) res" where
  "retry_pending E V SD now item s =
     rbind (add_spendbundle E V SD now (mi_spend_bundle item) (mi_npc_result item) (spend_bundle_name item) (Some (mi_program item)) (snd s))
       (\<lambda>((c, status, err), self).
         Inr (if status = SUCCESS then fst s @ [(mi_spend_bundle item, mi_npc_result item, spend_bundle_name item)] else fst s, self))"

text \<open>The last line logs the minimum fee for a cost of 100000 and raises when the pool cannot hold it.\<close>

definition new_peak ::
  "crypto \<Rightarrow> 'a generator_vm \<Rightarrow> (sorted_dict \<Rightarrow> (rat \<times> item_dict) list) \<Rightarrow> int \<Rightarrow> BlockRecord option \<Rightarrow> CoinRecord list \<Rightarrow> MempoolManager \<Rightarrow>
   ((SpendBundle \<times> NPCResult \<times> bytes) list \<times> MempoolManager) res" where
  "new_peak E V SD now np coin_changes self =
     (case np of
        None \<Rightarrow> Inr ([], self)
      | Some p \<Rightarrow>
          if \<not> is_transaction_block p then Inr ([], self)
          else if mm_peak self = Some p then Inr ([], self)
          else
            let use_optimization = (case mm_peak self of None \<Rightarrow> False | Some q \<Rightarrow> prev_transaction_block_hash p = Some (header_hash q));
                changed = (if use_optimization then Some (set (map (\<lambda>r. Coin_name E (coin r)) coin_changes)) else None);
                old_pool = mempool self
            in rbind (rfold (readd_item E V SD now changed) (dvalues (spends old_pool))
                        (self\<lparr>mm_peak := Some p, mempool := Mempool_init (mempool_max_total_cost self)\<rparr>)) (\<lambda>self.
               case drain (potential_cache self) of (potential_txs, pc) \<Rightarrow>
               rbind (rfold (retry_pending E V SD now) (dvalues potential_txs) ([], self\<lparr>potential_cache := pc\<rparr>)) (\<lambda>(txs_added, self).
               rbind (get_min_fee_rate SD 100000 (mempool self)) (\<lambda>_. Inr (txs_added, self)))))"

text \<open>\<open>matches\<close> is \<^verbatim>\<open>mempool_filter.Match\<close>; the loops run in increasing order of the fee per cost.\<close>

fun items_not_matched :: "(bytes \<Rightarrow> bool) \<Rightarrow> int \<Rightarrow> MempoolItem list \<Rightarrow> MempoolItem list" where
  "items_not_matched matches room [] = []"
| "items_not_matched matches room (item # items) =
     (if room = 0 then []
      else if matches (spend_bundle_name item) then items_not_matched matches room items
      else item # items_not_matched matches (room - 1) items)"

definition get_items_not_in_filter :: "(sorted_dict \<Rightarrow> (rat \<times> item_dict) list) \<Rightarrow> (bytes \<Rightarrow> bool) \<Rightarrow> int \<Rightarrow> MempoolManager \<Rightarrow> MempoolItem list" where
  "get_items_not_in_filter SD matches max_items self = items_not_matched matches max_items (map snd (rated_items SD (mempool self)))"

section \<open>Facts about the phases\<close>

lemma Coin_new_Inr:
  "Coin_new p q a = Inr c \<longleftrightarrow> length p = 32 \<and> length q = 32 \<and> 0 \<le> a \<and> a < 2 ^ 64 \<and> c = \<lparr> parent_coin_info = p, puzzle_hash = q, amount = a \<rparr>"
  by (auto simp: Coin_new_def strict_bytes32_def bytes32_def sized_bytes_new_def sized_bytes_from_bytes_eq uint64_eq)

lemma created_outputs_wf:
  assumes "created_outputs_for_conditions_dict E d n = Inr cs" "c \<in> set cs"
  shows "Coin_wf c \<and> parent_coin_info c = n"
proof -
  obtain cvp :: ConditionWithArgs where "rbind (py_index (vars cvp) 0) (\<lambda>ph. rbind (py_index (vars cvp) 1) (\<lambda>amount_bin.
      rbind (uint64 (int_from_bytes E amount_bin)) (\<lambda>a. Coin_new n ph a))) = Inr c"
    using rmap_Inr_set [OF assms(1) [unfolded created_outputs_for_conditions_dict_def] assms(2)] by blast
  then show ?thesis by (auto elim!: rbind_InrE simp: Coin_new_Inr Coin_wf_def)
qed

lemma additions_for_npc_wf:
  assumes "additions_for_npc E npcs = Inr adds" "a \<in> set adds"
  shows "Coin_wf a \<and> parent_coin_info a \<in> coin_name ` set npcs"
proof -
  obtain ls where ls: "rmap (\<lambda>npc. rbind (condition_dict npc) (\<lambda>d. created_outputs_for_conditions_dict E d (coin_name npc))) npcs = Inr ls" "adds = concat ls"
    using assms(1) unfolding additions_for_npc_def by (auto elim: rbind_InrE)
  then obtain l where l: "l \<in> set ls" "a \<in> set l" using assms(2) by auto
  then obtain npc where "npc \<in> set npcs" "rbind (condition_dict npc) (\<lambda>d. created_outputs_for_conditions_dict E d (coin_name npc)) = Inr l"
    using rmap_Inr_set [OF ls(1)] by blast
  then show ?thesis using created_outputs_wf l(2) by (auto elim!: rbind_InrE)
qed

lemma additions_dict:
  "map_of (fold (\<lambda>a. dput (Coin_name E a) a) adds d0) n = Some a \<Longrightarrow> (map_of d0 n = Some a \<or> a \<in> set adds \<and> Coin_name E a = n)"
  by (induction adds arbitrary: d0) (fastforce split: if_splits)+

definition total_amount :: "Coin list \<Rightarrow> int" where
  "total_amount cs = sum_list (map amount cs)"

lemma check_addition_amounts_sum:
  "check_addition_amounts mx cs acc = Inr (Inr t) \<Longrightarrow> t = acc + total_amount cs \<and> (\<forall>c \<in> set cs. 0 \<le> amount c \<and> amount c \<le> mx)"
proof (induction cs arbitrary: acc)
  case (Cons c cs)
  then have c: "0 \<le> amount c" "amount c \<le> mx" "check_addition_amounts mx cs (acc + amount c) = Inr (Inr t)"
    by (auto simp: uint64_eq split: if_splits)
  from Cons.IH [OF c(3)] c(1,2) show ?case by (simp add: total_amount_def)
qed (simp add: total_amount_def)

lemma coin_view_name: "store_ok E s \<Longrightarrow> coin_view s n = Some r \<Longrightarrow> Coin_name E (coin r) = n"
  by (auto elim!: store_okE simp: coin_view_rel CoinRecord_name_def dest!: record_view_in)

text \<open>The record of a spent coin: created by the bundle itself or found in the store.\<close>

definition record_ok :: "crypto \<Rightarrow> (bytes \<Rightarrow> CoinRecord option) \<Rightarrow> (bytes, Coin) dict \<Rightarrow> bytes \<times> CoinRecord \<Rightarrow> bool" where
  "record_ok E view adict nr \<longleftrightarrow>
     Coin_name E (coin (snd nr)) = fst nr \<and>
     (case map_of adict (fst nr) of Some a \<Rightarrow> coin (snd nr) = a \<and> \<not> spent (snd nr) | None \<Rightarrow> view (fst nr) = Some (snd nr))"

lemma collect_removals_ok:
  assumes "collect_removals E peak adict names store recs amt = Inr (store', res)" "store_ok E store"
    and "\<And>n a. map_of adict n = Some a \<Longrightarrow> Coin_name E a = n"
  shows "store_ok E store' \<and> coin_view store' = coin_view store \<and>
    (\<forall>recs' amt'. res = Inr (recs', amt') \<and> distinct (dkeys recs @ names) \<and> (\<forall>x \<in> set recs. record_ok E (coin_view store) adict x) \<and>
       amt = total_amount (map coin (dvalues recs)) \<longrightarrow>
       dkeys recs' = dkeys recs @ names \<and> (\<forall>x \<in> set recs'. record_ok E (coin_view store) adict x) \<and> amt' = total_amount (map coin (dvalues recs')))"
  using assms(1,2)
proof (induction names arbitrary: store recs amt)
  case Nil
  then show ?case by auto
next
  case (Cons n names)
  obtain s1 where s1: "get_coin_record E n store = Inr (coin_view store n, s1)" "store_ok E s1" "coin_view s1 = coin_view store"
    using get_coin_record_rel [of E _ store n] Cons.prems(2) by (metis coin_view_rel store_okE store_ok_def)
  show ?case
  proof (cases "coin_view store n = None \<and> \<not> din n adict")
    case True
    then show ?thesis using Cons.prems(1) s1 by auto
  next
    case False
    then obtain r amt1 where r: "(if din n adict then rbind (dget adict n) (ephemeral_record peak)
        else case coin_view store n of None \<Rightarrow> Inl AssertionError | Some r \<Rightarrow> Inr r) = Inr r"
      "uint64 (amt + amount (coin r)) = Inr amt1" "collect_removals E peak adict names s1 (dput n r recs) amt1 = Inr (store', res)"
      using Cons.prems(1) s1(1) by (auto elim!: rbind_InrE)
    have amt1: "amt1 = amt + amount (coin r)" using r(2) by (simp add: uint64_eq split: if_splits)
    have rok: "record_ok E (coin_view store) adict (n, r)"
    proof (cases "map_of adict n")
      case None
      then have "coin_view store n = Some r" using r(1) by (auto simp: din_map_of split: option.splits)
      then show ?thesis using None coin_view_name [OF Cons.prems(2)] by (simp add: record_ok_def)
    next
      case (Some a)
      then have "ephemeral_record peak a = Inr r" using r(1) map_of_Some_din [OF Some] by (simp add: dget_def)
      then have "coin r = a" "\<not> spent r" by (auto simp: ephemeral_record_def new_coin_record_def elim!: rbind_InrE split: option.splits)
      then show ?thesis using Some assms(3) [OF Some] by (simp add: record_ok_def)
    qed
    note IH = Cons.IH [OF r(3) s1(2)]
    have "dkeys recs' = dkeys recs @ n # names \<and> (\<forall>x \<in> set recs'. record_ok E (coin_view store) adict x) \<and> amt' = total_amount (map coin (dvalues recs'))"
      if p: "res = Inr (recs', amt')" "distinct (dkeys recs @ n # names)" "\<forall>x \<in> set recs. record_ok E (coin_view store) adict x"
        "amt = total_amount (map coin (dvalues recs))" for recs' amt'
    proof -
      have "\<not> din n recs" using p(2) by (simp add: din_def)
      then have put: "dput n r recs = recs @ [(n, r)]" by (rule dput_fresh)
      show ?thesis using IH p rok by (simp add: put s1(3) amt1 total_amount_def)
    qed
    moreover have "store_ok E store'" "coin_view store' = coin_view store" using IH s1(3) by simp_all
    ultimately show ?thesis by auto
  qed
qed

lemma removal_conflicts_ok:
  "removal_conflicts E pool rs cs = (e, cs') \<Longrightarrow>
     (e = None \<longrightarrow> cs = [] \<and> (\<forall>r \<in> set rs. \<not> spent r \<and> \<not> din (Coin_name E (coin r)) (mp_removals pool))) \<and>
     (e = Some MEMPOOL_CONFLICT \<longrightarrow> (\<forall>r \<in> set rs. \<not> spent r) \<and>
        set cs' = set cs \<union> {c \<in> coin ` set rs. din (Coin_name E c) (mp_removals pool)})"
proof (induction rs arbitrary: cs)
  case (Cons r rs)
  then show ?case by (cases "spent r"; cases "din (Coin_name E (coin r)) (mp_removals pool)") force+
qed (auto split: if_splits)

lemma conflicting_items_ok:
  assumes "conflicting_pool_items E conflicts pool = Inr d" "mempool_ok E pool"
  shows "distinct (dkeys d) \<and> (\<forall>(n, i) \<in> set d. spend_bundle_name i = n \<and> map_of (spends pool) n = Some i) \<and>
    (\<forall>c \<in> set conflicts. \<forall>i. map_of (mp_removals pool) (Coin_name E c) = Some i \<longrightarrow> map_of d (spend_bundle_name i) = Some i)"
proof -
  have ix: "index_ok E mi_removals (mp_removals pool) (spends pool)" using assms(2) by (simp add: mempool_ok_def)
  have pool: "map_of (spends pool) (spend_bundle_name i) = Some i" if "map_of (mp_removals pool) n = Some i" for n i
    using ix that unfolding index_ok_def by blast
  have "distinct (dkeys d) \<and> (\<forall>n i. map_of d n = Some i \<longrightarrow> spend_bundle_name i = n \<and> map_of (spends pool) n = Some i) \<and>
      (\<forall>n i. map_of d0 n = Some i \<longrightarrow> map_of d n = Some i) \<and>
      (\<forall>c \<in> set conflicts. \<forall>i. map_of (mp_removals pool) (Coin_name E c) = Some i \<longrightarrow> map_of d (spend_bundle_name i) = Some i)"
    if "rfold (\<lambda>c d. rbind (dget (mp_removals pool) (Coin_name E c)) (\<lambda>sb. Inr (dput (spend_bundle_name sb) sb d))) conflicts d0 = Inr d"
      "distinct (dkeys d0)" "\<forall>n i. map_of d0 n = Some i \<longrightarrow> spend_bundle_name i = n \<and> map_of (spends pool) n = Some i" for d0
    using that
  proof (induction conflicts arbitrary: d0)
    case (Cons c cs)
    obtain sb where sb: "map_of (mp_removals pool) (Coin_name E c) = Some sb"
      "rfold (\<lambda>c d. rbind (dget (mp_removals pool) (Coin_name E c)) (\<lambda>sb. Inr (dput (spend_bundle_name sb) sb d))) cs (dput (spend_bundle_name sb) sb d0) = Inr d"
      using Cons.prems(1) by (auto simp: dget_def elim!: rbind_InrE split: option.splits)
    have p: "\<forall>n i. map_of (dput (spend_bundle_name sb) sb d0) n = Some i \<longrightarrow> spend_bundle_name i = n \<and> map_of (spends pool) n = Some i"
      using Cons.prems(3) pool [OF sb(1)] by simp
    have same: "map_of (dput (spend_bundle_name sb) sb d0) n = Some i" if n: "map_of d0 n = Some i" for n i
    proof (cases "n = spend_bundle_name sb")
      case True
      have "map_of (spends pool) n = Some i" using Cons.prems(3) n by blast
      then show ?thesis using True pool [OF sb(1)] by simp
    qed (simp add: n)
    have "distinct (dkeys (dput (spend_bundle_name sb) sb d0))" using Cons.prems(2) by simp
    note IH = Cons.IH [OF sb(2) this p]
    have keep: "\<forall>n i. map_of (dput (spend_bundle_name sb) sb d0) n = Some i \<longrightarrow> map_of d n = Some i" using IH by blast
    then have in_d: "map_of d (spend_bundle_name sb) = Some sb" by (metis fun_upd_same map_of_dput)
    have "map_of d (spend_bundle_name i) = Some i" if x: "x \<in> set (c # cs)" "map_of (mp_removals pool) (Coin_name E x) = Some i" for x i
    proof (cases "x = c")
      case True
      then have "i = sb" using x(2) sb(1) by (metis option.inject)
      then show ?thesis using in_d by metis
    next
      case False
      then have "x \<in> set cs" using x(1) by simp
      then show ?thesis using IH x(2) by blast
    qed
    then have "\<forall>c \<in> set (c # cs). \<forall>i. map_of (mp_removals pool) (Coin_name E c) = Some i \<longrightarrow> map_of d (spend_bundle_name i) = Some i"
      by blast
    then show ?case using IH keep same by blast
  qed simp
  from this [OF assms(1) [unfolded conflicting_pool_items_def]]
  have "distinct (dkeys d)" "\<forall>n i. map_of d n = Some i \<longrightarrow> spend_bundle_name i = n \<and> map_of (spends pool) n = Some i"
    "\<forall>c \<in> set conflicts. \<forall>i. map_of (mp_removals pool) (Coin_name E c) = Some i \<longrightarrow> map_of d (spend_bundle_name i) = Some i"
    by simp_all
  then show ?thesis by (auto simp: distinct_map_of_iff)
qed

lemma remove_items_ok:
  assumes "mempool_ok E pool" "distinct (dkeys d)" "\<forall>(n, i) \<in> set d. spend_bundle_name i = n \<and> map_of (spends pool) n = Some i"
  shows "\<exists>pool'. rfold (remove_from_pool E) (dvalues d) pool = Inr pool' \<and> mempool_ok E pool' \<and> max_size_in_cost pool' = max_size_in_cost pool \<and>
    map_of (spends pool') = map_of (spends pool) |` (- set (dkeys d))"
  using assms
proof (induction d arbitrary: pool)
  case (Cons x d)
  obtain n i where x: "x = (n, i)" by (cases x)
  have i: "spend_bundle_name i = n" "map_of (spends pool) n = Some i" using Cons.prems(3) by (auto simp: x)
  obtain p1 where p1: "remove_from_pool E i pool = Inr p1" "mempool_ok E p1" "spends p1 = AList.delete n (spends pool)" "max_size_in_cost p1 = max_size_in_cost pool"
    using remove_from_pool_ok [OF Cons.prems(1), of i] i by auto
  have "\<forall>(m, j) \<in> set d. spend_bundle_name j = m \<and> map_of (spends p1) m = Some j"
    using Cons.prems(2,3) by (force simp: x p1(3))
  then obtain pool' where p': "rfold (remove_from_pool E) (dvalues d) p1 = Inr pool'" "mempool_ok E pool'" "max_size_in_cost pool' = max_size_in_cost p1"
    "map_of (spends pool') = map_of (spends p1) |` (- set (dkeys d))"
    using Cons.IH [OF p1(2)] Cons.prems(2) by auto
  have "map_of (spends p1) |` (- set (dkeys d)) = map_of (spends pool) |` (- set (dkeys (x # d)))"
    by (auto simp: p1(3) x restrict_map_def)
  then show ?case using p' p1 by (simp add: x)
qed (simp add: restrict_map_def)

section \<open>Invariant of the manager\<close>

text \<open>
  The additions of an item are children of its removals. \<open>S\<close> is a set of preimages of coin names on which the hash function has
  no collision.
\<close>

definition item_born :: "crypto \<Rightarrow> bytes set \<Rightarrow> MempoolItem \<Rightarrow> bool" where
  "item_born E S i \<longleftrightarrow>
     (\<forall>a \<in> set (mi_additions i). Coin_wf a \<and> Coin_preimage E a \<in> S \<and> parent_coin_info a \<in> Coin_name E ` set (mi_removals i))"

definition pool_ok :: "crypto \<Rightarrow> bytes set \<Rightarrow> Mempool \<Rightarrow> bool" where
  "pool_ok E S m \<longleftrightarrow> mempool_ok E m \<and> (\<forall>n i. map_of (spends m) n = Some i \<longrightarrow> item_born E S i)"

text \<open>With distinct parents the additions of an item are new as soon as its removals are.\<close>

lemma additions_fresh:
  assumes "crypto_ok E" "inj_on (hash256 E) S" "pool_ok E S m" "item_born E S item" "a \<in> set (mi_additions item)"
    and "\<forall>c \<in> set (mi_removals item). map_of (mp_removals m) (Coin_name E c) = None"
  shows "map_of (mp_additions m) (Coin_name E a) = None"
proof (rule ccontr)
  assume "map_of (mp_additions m) (Coin_name E a) \<noteq> None"
  then obtain j where j: "map_of (mp_additions m) (Coin_name E a) = Some j" by blast
  have ia: "index_ok E mi_additions (mp_additions m) (spends m)" and ir: "index_ok E mi_removals (mp_removals m) (spends m)"
    using assms(3) by (simp_all add: pool_ok_def mempool_ok_def)
  have jp: "map_of (spends m) (spend_bundle_name j) = Some j" "Coin_name E a \<in> Coin_name E ` set (mi_additions j)"
    using ia j unfolding index_ok_def by blast+
  then obtain b where b: "b \<in> set (mi_additions j)" "Coin_name E b = Coin_name E a" by auto
  have jb: "item_born E S j" using assms(3) jp(1) unfolding pool_ok_def by blast
  have wf: "Coin_wf a" "Coin_wf b" "Coin_preimage E a \<in> S" "Coin_preimage E b \<in> S" "parent_coin_info b \<in> Coin_name E ` set (mi_removals j)"
    "parent_coin_info a \<in> Coin_name E ` set (mi_removals item)"
    using assms(4,5) jb b(1) unfolding item_born_def by blast+
  then have "Coin_preimage E a = Coin_preimage E b"
    using b(2) assms(2) by (simp add: Coin_name_def Coin_get_hash_def std_hash_def inj_on_eq_iff)
  then have "a = b" using Coin_preimage_inject [OF assms(1)] wf(1,2) by (simp add: Coin_wf_def)
  then have "map_of (mp_removals m) (parent_coin_info a) = Some j" using ir jp(1) wf(5) unfolding index_ok_def by blast
  moreover have "map_of (mp_removals m) (parent_coin_info a) = None" using assms(6) wf(6) by auto
  ultimately show False by simp
qed

definition manager_ok :: "crypto \<Rightarrow> bytes set \<Rightarrow> MempoolManager \<Rightarrow> bool" where
  "manager_ok E S self \<longleftrightarrow>
     store_ok E (mm_coin_store self) \<and> pool_ok E S (mempool self) \<and> pending_ok (potential_cache self) \<and>
     0 \<le> cache_max_total_cost (potential_cache self) \<and> py_int (cost_limit self) \<le> max_size_in_cost (mempool self)"

text \<open>What no phase changes: the contents of the coin store and the settings.\<close>

definition same_setting :: "MempoolManager \<Rightarrow> MempoolManager \<Rightarrow> bool" where
  "same_setting self self' \<longleftrightarrow>
     coin_view (mm_coin_store self') = coin_view (mm_coin_store self) \<and> mm_constants self' = mm_constants self \<and>
     limit_factor self' = limit_factor self \<and> mm_peak self' = mm_peak self"

text \<open>An item that may enter a pool once the conflicting items have left it.\<close>

definition candidate :: "crypto \<Rightarrow> bytes set \<Rightarrow> MempoolItem \<Rightarrow> Mempool \<Rightarrow> bool" where
  "candidate E S item pool \<longleftrightarrow>
     item_ok E item \<and> item_born E S item \<and> mi_cost item \<le> max_size_in_cost pool \<and> map_of (spends pool) (spend_bundle_name item) = None"

lemma candidate_fresh:
  assumes "crypto_ok E" "inj_on (hash256 E) S" "pool_ok E S pool" "candidate E S item pool"
    and "mempool_ok E pool'" "max_size_in_cost pool' = max_size_in_cost pool" "map_of (spends pool') = map_of (spends pool) |` (- set (dkeys d))"
    and conf: "\<And>c i. c \<in> set (mi_removals item) \<Longrightarrow> map_of (mp_removals pool) (Coin_name E c) = Some i \<Longrightarrow> spend_bundle_name i \<in> set (dkeys d)"
  shows "pool_ok E S pool' \<and> fresh_item E item pool'"
proof -
  have sub: "map_of (spends pool) n = Some i" if "map_of (spends pool') n = Some i" for n i
    using that by (simp add: assms(7) restrict_map_def split: if_splits)
  have po: "pool_ok E S pool'" using assms(3,5) sub unfolding pool_ok_def by blast
  have ir: "index_ok E mi_removals (mp_removals pool) (spends pool)" "index_ok E mi_removals (mp_removals pool') (spends pool')"
    using assms(3,5) by (simp_all add: pool_ok_def mempool_ok_def)
  have free: "map_of (mp_removals pool') (Coin_name E c) = None" if c: "c \<in> set (mi_removals item)" for c
  proof (rule ccontr)
    assume "map_of (mp_removals pool') (Coin_name E c) \<noteq> None"
    then obtain j where j: "map_of (mp_removals pool') (Coin_name E c) = Some j" by blast
    then have jp: "map_of (spends pool') (spend_bundle_name j) = Some j" "Coin_name E c \<in> Coin_name E ` set (mi_removals j)"
      using ir(2) unfolding index_ok_def by blast+
    then have "map_of (mp_removals pool) (Coin_name E c) = Some j" using ir(1) sub unfolding index_ok_def by blast
    then have "spend_bundle_name j \<in> set (dkeys d)" using conf c by blast
    then show False using jp(1) by (simp add: assms(7))
  qed
  have c: "item_ok E item" "item_born E S item" "mi_cost item \<le> max_size_in_cost pool" "map_of (spends pool) (spend_bundle_name item) = None"
    using assms(4) unfolding candidate_def by blast+
  have "map_of (spends pool') (spend_bundle_name item) = None" using c(4) by (simp add: assms(7) restrict_map_def)
  moreover have "\<forall>a \<in> set (mi_additions item). map_of (mp_additions pool') (Coin_name E a) = None"
    using additions_fresh [OF assms(1,2) po c(2)] free by blast
  ultimately show ?thesis using po c(1,3) free by (simp add: fresh_item_def assms(6))
qed

lemma pend_keeps:
  assumes "pend item e self = Inr (r, self')" "manager_ok E S self" "0 \<le> mi_cost item"
  shows "manager_ok E S self' \<and> same_setting self self' \<and> mempool self' = mempool self \<and> fst (snd r) = PENDING"
proof -
  have p: "pending_ok (potential_cache self)" "0 \<le> cache_max_total_cost (potential_cache self)" using assms(2) by (simp_all add: manager_ok_def)
  obtain s where s: "pending_add item (potential_cache self) = Inr s" "self' = self\<lparr>potential_cache := s\<rparr>" "fst (snd r) = PENDING"
    using assms(1) unfolding pend_def by (auto elim!: rbind_InrE)
  have "pending_ok s \<and> 0 \<le> cache_max_total_cost s" using pending_add_keeps [OF p(1) assms(3) p(2) s(1)] p(2) by simp
  then show ?thesis using assms(2) s by (simp add: manager_ok_def same_setting_def cost_limit_def)
qed

lemma admit_item_keeps:
  assumes "crypto_ok E" "inj_on (hash256 E) S" "sorted_dict_ok SD" "manager_ok E S self" "candidate E S item (mempool self)"
    and "distinct (dkeys d)" "\<forall>(n, i) \<in> set d. spend_bundle_name i = n \<and> map_of (spends (mempool self)) n = Some i"
    and "\<And>c i. c \<in> set (mi_removals item) \<Longrightarrow> map_of (mp_removals (mempool self)) (Coin_name E c) = Some i \<Longrightarrow> spend_bundle_name i \<in> set (dkeys d)"
    and "admit_item E SD now peak records d item self = Inr (r, self')"
  shows "manager_ok E S self' \<and> same_setting self self' \<and>
    (fst (snd r) = SUCCESS \<longrightarrow> map_of (spends (mempool self')) (spend_bundle_name item) = Some item \<and>
       verify_conditions E now peak records (npc_list (mi_npc_result item)) = Inr None)"
proof -
  obtain v where v: "verify_conditions E now peak records (npc_list (mi_npc_result item)) = Inr v"
    using assms(9) unfolding admit_item_def by (auto elim: rbind_InrE)
  have cost: "0 \<le> mi_cost item" using assms(5) by (simp add: candidate_def item_ok_def)
  show ?thesis
  proof (cases v)
    case (Some se)
    obtain status e where se: "se = (status, e)" by (cases se)
    show ?thesis
    proof (cases "status = PENDING")
      case True
      then have "pend item e self = Inr (r, self')" using assms(9) v Some by (simp add: admit_item_def se)
      from pend_keeps [OF this assms(4) cost] show ?thesis by simp
    next
      case False
      then show ?thesis using assms(4,9) v Some by (auto simp: admit_item_def se failed_def same_setting_def)
    qed
  next
    case None
    have po: "pool_ok E S (mempool self)" using assms(4) by (simp add: manager_ok_def)
    then have mo: "mempool_ok E (mempool self)" by (simp add: pool_ok_def)
    obtain p1 where p1: "rfold (remove_from_pool E) (dvalues d) (mempool self) = Inr p1" "mempool_ok E p1"
      "max_size_in_cost p1 = max_size_in_cost (mempool self)" "map_of (spends p1) = map_of (spends (mempool self)) |` (- set (dkeys d))"
      using remove_items_ok [OF mo assms(6,7)] by blast
    have fresh: "pool_ok E S p1 \<and> fresh_item E item p1"
      using candidate_fresh [OF assms(1,2) po assms(5) p1(2-4)] assms(8) by blast
    obtain ev :: "(rat \<times> MempoolItem) list" and m1 p2 :: Mempool where p2: "add_to_pool E SD item p1 = Inr p2" "mempool_ok E p2" "max_size_in_cost p2 = max_size_in_cost p1"
      "\<forall>n. map_of (spends m1) n = (if n \<in> spend_bundle_name ` snd ` set ev then None else map_of (spends p1) n)"
      "spends p2 = dput (spend_bundle_name item) item (spends m1)"
      using add_to_pool_ok [OF assms(3) p1(2) conjunct2 [OF fresh]] by (elim exE conjE) (rule that, assumption+)
    have self': "self' = self\<lparr>mempool := p2\<rparr>"
      using assms(9) v None p1(1) p2(1) unfolding admit_item_def by (auto elim!: rbind_InrE)
    have "item_born E S i" if "map_of (spends p2) n = Some i" for n i
      using that fresh p2(4) assms(5) by (auto simp: p2(5) candidate_def pool_ok_def split: if_splits)
    then have "pool_ok E S p2" using p2(2) by (simp add: pool_ok_def)
    then have "manager_ok E S self'" using assms(4) p2(3) p1(3) by (simp add: manager_ok_def self' cost_limit_def)
    moreover have "map_of (spends p2) (spend_bundle_name item) = Some item" by (simp add: p2(5))
    ultimately show ?thesis using v None by (simp add: self' same_setting_def)
  qed
qed

text \<open>What the phases from the conflict check on establish for a new item, with the records of its removals.\<close>

definition admitted :: "crypto \<Rightarrow> bytes set \<Rightarrow> int \<Rightarrow> BlockRecord \<Rightarrow> (bytes, CoinRecord) dict \<Rightarrow> MempoolItem \<Rightarrow> MempoolManager \<Rightarrow>
    add_result \<times> MempoolManager \<Rightarrow> bool" where
  "admitted E S now peak records item self x \<longleftrightarrow>
     manager_ok E S (snd x) \<and> same_setting self (snd x) \<and>
     (fst (snd (fst x)) = SUCCESS \<longrightarrow>
        map_of (spends (mempool (snd x))) (spend_bundle_name item) = Some item \<and>
        verify_conditions E now peak records (npc_list (mi_npc_result item)) = Inr None \<and> (\<forall>r \<in> set (dvalues records). \<not> spent r))"

lemma same_setting_refl [simp]: "same_setting self self"
  by (simp add: same_setting_def)

lemma failed_admitted:
  "failed e self = Inr x \<Longrightarrow> manager_ok E S self \<Longrightarrow> admitted E S now peak records item self x"
  by (auto simp: failed_def admitted_def)

lemma resolve_conflicts_ok:
  assumes "crypto_ok E" "inj_on (hash256 E) S" "sorted_dict_ok SD" "manager_ok E S self" "candidate E S item (mempool self)"
    and "mi_removals item = map coin (dvalues records)" "resolve_conflicts E SD now peak records fpc item self = Inr x"
  shows "admitted E S now peak records item self x"
proof -
  obtain e cs where rc: "removal_conflicts E (mempool self) (dvalues records) [] = (e, cs)" by force
  note rc_ok = removal_conflicts_ok [OF rc]
  have run: "(case e of None \<Rightarrow> admit_item E SD now peak records [] item self
     | Some e \<Rightarrow> if e = MEMPOOL_CONFLICT then
             rbind (conflicting_pool_items E cs (mempool self)) (\<lambda>conflicting.
             rbind (can_replace E conflicting records (mi_fee item) fpc) (\<lambda>ok.
               if \<not> ok then pend item MEMPOOL_CONFLICT self else admit_item E SD now peak records conflicting item self))
           else failed e self) = Inr x"
    using assms(7) rc unfolding resolve_conflicts_def check_removals_def by (cases "mm_peak self") simp_all
  have cost: "0 \<le> mi_cost item" using assms(5) by (simp add: candidate_def item_ok_def)
  have mo: "mempool_ok E (mempool self)" using assms(4) by (simp add: manager_ok_def pool_ok_def)
  show ?thesis
  proof (cases e)
    case None
    then have free: "\<And>c. c \<in> set (mi_removals item) \<Longrightarrow> map_of (mp_removals (mempool self)) (Coin_name E c) = None" "\<forall>r \<in> set (dvalues records). \<not> spent r"
      using rc_ok by (auto simp: assms(6) din_map_of)
    have run': "admit_item E SD now peak records [] item self = Inr (fst x, snd x)" using run None by simp
    have "fst (snd (fst x)) = SUCCESS \<longrightarrow> map_of (spends (mempool (snd x))) (spend_bundle_name item) = Some item \<and>
       verify_conditions E now peak records (npc_list (mi_npc_result item)) = Inr None" "manager_ok E S (snd x)" "same_setting self (snd x)"
      using admit_item_keeps [OF assms(1-5) _ _ _ run'] free(1) by fastforce+
    then show ?thesis using free(2) by (simp add: admitted_def)
  next
    case (Some e')
    show ?thesis
    proof (cases "e' = MEMPOOL_CONFLICT")
      case True
      then obtain d ok where d: "conflicting_pool_items E cs (mempool self) = Inr d"
        "(if \<not> ok then pend item MEMPOOL_CONFLICT self else admit_item E SD now peak records d item self) = Inr x"
        using run Some by (auto elim!: rbind_InrE)
      note dok = conflicting_items_ok [OF d(1) mo]
      have unspent: "\<forall>r \<in> set (dvalues records). \<not> spent r" using rc_ok Some True by blast
      have conf: "spend_bundle_name i \<in> set (dkeys d)"
        if c: "c \<in> set (mi_removals item)" "map_of (mp_removals (mempool self)) (Coin_name E c) = Some i" for c i
      proof -
        have "din (Coin_name E c) (mp_removals (mempool self))" using c(2) by (rule map_of_Some_din)
        then have "c \<in> set cs" using rc_ok Some True c(1) by (auto simp: assms(6))
        then have "map_of d (spend_bundle_name i) = Some i" using dok c(2) by blast
        then show ?thesis by (metis din_def map_of_Some_din)
      qed
      show ?thesis
      proof (cases ok)
        case True
        then have run': "admit_item E SD now peak records d item self = Inr (fst x, snd x)" using d(2) by simp
        show ?thesis using admit_item_keeps [OF assms(1-5) _ _ conf run'] dok unspent by (simp add: admitted_def)
      next
        case False
        then have "pend item MEMPOOL_CONFLICT self = Inr (fst x, snd x)" using d(2) by simp
        from pend_keeps [OF this assms(4) cost] show ?thesis by (simp add: admitted_def)
      qed
    next
      case False
      then show ?thesis using failed_admitted [OF _ assms(4)] run Some by simp
    qed
  qed
qed

section \<open>What an accepted item satisfies\<close>

definition conditions_hold :: "crypto \<Rightarrow> int \<Rightarrow> BlockRecord \<Rightarrow> NPC \<Rightarrow> CoinRecord \<Rightarrow> bool" where
  "conditions_hold E now peak npc r \<longleftrightarrow>
     npc_puzzle_hash npc = puzzle_hash (coin r) \<and>
     (\<exists>d. condition_dict npc = Inr d \<and>
        mempool_check_conditions_dict E now r d (if is_transaction_block peak then height peak else prev_transaction_block_height peak)
          (BlockRecord.timestamp peak) = Inr None)"

lemma verify_conditions_hold:
  "verify_conditions E now peak records npcs = Inr None \<Longrightarrow> npc \<in> set npcs \<Longrightarrow>
     \<exists>r. map_of records (coin_name npc) = Some r \<and> conditions_hold E now peak npc r"
proof (induction npcs)
  case (Cons a npcs)
  obtain r where r: "map_of records (coin_name a) = Some r" using Cons.prems(1) by (cases "map_of records (coin_name a)") (simp_all add: dget_def)
  have ph: "npc_puzzle_hash a = puzzle_hash (coin r)" using Cons.prems(1) r by (auto simp: dget_def split: if_splits)
  obtain ts where ts: "BlockRecord.timestamp peak = Some ts" using Cons.prems(1) r ph by (cases "BlockRecord.timestamp peak") (simp_all add: dget_def)
  obtain d h e where d: "condition_dict a = Inr d" "uint32 (if \<not> is_transaction_block peak then prev_transaction_block_height peak else height peak) = Inr h"
    "mempool_check_conditions_dict E now r d h (Some ts) = Inr e"
    "(case e of None \<Rightarrow> verify_conditions E now peak records npcs
       | Some e \<Rightarrow> Inr (Some (if e = ASSERT_HEIGHT_ABSOLUTE_FAILED \<or> e = ASSERT_HEIGHT_RELATIVE_FAILED then PENDING else FAILED, e))) = Inr None"
    using Cons.prems(1) r ph ts by (simp add: dget_def Let_def) (elim rbind_InrE, blast)
  have h: "h = (if is_transaction_block peak then height peak else prev_transaction_block_height peak)"
    using d(2) by (simp add: uint32_eq split: if_splits)
  have e: "e = None" using d(4) by (cases e) simp_all
  have "conditions_hold E now peak a r" using ph ts d(1,3) by (simp add: conditions_hold_def h e)
  moreover have "verify_conditions E now peak records npcs = Inr None" using d(4) e by simp
  ultimately show ?case using Cons.IH Cons.prems(2) r by auto
qed simp

definition valid_item :: "crypto \<Rightarrow> (bytes \<Rightarrow> CoinRecord option) \<Rightarrow> int \<Rightarrow> BlockRecord \<Rightarrow> MempoolItem \<Rightarrow> bool" where
  "valid_item E view now peak item \<longleftrightarrow>
     distinct (map (Coin_name E) (mi_removals item)) \<and> distinct (map (Coin_name E) (mi_additions item)) \<and>
     map (Coin_name E) (mi_removals item) = map coin_name (npc_list (mi_npc_result item)) \<and>
     set (map (Coin_name E) (mi_removals item)) = set (map (Coin_name E) (SpendBundle_removals (mi_spend_bundle item))) \<and>
     additions_for_npc E (npc_list (mi_npc_result item)) = Inr (mi_additions item) \<and>
     total_amount (mi_removals item) = total_amount (mi_additions item) + mi_fee item \<and> 0 \<le> mi_fee item \<and>
     (\<exists>s. reserved_fees E (npc_list (mi_npc_result item)) 0 = Inr (Inr s) \<and> s \<le> mi_fee item) \<and>
     (\<forall>npc \<in> set (npc_list (mi_npc_result item)). \<exists>r. coin r \<in> set (mi_removals item) \<and> Coin_name E (coin r) = coin_name npc \<and>
        \<not> spent r \<and> (view (coin_name npc) = Some r \<or> coin r \<in> set (mi_additions item)) \<and> conditions_hold E now peak npc r)"

lemma add_with_fees_ok:
  assumes "crypto_ok E" "inj_on (hash256 E) S" "sorted_dict_ok SD" "manager_ok E S self"
    and "map_of (spends (mempool self)) spend_name = None" "0 \<le> c" "c \<le> py_int (cost_limit self)"
    and "additions_for_npc E (npc_list res) = Inr adds" "distinct (map (Coin_name E) adds)" "\<forall>a \<in> set adds. Coin_preimage E a \<in> S"
    and "dkeys records = map coin_name (npc_list res)" "distinct (dkeys records)"
    and recs: "\<forall>x \<in> set records. record_ok E (coin_view (mm_coin_store self)) (fold (\<lambda>a. dput (Coin_name E a) a) adds []) x"
    and "set (dkeys records) = set (map (Coin_name E) (SpendBundle_removals new_spend))"
    and "add_with_fees E SD now peak new_spend res c spend_name prog adds records (total_amount adds) (total_amount (map coin (dvalues records))) self = Inr x"
  shows "manager_ok E S (snd x) \<and> same_setting self (snd x) \<and>
     (fst (snd (fst x)) = SUCCESS \<longrightarrow> (\<exists>item. map_of (spends (mempool (snd x))) spend_name = Some item \<and> mi_spend_bundle item = new_spend \<and>
        mi_npc_result item = res \<and> mi_cost item = c \<and> valid_item E (coin_view (mm_coin_store self)) now peak item))"
proof -
  have refused: ?thesis if "failed e self = Inr x" for e using that assms(4) by (auto simp: failed_def)
  have names: "map (Coin_name E) (map coin (dvalues records)) = dkeys records"
    using recs by (auto simp: record_ok_def)
  define fee where "fee = total_amount (map coin (dvalues records)) - total_amount adds"
  define item where "item = \<lparr> mi_spend_bundle = new_spend, mi_fee = fee, mi_npc_result = res, mi_cost = c, spend_bundle_name = spend_name,
                        mi_additions = adds, mi_removals = map coin (dvalues records), mi_program = prog \<rparr>"
  consider (no) e where "failed e self = Inr x"
    | (yes) s fpc where "0 \<le> fee" "reserved_fees E (npc_list res) 0 = Inr (Inr s)" "s \<le> fee" "c \<noteq> 0"
        "resolve_conflicts E SD now peak records fpc item self = Inr x"
    using assms(15) unfolding add_with_fees_def item_def fee_def
    by (auto elim!: rbind_InrE simp: uint64_eq split: if_splits sum.splits option.splits)
  then show ?thesis
  proof cases
    case yes
    have "parent_coin_info a \<in> Coin_name E ` set (map coin (dvalues records))" if "a \<in> set adds" for a
      using additions_for_npc_wf [OF assms(8) that] names assms(11) by (metis list.set_map)
    then have born: "item_born E S item" using additions_for_npc_wf [OF assms(8)] assms(10) by (auto simp: item_born_def item_def)
    have "item_ok E item" using assms(6,9,12) yes(4) by (simp add: item_ok_def item_def names del: map_map)
    then have cand: "candidate E S item (mempool self)"
      using born assms(4,5,7) by (simp add: candidate_def item_def manager_ok_def)
    have adm: "admitted E S now peak records item self x"
      by (rule resolve_conflicts_ok [OF assms(1-4) cand _ yes(5)]) (simp add: item_def)
    have "valid_item E (coin_view (mm_coin_store self)) now peak item" if ok: "fst (snd (fst x)) = SUCCESS"
    proof -
      have v: "verify_conditions E now peak records (npc_list res) = Inr None" "\<forall>r \<in> set (dvalues records). \<not> spent r"
        using adm ok by (auto simp: admitted_def item_def)
      have each: "\<exists>r. coin r \<in> set (map coin (dvalues records)) \<and> Coin_name E (coin r) = coin_name npc \<and> \<not> spent r \<and>
          (coin_view (mm_coin_store self) (coin_name npc) = Some r \<or> coin r \<in> set adds) \<and> conditions_hold E now peak npc r"
        if npc: "npc \<in> set (npc_list res)" for npc
      proof -
        obtain r where r: "map_of records (coin_name npc) = Some r" "conditions_hold E now peak npc r"
          using verify_conditions_hold [OF v(1) npc] by blast
        have "(coin_name npc, r) \<in> set records" using r(1) by (rule map_of_SomeD)
        then have "record_ok E (coin_view (mm_coin_store self)) (fold (\<lambda>a. dput (Coin_name E a) a) adds []) (coin_name npc, r)" "r \<in> set (dvalues records)"
          using recs by (auto simp: image_iff intro: bexI [where x = "(coin_name npc, r)"])
        then have "Coin_name E (coin r) = coin_name npc" "coin_view (mm_coin_store self) (coin_name npc) = Some r \<or> coin r \<in> set adds"
          using additions_dict [of E adds "[]" "coin_name npc"]
          by (cases "map_of (fold (\<lambda>a. dput (Coin_name E a) a) adds []) (coin_name npc)"; fastforce simp: record_ok_def)+
        moreover have "coin r \<in> set (map coin (dvalues records))" using \<open>r \<in> set (dvalues records)\<close> by (metis image_eqI list.set_map)
        ultimately show ?thesis using r(2) v(2) \<open>r \<in> set (dvalues records)\<close> by blast
      qed
      show ?thesis unfolding valid_item_def
        using assms(8,9,11,12,14) yes(1-3) each by (simp add: item_def fee_def names del: map_map)
    qed
    then show ?thesis using adm by (auto simp: admitted_def item_def)
  qed (rule refused)
qed

lemma add_with_cost_ok:
  assumes "crypto_ok E" "inj_on (hash256 E) S" "sorted_dict_ok SD" "manager_ok E S self" "0 \<le> c" "c \<le> py_int (cost_limit self)"
    and born: "\<forall>adds. additions_for_npc E (npc_list res) = Inr adds \<longrightarrow> (\<forall>a \<in> set adds. Coin_preimage E a \<in> S)"
    and "add_with_cost E SD now peak new_spend res c spend_name prog self = Inr x"
  shows "manager_ok E S (snd x) \<and> same_setting self (snd x) \<and>
     (fst (snd (fst x)) = SUCCESS \<longrightarrow> \<not> din spend_name (spends (mempool self)) \<longrightarrow>
       (\<exists>item. map_of (spends (mempool (snd x))) spend_name = Some item \<and> mi_spend_bundle item = new_spend \<and>
        mi_npc_result item = res \<and> mi_cost item = c \<and> valid_item E (coin_view (mm_coin_store self)) now peak item))"
proof -
  have refused: ?thesis if "failed e self' = Inr x" "manager_ok E S self'" "same_setting self self'" for e self' using that by (auto simp: failed_def)
  let ?names = "map coin_name (npc_list res)"
  show ?thesis
  proof (cases "set ?names \<noteq> set (map (Coin_name E) (SpendBundle_removals new_spend))")
    case True
    then show ?thesis using refused [of INVALID_SPEND_BUNDLE self] assms(4,8) by (simp add: add_with_cost_def)
  next
    case False
    then obtain adds r where adds: "additions_for_npc E (npc_list res) = Inr adds"
      "check_addition_amounts (MAX_COIN_AMOUNT (mm_constants self)) adds 0 = Inr r" 
      using assms(8) unfolding add_with_cost_def Let_def by (auto elim!: rbind_InrE)
    note run = assms(8) [unfolded add_with_cost_def Let_def]
    show ?thesis
    proof (cases r)
      case (Inl e)
      then show ?thesis using refused [of e self] assms(4) run False adds by simp
    next
      case (Inr t)
      have t: "t = total_amount adds" using check_addition_amounts_sum adds(2) Inr by fastforce
      consider "has_duplicates (map (Coin_name E) adds)" | "\<not> has_duplicates (map (Coin_name E) adds)" "has_duplicates ?names"
        | "\<not> has_duplicates (map (Coin_name E) adds)" "\<not> has_duplicates ?names" "din spend_name (spends (mempool self))"
        | (go) "\<not> has_duplicates (map (Coin_name E) adds)" "\<not> has_duplicates ?names" "\<not> din spend_name (spends (mempool self))" by blast
      then show ?thesis
      proof cases
        case 1
        then show ?thesis using refused [of DUPLICATE_OUTPUT self] assms(4) run False adds Inr by simp
      next
        case 2
        then show ?thesis using refused [of DOUBLE_SPEND self] assms(4) run False adds Inr by simp
      next
        case 3
        then show ?thesis using assms(4) run False adds Inr by (auto elim!: rbind_InrE)
      next
        case go
        let ?ad = "fold (\<lambda>a. dput (Coin_name E a) a) adds []"
        obtain store r2 where cr: "collect_removals E peak ?ad ?names (mm_coin_store self) [] 0 = Inr (store, r2)"
          "(case r2 of Inl e \<Rightarrow> failed e (self\<lparr>mm_coin_store := store\<rparr>)
             | Inr (records, removal_amount) \<Rightarrow> add_with_fees E SD now peak new_spend res c spend_name prog adds records t removal_amount
                 (self\<lparr>mm_coin_store := store\<rparr>)) = Inr x"
          using run False adds Inr go by (auto elim!: rbind_InrE)
        have so: "store_ok E (mm_coin_store self)" using assms(4) by (simp add: manager_ok_def)
        have ad: "Coin_name E a = n" if "map_of ?ad n = Some a" for n a using additions_dict [OF that] by simp
        note col = collect_removals_ok [OF cr(1) so ad]
        define self1 where "self1 = self\<lparr>mm_coin_store := store\<rparr>"
        have ok1: "manager_ok E S self1" "same_setting self self1"
          using assms(4) col by (simp_all add: manager_ok_def same_setting_def self1_def cost_limit_def)
        show ?thesis
        proof (cases r2)
          case (Inl e)
          then show ?thesis using refused [of e self1] ok1 cr(2) by (simp add: self1_def)
        next
          case (Inr ra)
          obtain records amt where ra: "ra = (records, amt)" by (cases ra)
          have rec: "dkeys records = ?names" "\<forall>x \<in> set records. record_ok E (coin_view (mm_coin_store self)) ?ad x"
            "amt = total_amount (map coin (dvalues records))"
            using col Inr ra go(2) by (simp_all add: total_amount_def has_duplicates_def)
          have v1: "coin_view (mm_coin_store self1) = coin_view (mm_coin_store self)" "mempool self1 = mempool self" "cost_limit self1 = cost_limit self"
            using col by (simp_all add: self1_def cost_limit_def)
          have "manager_ok E S (snd x) \<and> same_setting self1 (snd x) \<and>
             (fst (snd (fst x)) = SUCCESS \<longrightarrow> (\<exists>item. map_of (spends (mempool (snd x))) spend_name = Some item \<and> mi_spend_bundle item = new_spend \<and>
                mi_npc_result item = res \<and> mi_cost item = c \<and> valid_item E (coin_view (mm_coin_store self1)) now peak item))"
          proof (rule add_with_fees_ok [OF assms(1-3) ok1(1) _ assms(5) _ adds(1)])
            show "add_with_fees E SD now peak new_spend res c spend_name prog adds records (total_amount adds) (total_amount (map coin (dvalues records))) self1 = Inr x"
              using cr(2) Inr ra rec(3) t by (simp add: self1_def)
          qed (use go rec(1,2) False born adds(1) assms(6) v1 in \<open>auto simp: has_duplicates_def not_din_map_of\<close>)
          then show ?thesis using ok1(2) by (simp add: v1 same_setting_def)
        qed
      qed
    qed
  qed
qed

section \<open>The block made from the pool\<close>

lemma choose_items_prefix:
  "\<exists>rest. items = choose_items self items c f @ rest \<and>
     (choose_items self items c f \<noteq> [] \<longrightarrow>
        of_int (c + sum_list (map mi_cost (choose_items self items c f))) \<le> cost_limit self \<and>
        f + sum_list (map mi_fee (choose_items self items c f)) \<le> MAX_COIN_AMOUNT (mm_constants self))"
proof (induction items arbitrary: c f)
  case (Cons i items)
  show ?case
  proof (cases "fits_block self c f i")
    case True
    with Cons.IH [of "c + mi_cost i" "f + mi_fee i"] show ?thesis
      by (cases "choose_items self items (c + mi_cost i) (f + mi_fee i)") (auto simp: fits_block_def algebra_simps)
  qed simp
qed simp

lemma distinct_coins:
  assumes "index_ok E coins idx sps" "distinct (map spend_bundle_name is)"
    and "\<forall>i \<in> set is. map_of sps (spend_bundle_name i) = Some i \<and> distinct (map (Coin_name E) (coins i))"
  shows "distinct (map (Coin_name E) (concat (map coins is)))"
  using assms(2,3)
proof (induction "is")
  case (Cons i "is")
  have "False" if n: "n \<in> Coin_name E ` set (coins i)" "j \<in> set is" "n \<in> Coin_name E ` set (coins j)" for n j
  proof -
    have "map_of idx n = Some i" "map_of idx n = Some j" using assms(1) Cons.prems(2) n unfolding index_ok_def by (meson list.set_intros)+
    then have "i = j" by simp
    then show False using Cons.prems(1) n(2) by (metis distinct.simps(2) image_eqI list.simps(9) list.set_map)
  qed
  then have "set (map (Coin_name E) (coins i)) \<inter> set (map (Coin_name E) (concat (map coins is))) = {}"
    by (force simp: disjoint_iff)
  then show ?case using Cons by simp
qed simp

text \<open>Buckets of items by rate, highest first, each item under its own name.\<close>

lemma buckets_concat:
  fixes l :: "(rat \<times> item_dict) list"
  assumes "sorted (rev (map fst l))" "distinct (map fst l)"
    and "\<And>r d. (r, d) \<in> set l \<Longrightarrow> distinct (dkeys d)"
    and "\<And>r d n i. (r, d) \<in> set l \<Longrightarrow> (n, i) \<in> set d \<Longrightarrow> spend_bundle_name i = n \<and> map_of sps n = Some i \<and> rate i = r"
  shows "sorted (rev (map rate (concat (map (\<lambda>(fpc, dic). dvalues dic) l)))) \<and>
    distinct (map spend_bundle_name (concat (map (\<lambda>(fpc, dic). dvalues dic) l)))"
  using assms
proof (induction l)
  case (Cons p l)
  obtain r d where p: "p = (r, d)" by (cases p)
  let ?rest = "concat (map (\<lambda>(fpc, dic). dvalues dic) l)"
  have d: "spend_bundle_name i = n \<and> map_of sps n = Some i \<and> rate i = r" if "(n, i) \<in> set d" for n i
    using Cons.prems(4) [of r d n i] that by (simp add: p)
  have rest: "\<exists>r'. r' \<in> fst ` set l \<and> rate i = r' \<and> map_of sps (spend_bundle_name i) = Some i" if i: "i \<in> set ?rest" for i
  proof -
    obtain r' d' n where "(r', d') \<in> set l" "(n, i) \<in> set d'" using i by fastforce
    then show ?thesis using Cons.prems(4) [of r' d' n i] by force
  qed
  have names: "map spend_bundle_name (dvalues d) = dkeys d" "map rate (dvalues d) = replicate (length d) r"
    using d by (auto simp: map_replicate_const [symmetric] simp del: map_replicate_const)
  have "spend_bundle_name i \<notin> set (dkeys d)" if i: "i \<in> set ?rest" for i
  proof
    assume "spend_bundle_name i \<in> set (dkeys d)"
    then obtain j where "(spend_bundle_name i, j) \<in> set d" by force
    then have "j = i" "rate j = r" using d [of "spend_bundle_name i" j] rest [OF i] by auto
    then show False using rest [OF i] Cons.prems(2) by (auto simp: p)
  qed
  moreover have "rate i \<le> r" if "i \<in> set ?rest" for i
    using rest [OF that] Cons.prems(1) by (force simp: p sorted_append)
  moreover have "sorted (rev (map rate ?rest)) \<and> distinct (map spend_bundle_name ?rest)"
  proof (rule Cons.IH)
    show "sorted (rev (map fst l))" "distinct (map fst l)" using Cons.prems(1,2) by (auto simp: sorted_append)
  qed (use Cons.prems(3,4) in \<open>meson list.set_intros(2)\<close>)+
  moreover have "distinct (dkeys d)" using Cons.prems(3) [of r d] by (simp add: p)
  ultimately have "sorted (rev (map rate (dvalues d @ ?rest))) \<and> distinct (map spend_bundle_name (dvalues d @ ?rest))"
    unfolding map_append names rev_append by (force simp: sorted_append simp del: map_map set_concat)
  then show ?case by (simp add: p)
qed simp

lemma reversed_items_pool:
  assumes "sorted_dict_ok SD" "mempool_ok E m"
  shows "i \<in> set (reversed_items SD m) \<longleftrightarrow> map_of (spends m) (spend_bundle_name i) = Some i"
    and "sorted (rev (map rate (reversed_items SD m)))"
    and "distinct (map spend_bundle_name (reversed_items SD m))"
proof -
  let ?l = "SD (sorted_spends m)"
  have so: "sorted_ok m" and sp: "spends_ok E m" using assms(2) by (auto simp: mempool_ok_def)
  have "set (reversed_items SD m) = snd ` set (rated_items SD m)"
    by (force simp: reversed_items_def rated_items_def)
  then show "i \<in> set (reversed_items SD m) \<longleftrightarrow> map_of (spends m) (spend_bundle_name i) = Some i"
    using rated_items_pool(1) [OF assms] by force
  have dd: "distinct (map fst ?l)" using assms(1) sorted_okD(1) [OF so] by (simp add: sorted_dict_ok_def)
  have b: "distinct (dkeys d)" "(n, i) \<in> set d \<Longrightarrow> spend_bundle_name i = n \<and> map_of (spends m) n = Some i \<and> rate i = r"
    if "(r, d) \<in> set (rev ?l)" for r d n i
    using bucket_items [OF assms(1) so, of r d] that sp by (auto simp: distinct_map_of_iff spends_ok_def)
  have "sorted (rev (map fst (rev ?l)))" using SD_items(2) [OF assms(1) so] by (simp add: rev_map)
  moreover have "distinct (map fst (rev ?l))" using dd by (simp flip: rev_map)
  ultimately show "sorted (rev (map rate (reversed_items SD m)))" "distinct (map spend_bundle_name (reversed_items SD m))"
    using buckets_concat [where l = "rev ?l" and sps = "spends m"] b unfolding reversed_items_def by blast+
qed

section \<open>A new peak\<close>

lemma pool_costs_nonneg:
  assumes "mempool_ok E m" "\<forall>(n, i) \<in> set d. map_of (spends m) n = Some i"
  shows "0 \<le> dsum mi_cost d"
proof (rule dsum_nonneg)
  fix n i
  assume "(n, i) \<in> set d"
  then have "item_ok E i" using assms unfolding mempool_ok_def spends_ok_def by blast
  then show "0 \<le> mi_cost i" by (simp add: item_ok_def)
qed

lemma readd_unspent:
  assumes SD: "sorted_dict_ok SD" and old: "mempool_ok E m"
    and "mempool_ok E (mempool self)" "distinct (dkeys (spends (mempool self) @ l))"
    and "\<forall>(n, i) \<in> set (spends (mempool self) @ l). map_of (spends m) n = Some i"
    and "total_mempool_cost (mempool self) + dsum mi_cost l \<le> max_size_in_cost (mempool self)"
  shows "\<exists>self'. rfold (readd_item E V SD now (Some ch)) (dvalues l) self = Inr self' \<and> mempool_ok E (mempool self') \<and>
    spends (mempool self') = spends (mempool self) @ filter (\<lambda>(n, i). \<forall>c \<in> set (mi_removals i). Coin_name E c \<notin> ch) l \<and>
    max_size_in_cost (mempool self') = max_size_in_cost (mempool self) \<and> potential_cache self' = potential_cache self \<and> mm_peak self' = mm_peak self"
  using assms(3-)
proof (induction l arbitrary: self)
  case (Cons x l)
  obtain n i where x: "x = (n, i)" by (cases x)
  let ?p = "mempool self"
  have i: "map_of (spends m) n = Some i" using Cons.prems(3) by (auto simp: x)
  have iok: "item_ok E i" "spend_bundle_name i = n" using old i unfolding mempool_ok_def spends_ok_def by blast+
  have cost: "0 \<le> dsum mi_cost l" using Cons.prems(3) by (intro pool_costs_nonneg [OF old]) auto
  show ?case
  proof (cases "\<exists>c \<in> set (mi_removals i). Coin_name E c \<in> ch")
    case True
    have "mempool (remove_seen (spend_bundle_name i) self) = ?p" "potential_cache (remove_seen (spend_bundle_name i) self) = potential_cache self"
      "mm_peak (remove_seen (spend_bundle_name i) self) = mm_peak self"
      by (simp_all add: remove_seen_def)
    moreover have "total_mempool_cost ?p + dsum mi_cost l \<le> max_size_in_cost ?p" using Cons.prems(4) iok(1) by (simp add: x item_ok_def)
    moreover have "readd_item E V SD now (Some ch) i self = Inr (remove_seen (spend_bundle_name i) self)" using True by (simp add: readd_item_def)
    ultimately show ?thesis
      using Cons.IH [of "remove_seen (spend_bundle_name i) self"] Cons.prems(1-3) True by (auto simp: x)
  next
    case False
    have in_old: "map_of (spends m) k = Some j" if "map_of (spends ?p) k = Some j" for k j
      using Cons.prems(3) map_of_SomeD [OF that] by auto
    have nk: "map_of (spends ?p) n = None" using Cons.prems(2) by (auto simp: x map_of_eq_None_iff)
    have free: "map_of idx k = None" if ix: "index_ok E coins idx (spends ?p)" "index_ok E coins idx' (spends m)" "k \<in> Coin_name E ` set (coins i)" for idx idx' coins k
    proof (rule ccontr)
      assume "map_of idx k \<noteq> None"
      then obtain j where "map_of idx k = Some j" by blast
      then have j: "map_of (spends ?p) (spend_bundle_name j) = Some j" "k \<in> Coin_name E ` set (coins j)" using ix(1) unfolding index_ok_def by blast+
      then have "map_of idx' k = Some j" "map_of idx' k = Some i" using ix(2,3) in_old i iok(2) unfolding index_ok_def by blast+
      then have "i = j" by simp
      then show False using j(1) nk iok(2) by simp
    qed
    have le: "total_mempool_cost ?p + mi_cost i \<le> max_size_in_cost ?p" using Cons.prems(4) cost by (simp add: x)
    have "0 \<le> dsum mi_cost (spends ?p)" using Cons.prems(3) by (intro pool_costs_nonneg [OF old]) auto
    then have tp: "0 \<le> total_mempool_cost ?p" using Cons.prems(1) by (simp add: mempool_ok_def spends_ok_def)
    have fr: "fresh_item E i ?p"
      using iok nk le tp free [of mi_removals "mp_removals ?p" "mp_removals m"] free [of mi_additions "mp_additions ?p" "mp_additions m"] Cons.prems(1) old
      unfolding fresh_item_def mempool_ok_def by simp
    have nf: "\<not> at_full_capacity (mi_cost i) ?p" using le by (simp add: at_full_capacity_def)
    obtain ev :: "(rat \<times> MempoolItem) list" and m1 p2 :: Mempool where p2: "add_to_pool E SD i ?p = Inr p2" "mempool_ok E p2"
      "max_size_in_cost p2 = max_size_in_cost ?p" "spends p2 = dput (spend_bundle_name i) i (spends m1)" "total_mempool_cost p2 = total_mempool_cost m1 + mi_cost i"
      "(ev = []) = (\<not> at_full_capacity (mi_cost i) ?p)" "ev = [] \<longrightarrow> m1 = ?p"
      using add_to_pool_ok [OF SD Cons.prems(1) fr] by (elim exE conjE) (rule that, assumption+)
    have m1: "m1 = ?p" using p2(6,7) nf by simp
    have sp: "spends p2 = spends ?p @ [(n, i)]" using nk iok(2) by (simp add: p2(4) m1 dput_fresh not_din_map_of)
    have "readd_item E V SD now (Some ch) i self = Inr (self\<lparr>mempool := p2\<rparr>)" using False p2(1) by (simp add: readd_item_def)
    then show ?thesis using Cons.IH [of "self\<lparr>mempool := p2\<rparr>"] Cons.prems False p2(2,3,5) m1 by (auto simp: x sp algebra_simps)
  qed
qed simp

lemma get_min_fee_rate_total:
  assumes "sorted_dict_ok SD" "mempool_ok E m" "c \<le> max_size_in_cost m"
  shows "\<exists>r. get_min_fee_rate SD c m = Inr r"
  using evict_loop [OF assms] by (auto simp: get_min_fee_rate_def)

section \<open>Properties\<close>

lemma add_spendbundle_ok:
  assumes "crypto_ok E" "inj_on (hash256 E) S" "sorted_dict_ok SD" "manager_ok E S self"
    and "\<forall>adds. additions_for_npc E (npc_list res) = Inr adds \<longrightarrow> (\<forall>a \<in> set adds. Coin_preimage E a \<in> S)"
    and "add_spendbundle E V SD now new_spend res spend_name prog self = Inr x"
  shows "manager_ok E S (snd x) \<and> same_setting self (snd x) \<and>
     (fst (snd (fst x)) = SUCCESS \<longrightarrow> \<not> din spend_name (spends (mempool self)) \<longrightarrow>
       (\<exists>item peak. mm_peak self = Some peak \<and> map_of (spends (mempool (snd x))) spend_name = Some item \<and> mi_spend_bundle item = new_spend \<and>
        mi_npc_result item = res \<and> mi_cost item \<le> py_int (cost_limit self) \<and> valid_item E (coin_view (mm_coin_store self)) now peak item))"
proof (cases "mm_peak self")
  case None
  then show ?thesis using assms(4,6) by (auto simp: add_spendbundle_def failed_def)
next
  case (Some peak)
  then obtain prog' c where c: "calculate_cost_of_program prog' res (COST_PER_BYTE (mm_constants self)) = Inr c"
    "(if c > py_int (cost_limit self) then failed BLOCK_COST_EXCEEDS_MAX self else add_with_cost E SD now peak new_spend res c spend_name prog' self) = Inr x"
    using assms(6) unfolding add_spendbundle_def by (cases "npc_error res") (auto simp: Let_def elim!: rbind_InrE)
  have c0: "0 \<le> c" using c(1) unfolding calculate_cost_of_program_def by (auto simp: uint64_eq elim!: rbind_InrE split: if_splits)
  show ?thesis
  proof (cases "c > py_int (cost_limit self)")
    case True
    then show ?thesis using c(2) assms(4) by (auto simp: failed_def)
  next
    case False
    then have run: "add_with_cost E SD now peak new_spend res c spend_name prog' self = Inr x" and "c \<le> py_int (cost_limit self)" using c(2) by simp_all
    then show ?thesis using add_with_cost_ok [OF assms(1-4) c0 _ assms(5) run] Some by auto
  qed
qed

text \<open>
  C5. A transaction that was not in the pool and that \<^verbatim>\<open>add_spendbundle\<close> reports as accepted is in the pool and is valid there
  (one that was in the pool before is reported as accepted without a new check): it fits the cost limit, the coins
  it spends are those named by the conditions and by the bundle, none is spent twice or already spent in the coin store
  (each is an unspent record of the store or created by the transaction itself), all its conditions hold at the peak, its
  additions are the coins its conditions create, no two of them alike, and its fee is exactly the value it does not pass
  on, nonnegative and at least the reserved fee.
\<close>

theorem add_spendbundle_accepts_valid:
  assumes "crypto_ok E" "inj_on (hash256 E) S" "sorted_dict_ok SD" "manager_ok E S self"
    and "\<forall>adds. additions_for_npc E (npc_list res) = Inr adds \<longrightarrow> (\<forall>a \<in> set adds. Coin_preimage E a \<in> S)"
    and "\<not> din spend_name (spends (mempool self))"
    and "add_spendbundle E V SD now new_spend res spend_name prog self = Inr ((c, SUCCESS, e), self')"
  shows "\<exists>item peak. mm_peak self = Some peak \<and> map_of (spends (mempool self')) spend_name = Some item \<and> mi_spend_bundle item = new_spend \<and>
    mi_npc_result item = res \<and> mi_cost item \<le> py_int (cost_limit self) \<and> valid_item E (coin_view (mm_coin_store self)) now peak item"
  using add_spendbundle_ok [OF assms(1-5,7)] assms(6) by simp

text \<open>
  C6. Whatever \<^verbatim>\<open>add_spendbundle\<close> answers, it leaves the manager consistent: the pool keeps its indexes by name, by fee
  rate, by spent and by created coin in agreement, no two of its items spend the same coin and its total cost is the
  sum of the costs and within the limit; the pending cache keeps its bound; and the contents of the coin store, the
  peak and the settings are unchanged.
\<close>

theorem add_spendbundle_keeps_manager:
  assumes "crypto_ok E" "inj_on (hash256 E) S" "sorted_dict_ok SD" "manager_ok E S self"
    and "\<forall>adds. additions_for_npc E (npc_list res) = Inr adds \<longrightarrow> (\<forall>a \<in> set adds. Coin_preimage E a \<in> S)"
    and "add_spendbundle E V SD now new_spend res spend_name prog self = Inr (r, self')"
  shows "manager_ok E S self' \<and> same_setting self self'"
  using add_spendbundle_ok [OF assms] by simp

text \<open>
  C7. The transactions that \<^verbatim>\<open>create_bundle_from_mempool\<close> picks for a block come from the pool, fit the cost limit and the
  maximal amount of fees together, spend no coin twice and create no coin twice, and no transaction left behind pays a
  higher fee rate than one that was picked.
\<close>

theorem create_bundle_from_mempool_valid:
  assumes "sorted_dict_ok SD" "mempool_ok E (mempool self)" "create_bundle_from_mempool SD agg h self = Some (bundle, adds, rems)"
  shows "\<exists>items. bundle = SpendBundle_aggregate agg (map mi_spend_bundle items) \<and> adds = concat (map mi_additions items) \<and>
    rems = concat (map mi_removals items) \<and> (\<forall>i \<in> set items. map_of (spends (mempool self)) (spend_bundle_name i) = Some i) \<and>
    distinct (map (Coin_name E) rems) \<and> distinct (map (Coin_name E) adds) \<and>
    of_int (sum_list (map mi_cost items)) \<le> cost_limit self \<and> sum_list (map mi_fee items) \<le> MAX_COIN_AMOUNT (mm_constants self) \<and>
    (\<forall>i \<in> set items. \<forall>j. map_of (spends (mempool self)) (spend_bundle_name j) = Some j \<and> j \<notin> set items \<longrightarrow> rate j \<le> rate i)"
proof -
  define items where "items = choose_items self (reversed_items SD (mempool self)) 0 0"
  have run: "bundle = SpendBundle_aggregate agg (map mi_spend_bundle items)" "adds = concat (map mi_additions items)"
    "rems = concat (map mi_removals items)" "items \<noteq> []"
    using assms(3) by (auto simp: create_bundle_from_mempool_def items_def Let_def split: option.splits if_splits)
  obtain rest where rest: "reversed_items SD (mempool self) = items @ rest"
    and sums: "of_int (sum_list (map mi_cost items)) \<le> cost_limit self" "sum_list (map mi_fee items) \<le> MAX_COIN_AMOUNT (mm_constants self)"
    using choose_items_prefix [of "reversed_items SD (mempool self)" self 0 0] run(4) by (auto simp: items_def)
  note ri = reversed_items_pool [OF assms(1,2), unfolded rest]
  have pool: "map_of (spends (mempool self)) (spend_bundle_name i) = Some i" if "i \<in> set items" for i using ri(1) [of i] that by simp
  have iok: "item_ok E i" if "i \<in> set items" for i using pool [OF that] assms(2) unfolding mempool_ok_def spends_ok_def by blast
  have dn: "distinct (map spend_bundle_name items)" using ri(3) by simp
  have "distinct (map (Coin_name E) rems)" "distinct (map (Coin_name E) adds)"
    using assms(2) dn pool iok unfolding run mempool_ok_def item_ok_def by (blast intro: distinct_coins)+
  moreover have "rate j \<le> rate i" if "i \<in> set items" "map_of (spends (mempool self)) (spend_bundle_name j) = Some j" "j \<notin> set items" for i j
  proof -
    have "j \<in> set rest" using ri(1) [of j] that by simp
    then show ?thesis using ri(2) that(1) by (auto simp: sorted_append)
  qed
  ultimately show ?thesis using run sums pool by blast
qed

text \<open>
  C8. When the new peak is the next transaction block after the old one, the manager rebuilds the pool without
  validating anything again: exactly the transactions that spend a coin changed by the block disappear, the others stay in their order
  and none is evicted. The transactions of the pending cache, which is emptied, are then submitted once more in their order on top of
  that pool; with nothing pending the method returns and the rebuilt pool is the result.
\<close>

theorem new_peak_keeps_unspent:
  assumes "sorted_dict_ok SD" "mempool_ok E (mempool self)" "max_size_in_cost (mempool self) = mempool_max_total_cost self"
    and "100000 \<le> mempool_max_total_cost self" "mm_peak self = Some q" "p \<noteq> q" "is_transaction_block p"
    and "prev_transaction_block_hash p = Some (header_hash q)"
  shows "\<exists>mid. mm_peak mid = Some p \<and> mempool_ok E (mempool mid) \<and>
    spends (mempool mid) =
      filter (\<lambda>(n, i). \<forall>c \<in> set (mi_removals i). Coin_name E c \<notin> (\<lambda>r. Coin_name E (coin r)) ` set changes) (spends (mempool self)) \<and>
    txs (potential_cache mid) = [] \<and>
    new_peak E V SD now (Some p) changes self =
      rbind (rfold (retry_pending E V SD now) (dvalues (txs (potential_cache self))) ([], mid)) (\<lambda>(txs_added, self').
      rbind (get_min_fee_rate SD 100000 (mempool self')) (\<lambda>_. Inr (txs_added, self'))) \<and>
    (txs (potential_cache self) = [] \<longrightarrow> new_peak E V SD now (Some p) changes self = Inr ([], mid))"
proof -
  let ?s0 = "self\<lparr>mm_peak := Some p, mempool := Mempool_init (mempool_max_total_cost self)\<rparr>" and ?sp = "spends (mempool self)"
  have sp: "spends_ok E (mempool self)" using assms(2) by (simp add: mempool_ok_def)
  have "mempool_ok E (mempool ?s0)" using mempool_ok_init [of "mempool_max_total_cost self" E] assms(4) by simp
  moreover have "distinct (dkeys ?sp)" "\<forall>(n, i) \<in> set ?sp. map_of ?sp n = Some i" "dsum mi_cost ?sp \<le> mempool_max_total_cost self"
    using sp assms(3) by (auto simp: spends_ok_def)
  ultimately obtain s1 where s1: "rfold (readd_item E V SD now (Some ((\<lambda>r. Coin_name E (coin r)) ` set changes))) (dvalues ?sp) ?s0 = Inr s1"
    "mempool_ok E (mempool s1)" "max_size_in_cost (mempool s1) = mempool_max_total_cost self" "potential_cache s1 = potential_cache self" "mm_peak s1 = Some p"
    "spends (mempool s1) = filter (\<lambda>(n, i). \<forall>c \<in> set (mi_removals i). Coin_name E c \<notin> (\<lambda>r. Coin_name E (coin r)) ` set changes) ?sp"
    using readd_unspent [OF assms(1,2), of ?s0 ?sp V now "(\<lambda>r. Coin_name E (coin r)) ` set changes"]
    by (auto simp: Mempool_init_def)
  let ?mid = "s1\<lparr>potential_cache := snd (drain (potential_cache self))\<rparr>"
  have new: "new_peak E V SD now (Some p) changes self =
      rbind (rfold (retry_pending E V SD now) (dvalues (txs (potential_cache self))) ([], ?mid)) (\<lambda>(txs_added, self').
      rbind (get_min_fee_rate SD 100000 (mempool self')) (\<lambda>_. Inr (txs_added, self')))"
    using s1(1,4) assms(5-8) by (simp add: new_peak_def drain_def Let_def)
  obtain r where "get_min_fee_rate SD 100000 (mempool s1) = Inr r" using get_min_fee_rate_total [OF assms(1) s1(2), of 100000] s1(3) assms(4) by auto
  then have "txs (potential_cache self) = [] \<longrightarrow> new_peak E V SD now (Some p) changes self = Inr ([], ?mid)" by (simp add: new)
  then show ?thesis using s1 new by (intro exI [of _ ?mid]) (simp add: drain_def)
qed

section \<open>A concrete manager\<close>

definition demo_vm :: "unit generator_vm" where
  "demo_vm = \<lparr> program_to = (\<lambda>_. ()), run_as_generator = (\<lambda>_ _ _ _. None), atom_as_bin = id, int_as_bin = (\<lambda>i. []), quote_as_bin = [] \<rparr>"

definition demo_bundle :: SpendBundle where
  "demo_bundle = \<lparr> coin_spends = [\<lparr> spend_coin = demo_coin 8, puzzle_reveal = [], solution = [] \<rparr>], aggregated_signature = [] \<rparr>"

definition demo_npc :: NPC where
  "demo_npc = \<lparr> coin_name = replicate 32 8, npc_puzzle_hash = replicate 32 1,
     conditions = [(RESERVE_FEE, [\<lparr> opcode = RESERVE_FEE, vars = [int_to_bytes demo_crypto 3] \<rparr>])] \<rparr>"

definition demo_npcs :: NPCResult where
  "demo_npcs = \<lparr> npc_error = None, npc_list = [demo_npc], clvm_cost = 10 \<rparr>"

lemma demo_npc_simps [simp]: "coin_name demo_npc = replicate 32 8" "npc_puzzle_hash demo_npc = replicate 32 1"
  "condition_dict demo_npc = Inr [(RESERVE_FEE, [\<lparr> opcode = RESERVE_FEE, vars = [int_to_bytes demo_crypto 3] \<rparr>])]"
  "npc_list demo_npcs = [demo_npc]" "npc_error demo_npcs = None" "clvm_cost demo_npcs = 10"
  by (simp_all add: demo_npcs_def demo_npc_def condition_dict_def dput_def din_def)

definition demo_manager :: MempoolManager where
  "demo_manager = (MempoolManager_init demo_store DEFAULT_CONSTANTS)\<lparr>mm_peak := Some (demo_record [9] [8] 5)\<rparr>"

lemma demo_cost_limit: "cost_limit demo_manager = 5500000000"
  using fl_int [of 11000000000] fl_int [of 5500000000]
  by (simp add: cost_limit_def demo_manager_def MempoolManager_init_def DEFAULT_CONSTANTS_def py_fmul_def py_float_def)

lemma demo_limit: "py_int (cost_limit demo_manager) = 5500000000"
  by (simp add: demo_cost_limit py_int_def)

lemma demo_manager_simps [simp]: "mm_peak demo_manager = Some (demo_record [9] [8] 5)" "mm_coin_store demo_manager = demo_store"
  "mempool demo_manager = Mempool_init 550000000000" "potential_cache demo_manager = PendingTxCache_init 55000000000"
  "MAX_COIN_AMOUNT (mm_constants demo_manager) = 18446744073709551615" "mempool_max_total_cost demo_manager = 550000000000"
  by (simp_all add: demo_manager_def MempoolManager_init_def DEFAULT_CONSTANTS_def)

lemma demo_manager_ok: "manager_ok demo_crypto {} demo_manager"
  using mempool_ok_init [of 550000000000 demo_crypto]
  by (simp add: manager_ok_def demo_store_ok demo_limit pool_ok_def pending_ok_def Mempool_init_def PendingTxCache_init_def)

lemma demo_additions: "additions_for_npc demo_crypto [demo_npc] = Inr []"
  by (simp add: additions_for_npc_def created_outputs_for_conditions_dict_def dget_list_def)

lemma demo_cost: "calculate_cost_of_program [] demo_npcs (COST_PER_BYTE (mm_constants demo_manager)) = Inr 10"
  by (simp add: calculate_cost_of_program_def condition_cost_def uint64_eq)

lemma demo_fee: "reserved_fees demo_crypto [demo_npc] 0 = Inr (Inr 3)"
  using demo_crypto_ok by (simp add: dget_list_def crypto_ok_def uint64_eq py_index_def)

lemma demo_unspent_simps [simp]: "coin demo_unspent = demo_coin 8" "\<not> spent demo_unspent" "amount (demo_coin k) = 5" "puzzle_hash (demo_coin k) = replicate 32 1"
  by (simp_all add: demo_unspent_def new_coin_record_def demo_coin_def)

lemma demo_peak_simps [simp]: "height (demo_record a b h) = h" "BlockRecord.timestamp (demo_record a b h) = Some (600 * h)" "is_transaction_block (demo_record a b h)"
  by (simp_all add: demo_record_def is_transaction_block_def)

lemma demo_get: "\<exists>s'. get_coin_record demo_crypto (replicate 32 8) demo_store = Inr (Some demo_unspent, s')"
  using get_coin_record_rel [OF demo_store_rel, of "replicate 32 8"] by (auto simp: record_view_def)

lemma demo_cond: "verify_conditions demo_crypto 1000 (demo_record [9] [8] 5) [(replicate 32 8, demo_unspent)] [demo_npc] = Inr None"
  by (simp add: dget_def uint32_eq mempool_check_conditions_dict_def check_condition_def)

lemma demo_accepted: "\<exists>self'. add_spendbundle demo_crypto demo_vm (sort_key fst) 1000 demo_bundle demo_npcs [1] (Some []) demo_manager = Inr ((Some 10, SUCCESS, None), self')"
proof -
  obtain s' where s': "get_coin_record demo_crypto (replicate 32 8) demo_store = Inr (Some demo_unspent, s')" using demo_get by blast
  have cr: "collect_removals demo_crypto (demo_record [9] [8] 5) [] [replicate 32 8] demo_store [] 0 = Inr (s', Inr ([(replicate 32 8, demo_unspent)], 5))"
    using s' by (simp add: uint64_eq dput_def din_def)
  obtain q where div: "py_true_div 5 10 = Inr q" by (simp add: py_true_div_def)
  show ?thesis
    by (simp add: demo_additions demo_cost demo_fee cr div add_spendbundle_def demo_limit add_with_cost_def demo_bundle_def SpendBundle_removals_def has_duplicates_def
      din_def Mempool_init_def add_with_fees_def uint64_eq fee_refused_def at_full_capacity_def resolve_conflicts_def check_removals_def
      admit_item_def demo_cond add_to_pool_def fee_per_cost_def dget_def del: collect_removals.simps reserved_fees.simps verify_conditions.simps)
qed

theorem add_spendbundle_accepts_valid_witness:
  "\<exists>item self'. add_spendbundle demo_crypto demo_vm (sort_key fst) 1000 demo_bundle demo_npcs [1] (Some []) demo_manager = Inr ((Some 10, SUCCESS, None), self') \<and>
     map_of (spends (mempool self')) [1] = Some item \<and> valid_item demo_crypto (coin_view demo_store) 1000 (demo_record [9] [8] 5) item"
proof -
  obtain self' where self': "add_spendbundle demo_crypto demo_vm (sort_key fst) 1000 demo_bundle demo_npcs [1] (Some []) demo_manager = Inr ((Some 10, SUCCESS, None), self')"
    using demo_accepted by blast
  show ?thesis
    using add_spendbundle_accepts_valid [OF demo_crypto_ok _ sort_key_sorted_dict demo_manager_ok _ _ self'] self' demo_additions
    by (auto simp: Mempool_init_def din_def)
qed

theorem add_spendbundle_keeps_manager_witness:
  "\<exists>self'. add_spendbundle demo_crypto demo_vm (sort_key fst) 1000 demo_bundle demo_npcs [1] (Some []) demo_manager = Inr ((Some 10, SUCCESS, None), self') \<and>
     manager_ok demo_crypto {} self'"
proof -
  obtain self' where self': "add_spendbundle demo_crypto demo_vm (sort_key fst) 1000 demo_bundle demo_npcs [1] (Some []) demo_manager = Inr ((Some 10, SUCCESS, None), self')"
    using demo_accepted by blast
  show ?thesis
    using add_spendbundle_keeps_manager [OF demo_crypto_ok _ sort_key_sorted_dict demo_manager_ok _ self'] self' demo_additions by auto
qed

theorem create_bundle_from_mempool_valid_witness:
  "\<exists>bundle. create_bundle_from_mempool (sort_key fst) concat [9] (demo_manager\<lparr>mempool := demo_pool\<rparr>) = Some (bundle, [], [demo_coin 1]) \<and>
     distinct (map (Coin_name demo_crypto) [demo_coin 1])"
proof -
  let ?m = "demo_manager\<lparr>mempool := demo_pool\<rparr>"
  have l: "cost_limit ?m = 5500000000" using demo_cost_limit by (simp add: cost_limit_def)
  have "reversed_items (sort_key fst) demo_pool = [demo_item 1 20]" by (simp add: reversed_items_def demo_pool_def)
  then obtain sb where b: "create_bundle_from_mempool (sort_key fst) concat [9] ?m = Some (sb, [], [demo_coin 1])"
    by (simp add: create_bundle_from_mempool_def fits_block_def l demo_record_def)
  show ?thesis using create_bundle_from_mempool_valid [OF sort_key_sorted_dict _ b, of demo_crypto] demo_pool_ok b by auto
qed

lemma demo_wide_pool_ok: "mempool_ok demo_crypto (demo_pool\<lparr>max_size_in_cost := 550000000000\<rparr>)"
  using demo_pool_ok by (auto simp: mempool_ok_def spends_ok_def sorted_ok_def demo_pool_def)

theorem new_peak_keeps_unspent_witness:
  "\<exists>self'. new_peak demo_crypto demo_vm (sort_key fst) 1000 (Some ((demo_record [10] [9] 6)\<lparr>prev_transaction_block_hash := Some [9]\<rparr>)) [demo_unspent]
     (demo_manager\<lparr>mempool := demo_pool\<lparr>max_size_in_cost := 550000000000\<rparr>\<rparr>) = Inr ([], self') \<and> dkeys (spends (mempool self')) = [[1]]"
proof -
  let ?p = "(demo_record [10] [9] 6)\<lparr>prev_transaction_block_hash := Some [9]\<rparr>"
  let ?m = "demo_manager\<lparr>mempool := demo_pool\<lparr>max_size_in_cost := 550000000000\<rparr>\<rparr>"
  have p: "?p \<noteq> demo_record [9] [8] 5" "is_transaction_block ?p" "prev_transaction_block_hash ?p = Some (header_hash (demo_record [9] [8] 5))"
    by (simp_all add: demo_record_def is_transaction_block_def)
  have "mempool_ok demo_crypto (mempool ?m)" using demo_wide_pool_ok by simp
  from new_peak_keeps_unspent [OF sort_key_sorted_dict this _ _ _ p, of "[demo_unspent]" demo_vm 1000]
  show ?thesis by (auto simp: PendingTxCache_init_def demo_pool_def)
qed

end
