(* ===== verification/MerkleSet.thy ===== *)
theory MerkleSet
  imports Coins
begin

text \<open>
  \<^verbatim>\<open>hddcoin/util/merkle_set.py\<close>: the Merkle set that block headers commit to, with its proofs of inclusion and exclusion. Values are
  32-byte strings; \<^verbatim>\<open>sha256\<close> is \<open>hash256\<close> of the parameter record. A method that returns \<^verbatim>\<open>self\<close> returns \<open>None\<close> here, so that the test
  \<^verbatim>\<open>newchild is child\<close> is the test for \<open>None\<close>. The depth of Python's call stack is not bounded.
\<close>

definition EMPTY :: bytes where "EMPTY = [0]"
definition TERMINAL :: bytes where "TERMINAL = [1]"
definition MIDDLE :: bytes where "MIDDLE = [2]"
definition TRUNCATED :: bytes where "TRUNCATED = [3]"

lemmas tags = EMPTY_def TERMINAL_def MIDDLE_def TRUNCATED_def

definition BLANK :: bytes where
  "BLANK = replicate 32 0"

text \<open>The state in \<^verbatim>\<open>prehashed\<close> is the hash of 30 zero bytes and the two tags; a pair of tags that is not in the dictionary is a \<^verbatim>\<open>KeyError\<close>.\<close>

definition hashdown_preimage :: "bytes \<Rightarrow> bytes" where
  "hashdown_preimage mystr = replicate 30 0 @ take 1 mystr @ take 1 (drop 33 mystr) @ take 32 (drop 1 mystr) @ drop 34 mystr"

definition hashdown :: "crypto \<Rightarrow> bytes \<Rightarrow> bytes res" where
  "hashdown E mystr =
     rassert (length mystr = 66)
       (if take 1 mystr \<in> {EMPTY, TERMINAL, MIDDLE} \<and> take 1 (drop 33 mystr) \<in> {EMPTY, TERMINAL, MIDDLE}
        then Inr (take 32 (hash256 E (hashdown_preimage mystr))) else Inl KeyError)"

definition compress_root :: "crypto \<Rightarrow> bytes \<Rightarrow> bytes res" where
  "compress_root E mystr =
     rassert (length mystr = 33)
       (if take 1 mystr = MIDDLE then Inr (drop 1 mystr)
        else if take 1 mystr = EMPTY then rassert (drop 1 mystr = BLANK) (Inr BLANK)
        else Inr (take 32 (hash256 E mystr)))"

definition get_bit :: "bytes \<Rightarrow> nat \<Rightarrow> int res" where
  "get_bit mybytes pos =
     rassert (length mybytes = 32)
       (if pos div 8 < length mybytes
        then Inr (uint (and (drop_bit (7 - pos mod 8) (mybytes ! (pos div 8))) 1)) else Inl IndexError)"

text \<open>The order \<^verbatim>\<open><\<close> of \<^verbatim>\<open>bytes\<close>.\<close>

fun bytes_less :: "bytes \<Rightarrow> bytes \<Rightarrow> bool" where
  "bytes_less xs [] \<longleftrightarrow> False"
| "bytes_less [] (y # ys) \<longleftrightarrow> True"
| "bytes_less (x # xs) (y # ys) \<longleftrightarrow> x < y \<or> x = y \<and> bytes_less xs ys"

section \<open>Nodes\<close>

text \<open>The last argument of a middle node is its \<^verbatim>\<open>hash\<close>.\<close>

datatype Node = EmptyNode | TerminalNode bytes | MiddleNode Node Node bytes | TruncatedNode bytes

fun node_hash :: "Node \<Rightarrow> bytes" where
  "node_hash EmptyNode = BLANK"
| "node_hash (TerminalNode h) = h"
| "node_hash (MiddleNode l r h) = h"
| "node_hash (TruncatedNode h) = h"

fun Node_get_hash :: "Node \<Rightarrow> bytes" where
  "Node_get_hash EmptyNode = EMPTY @ BLANK"
| "Node_get_hash (TerminalNode h) = TERMINAL @ h"
| "Node_get_hash (MiddleNode l r h) = MIDDLE @ h"
| "Node_get_hash (TruncatedNode h) = MIDDLE @ h"

fun is_empty :: "Node \<Rightarrow> bool" where
  "is_empty EmptyNode = True"
| "is_empty _ = False"

fun is_terminal :: "Node \<Rightarrow> bool" where
  "is_terminal (TerminalNode h) = True"
| "is_terminal _ = False"

fun is_double :: "Node \<Rightarrow> bool res" where
  "is_double EmptyNode = Inl SetError"
| "is_double (TerminalNode h) = Inl SetError"
| "is_double (MiddleNode l r h) =
     (if is_empty l then is_double r
      else if is_empty r then is_double l
      else Inr (is_terminal l \<and> is_terminal r))"
| "is_double (TruncatedNode h) = Inr False"

text \<open>The constructors of the classes; \<open>audit_bits\<close> is \<^verbatim>\<open>TerminalNode._audit\<close> without the list of hashes.\<close>

definition audit_bits :: "bytes \<Rightarrow> int list \<Rightarrow> unit res" where
  "audit_bits h bits = rfold (\<lambda>(pos, v) _. rbind (get_bit h pos) (\<lambda>b. rassert (b = v) (Inr ()))) (zip [0..<length bits] bits) ()"

definition TerminalNode_new :: "bytes \<Rightarrow> int list option \<Rightarrow> Node res" where
  "TerminalNode_new h bits =
     rassert (length h = 32)
       (case bits of None \<Rightarrow> Inr (TerminalNode h) | Some bits \<Rightarrow> rbind (audit_bits h bits) (\<lambda>_. Inr (TerminalNode h)))"

definition MiddleNode_new :: "crypto \<Rightarrow> Node \<Rightarrow> Node \<Rightarrow> Node res" where
  "MiddleNode_new E l r =
     rbind (if is_empty l then is_double r else Inr False) (\<lambda>double_right.
       if double_right then Inr (MiddleNode l r (node_hash r))
       else rbind (if is_empty r then is_double l else Inr False) (\<lambda>double_left.
         if double_left then Inr (MiddleNode l r (node_hash l))
         else if is_empty l \<and> (is_empty r \<or> is_terminal r) then Inl SetError
         else if is_empty r \<and> is_terminal l then Inl SetError
         else if is_terminal l \<and> is_terminal r \<and> \<not> bytes_less (node_hash l) (node_hash r) then Inl SetError
         else rbind (hashdown E (Node_get_hash l @ Node_get_hash r)) (\<lambda>h. Inr (MiddleNode l r h))))"

text \<open>\<^verbatim>\<open>_make_middle\<close> recurses as long as the bits of both values agree; \<open>get_bit\<close> fails at depth 256.\<close>

function make_middle :: "crypto \<Rightarrow> bytes \<Rightarrow> bytes \<Rightarrow> nat \<Rightarrow> Node res" where
  "make_middle E a b depth =
     rbind (get_bit a depth) (\<lambda>bit_a. rbind (get_bit b depth) (\<lambda>bit_b.
       if bit_a \<noteq> bit_b then MiddleNode_new E (TerminalNode a) (TerminalNode b)
       else rbind (make_middle E a b (depth + 1)) (\<lambda>m.
              if bit_a = 0 then MiddleNode_new E m EmptyNode else MiddleNode_new E EmptyNode m)))"
  by pat_completeness auto
termination
proof (relation "measure (\<lambda>(E, a, b, depth). 256 - depth)")
  fix E :: crypto and a b depth bit_a bit_b
  assume "get_bit a depth = Inr bit_a"
  then have "depth < 256" by (auto simp: get_bit_def rassert_eq_Inr split: if_splits)
  then show "((E, a, b, depth + 1), E, a, b, depth) \<in> measure (\<lambda>(E, a, b, depth). 256 - depth)" by simp
qed simp

fun node_add :: "crypto \<Rightarrow> Node \<Rightarrow> bytes \<Rightarrow> nat \<Rightarrow> Node option res" where
  "node_add E EmptyNode toadd depth = rbind (TerminalNode_new toadd None) (\<lambda>n. Inr (Some n))"
| "node_add E (TerminalNode h) toadd depth =
     (if toadd = h then Inr None
      else rbind (TerminalNode_new toadd None) (\<lambda>_.
           rbind (if bytes_less h toadd then make_middle E h toadd depth else make_middle E toadd h depth) (\<lambda>m. Inr (Some m))))"
| "node_add E (MiddleNode l r h) toadd depth =
     rbind (get_bit toadd depth) (\<lambda>b.
       if b = 0
       then rbind (node_add E l toadd (depth + 1)) (\<lambda>c. case c of None \<Rightarrow> Inr None | Some n \<Rightarrow> rbind (MiddleNode_new E n r) (\<lambda>m. Inr (Some m)))
       else rbind (node_add E r toadd (depth + 1)) (\<lambda>c. case c of None \<Rightarrow> Inr None | Some n \<Rightarrow> rbind (MiddleNode_new E l n) (\<lambda>m. Inr (Some m))))"
| "node_add E (TruncatedNode h) toadd depth = Inr None"

text \<open>The end of \<^verbatim>\<open>MiddleNode.remove\<close> when the child on the side \<open>b\<close> has become \<open>newchild\<close>.\<close>

definition replace_child :: "crypto \<Rightarrow> int \<Rightarrow> Node \<Rightarrow> Node \<Rightarrow> Node res" where
  "replace_child E b newchild otherchild =
     (if is_empty newchild \<and> is_terminal otherchild then Inr otherchild
      else if is_terminal newchild \<and> is_empty otherchild then Inr newchild
      else if b = 0 then MiddleNode_new E newchild otherchild else MiddleNode_new E otherchild newchild)"

fun node_remove :: "crypto \<Rightarrow> Node \<Rightarrow> bytes \<Rightarrow> nat \<Rightarrow> Node option res" where
  "node_remove E EmptyNode toremove depth = Inr None"
| "node_remove E (TerminalNode h) toremove depth = (if toremove = h then Inr (Some EmptyNode) else Inr None)"
| "node_remove E (MiddleNode l r h) toremove depth =
     rbind (get_bit toremove depth) (\<lambda>b.
       rbind (if b = 0 then node_remove E l toremove (depth + 1) else node_remove E r toremove (depth + 1)) (\<lambda>c.
         case c of
           None \<Rightarrow> Inr None
         | Some n \<Rightarrow> rbind (replace_child E b n (if b = 0 then r else l)) (\<lambda>m. Inr (Some m))))"
| "node_remove E (TruncatedNode h) toremove depth = Inr None"

text \<open>The list of proof fragments is threaded through.\<close>

function node_is_included :: "Node \<Rightarrow> bytes \<Rightarrow> nat \<Rightarrow> bytes list \<Rightarrow> (bool \<times> bytes list) res"
  and other_included :: "Node \<Rightarrow> bytes \<Rightarrow> nat \<Rightarrow> bytes list \<Rightarrow> bool \<Rightarrow> bytes list res" where
  "node_is_included EmptyNode tocheck depth p = Inr (False, p @ [EMPTY])"
| "node_is_included (TerminalNode h) tocheck depth p = Inr (tocheck = h, p @ [TERMINAL @ h])"
| "node_is_included (MiddleNode l r h) tocheck depth p =
     (let p = p @ [MIDDLE] in
      rbind (get_bit tocheck depth) (\<lambda>b.
        if b = 0
        then rbind (node_is_included l tocheck (depth + 1) p) (\<lambda>(res, p).
             rbind (other_included r tocheck (depth + 1) p (\<not> is_empty l)) (\<lambda>p. Inr (res, p)))
        else rbind (other_included l tocheck (depth + 1) p (\<not> is_empty r)) (\<lambda>p. node_is_included r tocheck (depth + 1) p)))"
| "node_is_included (TruncatedNode h) tocheck depth p = Inl SetError"
| "other_included EmptyNode tocheck depth p collapse = Inr (p @ [EMPTY])"
| "other_included (TerminalNode h) tocheck depth p collapse = Inr (p @ [TERMINAL @ h])"
| "other_included (MiddleNode l r h) tocheck depth p collapse =
     rbind (if collapse then Inr False else is_double (MiddleNode l r h)) (\<lambda>double.
       if \<not> double then Inr (p @ [TRUNCATED @ h])
       else rbind (node_is_included (MiddleNode l r h) tocheck depth p) (\<lambda>(res, p). Inr p))"
| "other_included (TruncatedNode h) tocheck depth p collapse = Inr (p @ [TRUNCATED @ h])"
  by pat_completeness auto
termination
  by (relation "measure (case_sum (\<lambda>(t, _). 2 * size t) (\<lambda>(t, _). 2 * size t + 1))") auto

fun node_audit :: "Node \<Rightarrow> bytes list \<Rightarrow> int list \<Rightarrow> bytes list res" where
  "node_audit EmptyNode hashes bits = Inr hashes"
| "node_audit (TerminalNode h) hashes bits = rbind (audit_bits h bits) (\<lambda>_. Inr (hashes @ [h]))"
| "node_audit (MiddleNode l r h) hashes bits = rbind (node_audit l hashes (bits @ [0])) (\<lambda>hashes. node_audit r hashes (bits @ [1]))"
| "node_audit (TruncatedNode h) hashes bits = Inr hashes"

section \<open>Sets and proofs\<close>

record MerkleSet =
  root :: Node

definition MerkleSet_new :: "Node option \<Rightarrow> MerkleSet" where
  "MerkleSet_new n = \<lparr> root = (case n of None \<Rightarrow> EmptyNode | Some n \<Rightarrow> n) \<rparr>"

definition get_root :: "crypto \<Rightarrow> MerkleSet \<Rightarrow> bytes res" where
  "get_root E self = compress_root E (Node_get_hash (root self))"

definition add_already_hashed :: "crypto \<Rightarrow> bytes \<Rightarrow> MerkleSet \<Rightarrow> MerkleSet res" where
  "add_already_hashed E toadd self =
     rbind (node_add E (root self) toadd 0) (\<lambda>n. Inr (case n of None \<Rightarrow> self | Some n \<Rightarrow> self\<lparr>root := n\<rparr>))"

definition remove_already_hashed :: "crypto \<Rightarrow> bytes \<Rightarrow> MerkleSet \<Rightarrow> MerkleSet res" where
  "remove_already_hashed E toremove self =
     rbind (node_remove E (root self) toremove 0) (\<lambda>n. Inr (case n of None \<Rightarrow> self | Some n \<Rightarrow> self\<lparr>root := n\<rparr>))"

definition is_included_already_hashed :: "bytes \<Rightarrow> MerkleSet \<Rightarrow> (bool \<times> bytes) res" where
  "is_included_already_hashed tocheck self = rbind (node_is_included (root self) tocheck 0 []) (\<lambda>(r, p). Inr (r, concat p))"

text \<open>\<^verbatim>\<open>sorted\<close> of the audited hashes is the same list.\<close>

definition MerkleSet_audit :: "MerkleSet \<Rightarrow> unit res" where
  "MerkleSet_audit self =
     rbind (node_audit (root self) [] []) (\<lambda>newhashes. rassert (sorted_wrt (\<lambda>a b. \<not> bytes_less b a) newhashes) (Inr ()))"

text \<open>
  \<^verbatim>\<open>_deserialize\<close> moves forward by at least one byte with each call and fails behind the end, so one more call than the proof has
  bytes is fuel enough.
\<close>

fun deserialize :: "crypto \<Rightarrow> nat \<Rightarrow> bytes \<Rightarrow> nat \<Rightarrow> int list \<Rightarrow> (Node \<times> nat) res" where
  "deserialize E 0 prb pos bits = Inl Diverges"
| "deserialize E (Suc fuel) prb pos bits =
     (let t = take 1 (drop pos prb) in
      if t = EMPTY then Inr (EmptyNode, pos + 1)
      else if t = TERMINAL then rbind (TerminalNode_new (take 32 (drop (pos + 1) prb)) (Some bits)) (\<lambda>n. Inr (n, pos + 33))
      else if t = TRUNCATED then Inr (TruncatedNode (take 32 (drop (pos + 1) prb)), pos + 33)
      else if t \<noteq> MIDDLE then Inl SetError
      else rbind (deserialize E fuel prb (pos + 1) (bits @ [0])) (\<lambda>(v0, pos).
           rbind (deserialize E fuel prb pos (bits @ [1])) (\<lambda>(v1, pos).
           rbind (MiddleNode_new E v0 v1) (\<lambda>m. Inr (m, pos)))))"

definition deserialize_proof :: "crypto \<Rightarrow> bytes \<Rightarrow> MerkleSet res" where
  "deserialize_proof E prb =
     (case deserialize E (length prb + 1) prb 0 [] of
        Inl IndexError \<Rightarrow> Inl SetError
      | Inl e \<Rightarrow> Inl e
      | Inr (r, pos) \<Rightarrow> if pos \<noteq> length prb then Inl SetError else Inr (MerkleSet_new (Some r)))"

definition confirm :: "crypto \<Rightarrow> bytes \<Rightarrow> bytes \<Rightarrow> bytes \<Rightarrow> bool \<Rightarrow> bool res" where
  "confirm E rt val prb expected =
     (case rbind (deserialize_proof E prb) (\<lambda>p. rbind (get_root E p) (\<lambda>r.
              if r \<noteq> rt then Inr False else rbind (is_included_already_hashed val p) (\<lambda>(res, junk). Inr (res = expected)))) of
        Inl SetError \<Rightarrow> Inr False
      | x \<Rightarrow> x)"

definition confirm_included_already_hashed :: "crypto \<Rightarrow> bytes \<Rightarrow> bytes \<Rightarrow> bytes \<Rightarrow> bool res" where
  "confirm_included_already_hashed E rt val prb = confirm E rt val prb True"

definition confirm_not_included_already_hashed :: "crypto \<Rightarrow> bytes \<Rightarrow> bytes \<Rightarrow> bytes \<Rightarrow> bool res" where
  "confirm_not_included_already_hashed E rt val prb = confirm E rt val prb False"

definition confirm_included :: "crypto \<Rightarrow> bytes \<Rightarrow> bytes \<Rightarrow> bytes \<Rightarrow> bool res" where
  "confirm_included E rt val prb = confirm_not_included_already_hashed E rt (hash256 E val) prb"

definition confirm_not_included :: "crypto \<Rightarrow> bytes \<Rightarrow> bytes \<Rightarrow> bytes \<Rightarrow> bool res" where
  "confirm_not_included E rt val prb = confirm_not_included_already_hashed E rt (hash256 E val) prb"

section \<open>Bits and order of values\<close>

definition xbit :: "bytes \<Rightarrow> nat \<Rightarrow> bool" where
  "xbit x i \<longleftrightarrow> bit (x ! (i div 8)) (7 - i mod 8)"

lemma get_bit_eq: "length x = 32 \<Longrightarrow> get_bit x i = (if i < 256 then Inr (of_bool (xbit x i)) else Inl IndexError)"
proof -
  have "uint (and (drop_bit n w) 1) = of_bool (bit w n)" for w :: byte and n
    by (simp add: and_one_eq mod_2_eq_odd bit_iff_odd_drop_bit)
  then show "length x = 32 \<Longrightarrow> get_bit x i = (if i < 256 then Inr (of_bool (xbit x i)) else Inl IndexError)"
    by (auto simp: get_bit_def xbit_def)
qed

lemma byte_less:
  fixes w v :: byte
  assumes "bit w n" "\<not> bit v n" "\<And>m. n < m \<Longrightarrow> m < 8 \<Longrightarrow> bit w m = bit v m"
  shows "v < w"
proof -
  have "bit w m = bit v m" if "n < m" for m using assms(3) [OF that] bit_imp_le_length [of w m] bit_imp_le_length [of v m] by force
  then have "drop_bit (Suc n) w = drop_bit (Suc n) v" by (intro bit_eqI) (simp add: bit_drop_bit_eq)
  then have eq: "unat w div 2 ^ Suc n = unat v div 2 ^ Suc n" by (metis drop_bit_eq_div unat_drop_bit_eq)
  have half: "k div 2 ^ n = 2 * (k div 2 ^ Suc n) + (k div 2 ^ n) mod 2" for k :: nat
    by (simp add: div_mult2_eq mult.commute [of 2] div_mod_decomp)
  have "odd (unat w div 2 ^ n)" "even (unat v div 2 ^ n)"
    using assms(1,2) bit_unsigned_iff [where 'a = nat, of w n] bit_unsigned_iff [where 'a = nat, of v n] by (simp_all add: bit_iff_odd)
  then have "unat v div 2 ^ n < unat w div 2 ^ n" using half [of "unat w"] half [of "unat v"] unfolding eq odd_iff_mod_2_eq_one even_iff_mod_2_eq_zero by linarith
  then have "unat v < unat w" by (meson div_le_mono not_le)
  then show ?thesis by (simp add: word_less_nat_alt)
qed

lemma bytes_lessI:
  "length a = length b \<Longrightarrow> k < length a \<Longrightarrow> (\<And>i. i < k \<Longrightarrow> a ! i = b ! i) \<Longrightarrow> a ! k < b ! k \<Longrightarrow> bytes_less a b"
proof (induction a b arbitrary: k rule: bytes_less.induct)
  case (3 x xs y ys)
  show ?case
  proof (cases k)
    case 0
    then show ?thesis using "3.prems" by simp
  next
    case (Suc j)
    have "x = y" using "3.prems"(3) [of 0] Suc by simp
    moreover have "bytes_less xs ys"
    proof (rule "3.IH" [of j])
      show "xs ! i = ys ! i" if "i < j" for i using "3.prems"(3) [of "Suc i"] Suc that by simp
    qed (use "3.prems" Suc in simp_all)
    ultimately show ?thesis by simp
  qed
qed auto

lemma bytes_less_linear: "length a = length b \<Longrightarrow> a = b \<or> bytes_less a b \<or> bytes_less b a"
  by (induction a b rule: bytes_less.induct) auto

lemma bytes_less_irrefl [simp]: "\<not> bytes_less a a"
  by (induction a) auto

lemma bytes_less_asym: "bytes_less a b \<Longrightarrow> \<not> bytes_less b a"
  by (induction a b rule: bytes_less.induct) auto

lemma bit_position:
  fixes k n :: nat
  assumes "n < 8"
  shows "(8 * k + (7 - n)) div 8 = k" "7 - (8 * k + (7 - n)) mod 8 = n"
proof -
  have "(8 * k + m) div 8 = k" "(8 * k + m) mod 8 = m" if "m < 8" for m using that by simp_all
  from this [of "7 - n"] show "(8 * k + (7 - n)) div 8 = k" "7 - (8 * k + (7 - n)) mod 8 = n" using assms by (simp_all only:)
qed

lemma xbit_ext:
  assumes "length a = 32" "length b = 32" "\<And>i. i < 256 \<Longrightarrow> xbit a i = xbit b i"
  shows "a = b"
proof (rule nth_equalityI)
  fix k
  assume k: "k < length a"
  show "a ! k = b ! k"
  proof (rule bit_eqI)
    fix n
    assume "possible_bit TYPE(byte) n"
    then have n: "n < 8" by simp
    have "8 * k + (7 - n) < 256" using k n assms(1) by simp
    then show "bit (a ! k) n = bit (b ! k) n" using assms(3) [of "8 * k + (7 - n)"] by (simp only: xbit_def bit_position [OF n])
  qed
qed (simp add: assms)

text \<open>The order of two values is that of the first bit in which they differ.\<close>

lemma xbit_less:
  assumes "length a = 32" "length b = 32" "d < 256" "\<And>i. i < d \<Longrightarrow> xbit a i = xbit b i" "xbit b d" "\<not> xbit a d"
  shows "bytes_less a b"
proof -
  let ?k = "d div 8"
  have "a ! i = b ! i" if i: "i < ?k" for i
  proof (rule bit_eqI)
    fix n
    assume "possible_bit TYPE(byte) n"
    then have n: "n < 8" by simp
    have "8 * i + (7 - n) < d" using i n by linarith
    then show "bit (a ! i) n = bit (b ! i) n" using assms(4) [of "8 * i + (7 - n)"] by (simp only: xbit_def bit_position [OF n])
  qed
  moreover have "a ! ?k < b ! ?k"
  proof (rule byte_less)
    show "bit (b ! ?k) (7 - d mod 8)" "\<not> bit (a ! ?k) (7 - d mod 8)" using assms(5,6) by (simp_all add: xbit_def)
    fix m
    assume m: "7 - d mod 8 < m" "m < 8"
    have "8 * ?k + (7 - m) < d" using m by presburger
    then show "bit (b ! ?k) m = bit (a ! ?k) m" using assms(4) [of "8 * ?k + (7 - m)"] by (simp only: xbit_def bit_position [OF m(2)])
  qed
  ultimately show ?thesis using assms(1-3) by (intro bytes_lessI [of a b ?k]) simp_all
qed

section \<open>Well-formed trees\<close>

text \<open>
  \<open>node_ok E bits t\<close>: \<open>t\<close> can stand under the path \<open>bits\<close>. Terminal nodes lie on their path, as \<^verbatim>\<open>_audit\<close> requires, and the hash of
  a middle node is the one its constructor computes. \<open>full\<close> excludes truncated nodes, which only proofs have.
\<close>

definition on_path :: "bool list \<Rightarrow> bytes \<Rightarrow> bool" where
  "on_path bits x \<longleftrightarrow> length x = 32 \<and> length bits \<le> 256 \<and> (\<forall>i < length bits. xbit x i = bits ! i)"

fun elems :: "Node \<Rightarrow> bytes set" where
  "elems (TerminalNode h) = {h}"
| "elems (MiddleNode l r h) = elems l \<union> elems r"
| "elems _ = {}"

fun full :: "Node \<Rightarrow> bool" where
  "full (MiddleNode l r h) \<longleftrightarrow> full l \<and> full r"
| "full (TruncatedNode h) \<longleftrightarrow> False"
| "full _ \<longleftrightarrow> True"

fun node_ok :: "crypto \<Rightarrow> bool list \<Rightarrow> Node \<Rightarrow> bool" where
  "node_ok E bits EmptyNode \<longleftrightarrow> True"
| "node_ok E bits (TerminalNode h) \<longleftrightarrow> on_path bits h"
| "node_ok E bits (MiddleNode l r h) \<longleftrightarrow>
     node_ok E (bits @ [False]) l \<and> node_ok E (bits @ [True]) r \<and> MiddleNode_new E l r = Inr (MiddleNode l r h)"
| "node_ok E bits (TruncatedNode h) \<longleftrightarrow> length h = 32"

lemma on_path_snoc: "on_path (bits @ [b]) x \<longleftrightarrow> on_path bits x \<and> length bits < 256 \<and> xbit x (length bits) = b"
  by (auto simp: on_path_def nth_append less_Suc_eq)

lemma elems_on_path: "node_ok E bits t \<Longrightarrow> x \<in> elems t \<Longrightarrow> on_path bits x"
proof (induction t arbitrary: bits)
  case (MiddleNode l r h)
  then have "on_path (bits @ [False]) x \<or> on_path (bits @ [True]) x" by auto
  then show ?case by (auto simp: on_path_snoc)
qed auto

lemma on_path_less:
  "on_path (bits @ [False]) a \<Longrightarrow> on_path (bits @ [True]) b \<Longrightarrow> bytes_less a b"
  by (intro xbit_less [where d = "length bits"]) (auto simp: on_path_snoc, auto simp: on_path_def)

lemma on_path_get_bit: "on_path bits x \<Longrightarrow> length bits < 256 \<Longrightarrow> get_bit x (length bits) = Inr (of_bool (xbit x (length bits)))"
  by (simp add: on_path_def get_bit_eq)

definition is_middle :: "Node \<Rightarrow> bool" where
  "is_middle t \<longleftrightarrow> \<not> is_empty t \<and> \<not> is_terminal t"

lemma is_middle_simps [simp]:
  "is_middle (MiddleNode l r h)" "is_middle (TruncatedNode h)" "\<not> is_middle EmptyNode" "\<not> is_middle (TerminalNode h)"
  by (simp_all add: is_middle_def)

lemma is_empty_iff: "is_empty t \<longleftrightarrow> t = EmptyNode"
  by (cases t) auto

lemma is_terminal_iff: "is_terminal t \<longleftrightarrow> (\<exists>h. t = TerminalNode h)"
  by (cases t) auto

text \<open>What the constructor of middle nodes refuses.\<close>

definition siblings :: "Node \<Rightarrow> Node \<Rightarrow> bool" where
  "siblings l r \<longleftrightarrow> (is_empty l \<longrightarrow> is_middle r) \<and> (is_empty r \<longrightarrow> is_middle l) \<and>
     (is_terminal l \<and> is_terminal r \<longrightarrow> bytes_less (node_hash l) (node_hash r))"

lemma MiddleNode_new_siblings: "MiddleNode_new E l r = Inr m \<Longrightarrow> siblings l r \<and> (\<exists>h. m = MiddleNode l r h)"
  unfolding MiddleNode_new_def siblings_def is_middle_def
  by (cases l; cases r) (auto split: if_splits elim!: rbind_InrE)

lemma node_ok_double: "node_ok E bits t \<Longrightarrow> is_middle t \<Longrightarrow> \<exists>b. is_double t = Inr b"
proof (induction t arbitrary: bits)
  case (MiddleNode l r h)
  then have sib: "siblings l r" using MiddleNode_new_siblings [of E l r] by auto
  then show ?case
    using MiddleNode.IH(1) [of "bits @ [False]"] MiddleNode.IH(2) [of "bits @ [True]"] MiddleNode.prems(1)
    by (cases "is_empty l"; cases "is_empty r") (simp_all add: siblings_def)
qed auto

lemma length_get_hash: "length (Node_get_hash t) = Suc (length (node_hash t))"
  by (cases t) (auto simp: tags)

lemma take_get_hash: "take 1 (Node_get_hash t) \<in> {EMPTY, TERMINAL, MIDDLE}"
  by (cases t) (auto simp: tags)

lemma hashdown_get_hash:
  assumes "length (node_hash l) = 32" "length (node_hash r) = 32"
  shows "hashdown E (Node_get_hash l @ Node_get_hash r) = Inr (take 32 (hash256 E (hashdown_preimage (Node_get_hash l @ Node_get_hash r))))"
  using assms take_get_hash [of l] take_get_hash [of r] by (simp add: hashdown_def length_get_hash)

lemma MiddleNode_new_hash:
  assumes "crypto_ok E" "MiddleNode_new E l r = Inr (MiddleNode l r h)" "length (node_hash l) = 32" "length (node_hash r) = 32"
  shows "length h = 32"
  using assms by (auto simp: MiddleNode_new_def hashdown_get_hash crypto_ok_def split: if_splits elim!: rbind_InrE)

lemma node_ok_hash: "crypto_ok E \<Longrightarrow> node_ok E bits t \<Longrightarrow> length (node_hash t) = 32"
proof (induction t arbitrary: bits)
  case (MiddleNode l r h)
  then show ?case using MiddleNode_new_hash [of E l r h] by auto
qed (auto simp: BLANK_def on_path_def)

lemma MiddleNode_new_ok:
  assumes "crypto_ok E" "node_ok E (bits @ [False]) l" "node_ok E (bits @ [True]) r" "siblings l r"
  shows "\<exists>h. MiddleNode_new E l r = Inr (MiddleNode l r h) \<and> node_ok E bits (MiddleNode l r h)"
proof -
  have "\<exists>m. MiddleNode_new E l r = Inr m"
    using node_ok_double [OF assms(2)] node_ok_double [OF assms(3)] assms(4)
      hashdown_get_hash [OF node_ok_hash [OF assms(1,2)] node_ok_hash [OF assms(1,3)], of E]
    by (auto simp: MiddleNode_new_def siblings_def is_middle_def is_empty_iff is_terminal_iff)
  then show ?thesis using MiddleNode_new_siblings [of E l r] assms(2,3) by fastforce
qed

section \<open>Operations on well-formed trees\<close>

lemma make_middle_ok:
  assumes "crypto_ok E" "on_path bits a" "on_path bits b" "bytes_less a b"
  shows "\<exists>m. make_middle E a b (length bits) = Inr m \<and> node_ok E bits m \<and> is_middle m \<and> full m \<and> elems m = {a, b}"
  using assms(2-)
proof (induction "256 - length bits" arbitrary: bits)
  case 0
  then have "a = b" by (intro xbit_ext) (auto simp: on_path_def)
  then show ?case using 0 by simp
next
  case (Suc k)
  then have d: "length bits < 256" by simp
  define x y where "x = xbit a (length bits)" and "y = xbit b (length bits)"
  have g: "get_bit a (length bits) = Inr (of_bool x)" "get_bit b (length bits) = Inr (of_bool y)"
    using on_path_get_bit Suc.prems d by (simp_all add: x_def y_def)
  have pa: "on_path (bits @ [x]) a" "on_path (bits @ [y]) b" using Suc.prems d by (simp_all add: on_path_snoc x_def y_def)
  show ?case
  proof (cases "x = y")
    case True
    have "k = 256 - length (bits @ [x])" using Suc.hyps(2) by simp
    from Suc.hyps(1) [OF this pa(1)] obtain m where m: "make_middle E a b (length bits + 1) = Inr m" "node_ok E (bits @ [x]) m" "is_middle m" "full m" "elems m = {a, b}"
      using pa(2) True Suc.prems(3) by auto
    show ?thesis
    proof (cases x)
      case True
      then have "\<exists>h. MiddleNode_new E EmptyNode m = Inr (MiddleNode EmptyNode m h) \<and> node_ok E bits (MiddleNode EmptyNode m h)"
        using m(2,3) by (intro MiddleNode_new_ok [OF assms(1)]) (auto simp: siblings_def is_middle_def)
      then show ?thesis using m g \<open>x = y\<close> True by (subst make_middle.simps) auto
    next
      case False
      then have "\<exists>h. MiddleNode_new E m EmptyNode = Inr (MiddleNode m EmptyNode h) \<and> node_ok E bits (MiddleNode m EmptyNode h)"
        using m(2,3) by (intro MiddleNode_new_ok [OF assms(1)]) (auto simp: siblings_def is_middle_def)
      then show ?thesis using m g \<open>x = y\<close> False by (subst make_middle.simps) auto
    qed
  next
    case False
    have "\<not> x"
    proof
      assume "x"
      then have "bytes_less b a" using on_path_less [of bits b a] pa False by simp
      then show False using Suc.prems(3) bytes_less_asym by blast
    qed
    then have "\<exists>h. MiddleNode_new E (TerminalNode a) (TerminalNode b) = Inr (MiddleNode (TerminalNode a) (TerminalNode b) h) \<and>
        node_ok E bits (MiddleNode (TerminalNode a) (TerminalNode b) h)"
      using pa False Suc.prems(3) by (intro MiddleNode_new_ok [OF assms(1)]) (auto simp: siblings_def)
    then show ?thesis using g False by (subst make_middle.simps) auto
  qed
qed

lemma elems_nonempty: "node_ok E bits t \<Longrightarrow> full t \<Longrightarrow> \<not> is_empty t \<Longrightarrow> elems t \<noteq> {}"
proof (induction t arbitrary: bits)
  case (MiddleNode l r h)
  then have "siblings l r" using MiddleNode_new_siblings [of E l r] by auto
  then have "\<not> is_empty l \<or> \<not> is_empty r" by (auto simp: siblings_def is_middle_def)
  then show ?case using MiddleNode by auto
qed auto

lemma middle_depth:
  assumes "node_ok E bits (MiddleNode l r h)" "full (MiddleNode l r h)"
  shows "length bits < 256"
proof -
  obtain x where "x \<in> elems l \<or> x \<in> elems r" using elems_nonempty [OF assms] by auto
  then have "on_path (bits @ [False]) x \<or> on_path (bits @ [True]) x" using elems_on_path assms(1) by fastforce
  then show ?thesis by (auto simp: on_path_snoc)
qed

text \<open>Adding and removing a value at its path: \<open>None\<close> leaves the tree as it is.\<close>

lemma node_add_ok:
  assumes "crypto_ok E" "node_ok E bits t" "full t" "on_path bits x"
  shows "\<exists>n. node_add E t x (length bits) = Inr n \<and>
    (case n of None \<Rightarrow> x \<in> elems t
     | Some t' \<Rightarrow> node_ok E bits t' \<and> full t' \<and> elems t' = insert x (elems t) \<and> \<not> is_empty t' \<and> (\<not> is_empty t \<longrightarrow> is_middle t'))"
  using assms(2-)
proof (induction t arbitrary: bits)
  case EmptyNode
  then show ?case by (auto simp: TerminalNode_new_def on_path_def)
next
  case (TerminalNode h)
  have h: "on_path bits h" "length x = 32" using TerminalNode.prems by (auto simp: on_path_def)
  show ?case
  proof (cases "x = h")
    case False
    then consider "bytes_less h x" | "bytes_less x h" "\<not> bytes_less h x"
      using bytes_less_linear [of x h] h TerminalNode.prems(3) by (auto simp: on_path_def)
    then show ?thesis
      using make_middle_ok [OF assms(1) h(1) TerminalNode.prems(3)] make_middle_ok [OF assms(1) TerminalNode.prems(3) h(1)] h(2) False
      by cases (auto simp: TerminalNode_new_def is_middle_def)
  qed simp
next
  case (MiddleNode l r h)
  have sib: "siblings l r" using MiddleNode.prems(1) MiddleNode_new_siblings by auto
  have ok: "node_ok E (bits @ [False]) l" "node_ok E (bits @ [True]) r" "full l" "full r" using MiddleNode.prems by auto
  have d: "length bits < 256" using middle_depth MiddleNode.prems by blast
  define b where "b = xbit x (length bits)"
  have p: "on_path (bits @ [b]) x" using MiddleNode.prems(3) d by (simp add: on_path_snoc b_def)
  have g: "get_bit x (length bits) = Inr (of_bool b)" using on_path_get_bit [OF MiddleNode.prems(3) d] by (simp add: b_def)
  show ?case
  proof (cases b)
    case True
    then obtain n where n: "node_add E r x (Suc (length bits)) = Inr n" "case n of None \<Rightarrow> x \<in> elems r
       | Some t' \<Rightarrow> node_ok E (bits @ [True]) t' \<and> full t' \<and> elems t' = insert x (elems r) \<and> \<not> is_empty t' \<and> (\<not> is_empty r \<longrightarrow> is_middle t')"
      using MiddleNode.IH(2) [of "bits @ [True]"] ok p by auto
    show ?thesis
    proof (cases n)
      case (Some t')
      have "siblings l t'" using sib n(2) Some by (auto simp: siblings_def is_middle_def)
      then show ?thesis using MiddleNode_new_ok [OF assms(1) ok(1), of t'] n Some g True ok(3) by auto
    qed (use n g True in auto)
  next
    case False
    then obtain n where n: "node_add E l x (Suc (length bits)) = Inr n" "case n of None \<Rightarrow> x \<in> elems l
       | Some t' \<Rightarrow> node_ok E (bits @ [False]) t' \<and> full t' \<and> elems t' = insert x (elems l) \<and> \<not> is_empty t' \<and> (\<not> is_empty l \<longrightarrow> is_middle t')"
      using MiddleNode.IH(1) [of "bits @ [False]"] ok p by auto
    show ?thesis
    proof (cases n)
      case (Some t')
      have "siblings t' r" using sib n(2) Some by (auto simp: siblings_def is_middle_def)
      then show ?thesis using MiddleNode_new_ok [OF assms(1) _ ok(2), of t'] n Some g False ok(4) by auto
    qed (use n g False in auto)
  qed
qed simp

lemma elems_sides:
  assumes "node_ok E bits (MiddleNode l r h)" "x \<in> elems l \<union> elems r"
  shows "x \<in> elems l \<longleftrightarrow> \<not> xbit x (length bits)" "x \<in> elems r \<longleftrightarrow> xbit x (length bits)"
  using assms elems_on_path [of E "bits @ [False]" l x] elems_on_path [of E "bits @ [True]" r x] by (auto simp: on_path_snoc)

lemma replace_child_ok:
  assumes "crypto_ok E" "node_ok E (bits @ [c]) new" "node_ok E (bits @ [\<not> c]) other" "full new" "full other"
    and "is_empty other \<longrightarrow> \<not> is_empty new"
  shows "\<exists>t. replace_child E (of_bool c) new other = Inr t \<and> node_ok E bits t \<and> full t \<and> elems t = elems new \<union> elems other"
proof -
  have up: "node_ok E bits (TerminalNode h)" if "node_ok E (bits @ [b]) (TerminalNode h)" for b h using that by (simp add: on_path_snoc)
  consider "is_empty new" "is_terminal other" | "is_terminal new" "is_empty other" | "siblings (if c then other else new) (if c then new else other)"
    using assms(2,3,6) on_path_less [of bits] unfolding siblings_def is_middle_def
    by (cases new; cases other; cases c) auto
  then show ?thesis
  proof cases
    case 1
    then show ?thesis using up assms(3,5) by (auto simp: replace_child_def is_empty_iff is_terminal_iff)
  next
    case 2
    then show ?thesis using up assms(2,4) by (auto simp: replace_child_def is_empty_iff is_terminal_iff)
  next
    case 3
    let ?l = "if c then other else new" and ?r = "if c then new else other"
    have "node_ok E (bits @ [False]) ?l" "node_ok E (bits @ [True]) ?r" using assms(2,3) by (cases c; simp)+
    from MiddleNode_new_ok [OF assms(1) this 3] obtain h where h: "MiddleNode_new E ?l ?r = Inr (MiddleNode ?l ?r h)" "node_ok E bits (MiddleNode ?l ?r h)"
      by blast
    have "replace_child E (of_bool c) new other = MiddleNode_new E ?l ?r"
      using 3 by (cases c; cases new; cases other) (simp_all add: replace_child_def siblings_def)
    then have "replace_child E (of_bool c) new other = Inr (MiddleNode ?l ?r h)" using h(1) by (simp only:)
    moreover have "full (MiddleNode ?l ?r h)" "elems (MiddleNode ?l ?r h) = elems new \<union> elems other" using assms(4,5) by auto
    ultimately show ?thesis using h(2) by blast
  qed
qed

lemma node_remove_ok:
  assumes "crypto_ok E" "node_ok E bits t" "full t" "on_path bits x"
  shows "\<exists>n. node_remove E t x (length bits) = Inr n \<and>
    (case n of None \<Rightarrow> x \<notin> elems t | Some t' \<Rightarrow> node_ok E bits t' \<and> full t' \<and> x \<in> elems t \<and> elems t' = elems t - {x} \<and> (is_middle t \<longrightarrow> \<not> is_empty t'))"
  using assms(2-)
proof (induction t arbitrary: bits)
  case (MiddleNode l r h)
  have sib: "siblings l r" using MiddleNode.prems(1) MiddleNode_new_siblings by auto
  have ok: "node_ok E (bits @ [False]) l" "node_ok E (bits @ [True]) r" "full l" "full r" using MiddleNode.prems by auto
  have d: "length bits < 256" using middle_depth MiddleNode.prems by blast
  define b where "b = xbit x (length bits)"
  define child other where "child = (if b then r else l)" and "other = (if b then l else r)"
  have p: "on_path (bits @ [b]) x" using MiddleNode.prems(3) d by (simp add: on_path_snoc b_def)
  have g: "get_bit x (length bits) = Inr (of_bool b)" using on_path_get_bit [OF MiddleNode.prems(3) d] by (simp add: b_def)
  have c: "node_ok E (bits @ [b]) child" "full child" "node_ok E (bits @ [\<not> b]) other" "full other" "is_empty other \<longrightarrow> is_middle child"
    "is_empty child \<longrightarrow> is_middle other"
    using ok sib by (auto simp: child_def other_def siblings_def)
  have el: "elems (MiddleNode l r h) = elems child \<union> elems other" "x \<notin> elems other"
    using elems_on_path [OF c(3), of x] by (auto simp: child_def other_def on_path_snoc b_def)
  have "\<exists>n. node_remove E child x (length (bits @ [b])) = Inr n \<and> (case n of None \<Rightarrow> x \<notin> elems child
     | Some t' \<Rightarrow> node_ok E (bits @ [b]) t' \<and> full t' \<and> x \<in> elems child \<and> elems t' = elems child - {x} \<and> (is_middle child \<longrightarrow> \<not> is_empty t'))"
    using MiddleNode.IH c(1,2) p unfolding child_def by (cases b) (simp_all only: if_True if_False)
  then obtain n where n: "node_remove E child x (Suc (length bits)) = Inr n" "case n of None \<Rightarrow> x \<notin> elems child
     | Some t' \<Rightarrow> node_ok E (bits @ [b]) t' \<and> full t' \<and> x \<in> elems child \<and> elems t' = elems child - {x} \<and> (is_middle child \<longrightarrow> \<not> is_empty t')"
    by auto
  have run: "node_remove E (MiddleNode l r h) x (length bits) =
     (case n of None \<Rightarrow> Inr None | Some n \<Rightarrow> rbind (replace_child E (of_bool b) n other) (\<lambda>m. Inr (Some m)))"
    using g n(1) by (cases b; cases n) (simp_all add: child_def other_def)
  show ?case
  proof (cases n)
    case None
    then show ?thesis using n(2) run el by auto
  next
    case (Some t')
    then have t': "node_ok E (bits @ [b]) t'" "full t'" "x \<in> elems child" "elems t' = elems child - {x}" "is_middle child \<longrightarrow> \<not> is_empty t'"
      using n(2) by auto
    have "is_empty other \<longrightarrow> \<not> is_empty t'" using t'(5) c(5) by blast
    from replace_child_ok [OF assms(1) t'(1) c(3) t'(2) c(4) this] obtain t where t: "replace_child E (of_bool b) t' other = Inr t"
      "node_ok E bits t" "full t" "elems t = elems t' \<union> elems other" by blast
    have "elems t \<noteq> {}"
      using t(4) elems_nonempty [OF c(3,4)] elems_nonempty [OF t'(1,2)] \<open>is_empty other \<longrightarrow> \<not> is_empty t'\<close> by (cases "is_empty other") auto
    then have "\<not> is_empty t" by (cases t) auto
    then show ?thesis using t t' run el Some by auto
  qed
qed auto

text \<open>A well-formed tree is determined by its elements.\<close>

lemma elems_empty_iff: "node_ok E bits t \<Longrightarrow> full t \<Longrightarrow> elems t = {} \<longleftrightarrow> t = EmptyNode"
  using elems_nonempty [of E bits t] by (cases t) auto

lemma middle_two_elems:
  assumes "node_ok E bits t" "full t" "is_middle t"
  shows "elems t \<noteq> {x}"
  using assms
proof (induction t arbitrary: bits)
  case (MiddleNode l r h)
  have sib: "siblings l r" using MiddleNode.prems(1) MiddleNode_new_siblings by auto
  have ok: "node_ok E (bits @ [False]) l" "node_ok E (bits @ [True]) r" "full l" "full r" using MiddleNode.prems by auto
  note ne = elems_empty_iff [OF ok(1,3)] elems_empty_iff [OF ok(2,4)]
  show ?case
  proof
    assume e: "elems (MiddleNode l r h) = {x}"
    show False
    proof (cases "is_empty l \<or> is_empty r")
      case True
      then show False
      proof
        assume "is_empty l"
        then have "is_middle r" "elems r = {x}" using sib e by (auto simp: siblings_def is_empty_iff)
        then show False using MiddleNode.IH(2) [OF ok(2,4)] by simp
      next
        assume "is_empty r"
        then have "is_middle l" "elems l = {x}" using sib e by (auto simp: siblings_def is_empty_iff)
        then show False using MiddleNode.IH(1) [OF ok(1,3)] by simp
      qed
    next
      case False
      then have "elems l \<noteq> {}" "elems r \<noteq> {}" unfolding ne by (auto simp: is_empty_iff)
      moreover have "elems l \<subseteq> {x}" "elems r \<subseteq> {x}" using e by auto
      ultimately have "x \<in> elems l" "x \<in> elems r" by blast+
      then show False using elems_on_path [OF ok(1)] elems_on_path [OF ok(2)] by (auto simp: on_path_snoc)
    qed
  qed
qed auto

lemma canonical:
  assumes "node_ok E bits t" "full t" "node_ok E bits u" "full u" "elems t = elems u"
  shows "t = u"
  using assms
proof (induction t arbitrary: bits u)
  case EmptyNode
  then show ?case using elems_empty_iff [of E bits u] by simp
next
  case (TerminalNode h)
  then show ?case using middle_two_elems [of E bits u h] elems_empty_iff [of E bits u] by (cases u) auto
next
  case (MiddleNode l r h)
  have "elems u \<noteq> {}" "\<And>x. elems u \<noteq> {x}"
    using middle_two_elems [OF MiddleNode.prems(1,2)] elems_nonempty [OF MiddleNode.prems(1,2)] MiddleNode.prems(5) by auto
  then obtain l' r' h' where u: "u = MiddleNode l' r' h'" using MiddleNode.prems(4) by (cases u) auto
  have "x \<in> elems l \<longleftrightarrow> x \<in> elems l'" "x \<in> elems r \<longleftrightarrow> x \<in> elems r'" for x
    using elems_sides [OF MiddleNode.prems(1), of x] elems_sides [of E bits l' r' h' x] MiddleNode.prems(3,5) by (auto simp: u)
  then have e: "elems l = elems l'" "elems r = elems r'" by blast+
  have "l = l'" using MiddleNode.IH(1) [of "bits @ [False]" l'] MiddleNode.prems e by (simp add: u)
  moreover have "r = r'" using MiddleNode.IH(2) [of "bits @ [True]" r'] MiddleNode.prems e by (simp add: u)
  ultimately show ?case using MiddleNode.prems(1,3) by (simp add: u)
qed auto

section \<open>Proofs of well-formed trees\<close>

lemma rfold_checks: "rfold (\<lambda>x _. f x) xs () = Inr () \<longleftrightarrow> (\<forall>x \<in> set xs. f x = Inr ())"
  by (induction xs) (auto simp: rbind_eq_Inr)

lemma audit_bits_iff: "length h = 32 \<Longrightarrow> audit_bits h (map of_bool bits) = Inr () \<longleftrightarrow> on_path bits h"
proof -
  assume h: "length h = 32"
  have f: "(\<lambda>(pos, v) _. rbind (get_bit h pos) (\<lambda>b. rassert (b = v) (Inr ()))) = (\<lambda>y _. rbind (get_bit h (fst y)) (\<lambda>b. rassert (b = snd y) (Inr ())))"
    by (auto simp: fun_eq_iff)
  have "audit_bits h (map of_bool bits) = Inr () \<longleftrightarrow> (\<forall>i < length bits. get_bit h i = Inr (of_bool (bits ! i)))"
    unfolding audit_bits_def f rfold_checks by (simp add: all_set_conv_all_nth rbind_eq_Inr rassert_eq_Inr)
  also have "\<dots> \<longleftrightarrow> on_path bits h"
  proof
    assume a: "\<forall>i < length bits. get_bit h i = Inr (of_bool (bits ! i))"
    have "length bits \<le> 256"
    proof (rule ccontr)
      assume "\<not> length bits \<le> 256"
      then have "get_bit h 256 = Inr (of_bool (bits ! 256))" using a by simp
      then show False using h by (simp add: get_bit_eq)
    qed
    then show "on_path bits h" using a h by (auto simp: on_path_def get_bit_eq split: if_splits)
  qed (use h in \<open>auto simp: on_path_def get_bit_eq\<close>)
  finally show ?thesis .
qed

lemma TerminalNode_new_iff: "TerminalNode_new h (Some (map of_bool bits)) = Inr n \<longleftrightarrow> on_path bits h \<and> n = TerminalNode h"
  using audit_bits_iff [of h bits] unfolding TerminalNode_new_def
  by (cases "length h = 32") (auto simp: rbind_eq_Inr, auto simp: on_path_def)

definition like :: "Node \<Rightarrow> Node \<Rightarrow> bool" where
  "like t u \<longleftrightarrow> Node_get_hash u = Node_get_hash t \<and> is_empty u = is_empty t \<and> is_terminal u = is_terminal t"

lemma like_node_hash: "like t u \<Longrightarrow> node_hash u = node_hash t"
  by (cases t; cases u) (auto simp: like_def tags)

lemma MiddleNode_new_like:
  assumes "MiddleNode_new E l r = Inr (MiddleNode l r h)" "like l l'" "like r r'"
    and "is_empty l \<longrightarrow> is_double r' = is_double r" "is_empty r \<longrightarrow> is_double l' = is_double l"
  shows "MiddleNode_new E l' r' = Inr (MiddleNode l' r' h)" "is_double (MiddleNode l' r' h) = is_double (MiddleNode l r h)"
proof -
  note eq = like_node_hash [OF assms(2)] like_node_hash [OF assms(3)]
  have e: "is_empty l' = is_empty l" "is_empty r' = is_empty r" "is_terminal l' = is_terminal l" "is_terminal r' = is_terminal r"
    "Node_get_hash l' = Node_get_hash l" "Node_get_hash r' = Node_get_hash r"
    using assms(2,3) by (simp_all add: like_def)
  show "is_double (MiddleNode l' r' h) = is_double (MiddleNode l r h)" using assms(4,5) by (simp add: e)
  have "(if is_empty l then is_double r' else Inr False) = (if is_empty l then is_double r else Inr False)"
    "(if is_empty r then is_double l' else Inr False) = (if is_empty r then is_double l else Inr False)"
    using assms(4,5) by simp_all
  then show "MiddleNode_new E l' r' = Inr (MiddleNode l' r' h)"
    using assms(1) unfolding MiddleNode_new_def e eq
    by (auto simp: rbind_eq_Inr split: if_splits)
qed

text \<open>\<open>emits E bits q t\<close>: the fragments \<open>q\<close> are read back as the tree \<open>t\<close>, wherever they stand in a proof.\<close>

definition emits :: "crypto \<Rightarrow> bool list \<Rightarrow> bytes list \<Rightarrow> Node \<Rightarrow> bool" where
  "emits E bits q t \<longleftrightarrow>
     concat q \<noteq> [] \<and>
     (\<forall>pre rest fuel. length (concat q) \<le> fuel \<longrightarrow>
        deserialize E fuel (pre @ concat q @ rest) (length pre) (map of_bool bits) = Inr (t, length pre + length (concat q)))"

lemma emits_leaf:
  "emits E bits [EMPTY] EmptyNode"
  "on_path bits h \<Longrightarrow> emits E bits [TERMINAL @ h] (TerminalNode h)"
  "length h = 32 \<Longrightarrow> emits E bits [TRUNCATED @ h] (TruncatedNode h)"
proof -
  have leaf: "emits E bits [q] t" if q: "q \<noteq> []" "\<And>pre rest f. deserialize E (Suc f) (pre @ q @ rest) (length pre) (map of_bool bits) = Inr (t, length pre + length q)" for q t
    unfolding emits_def
  proof (intro conjI allI impI)
    fix pre rest :: bytes and fuel
    assume "length (concat [q]) \<le> fuel"
    then obtain f where "fuel = Suc f" using q(1) by (cases fuel) auto
    then show "deserialize E fuel (pre @ concat [q] @ rest) (length pre) (map of_bool bits) = Inr (t, length pre + length (concat [q]))" using q(2) by simp
  qed (use q(1) in simp)
  show "emits E bits [EMPTY] EmptyNode" by (rule leaf) (simp_all add: tags)
  show "emits E bits [TERMINAL @ h] (TerminalNode h)" if "on_path bits h"
  proof -
    have "length h = 32" "TerminalNode_new h (Some (map of_bool bits)) = Inr (TerminalNode h)"
      using that by (simp_all add: TerminalNode_new_iff) (simp add: on_path_def)
    then show ?thesis by (intro leaf) (simp_all add: tags)
  qed
  show "emits E bits [TRUNCATED @ h] (TruncatedNode h)" if "length h = 32"
    using that by (intro leaf) (simp_all add: tags)
qed

lemma emits_middle:
  assumes "emits E (bits @ [False]) q0 l" "emits E (bits @ [True]) q1 r" "MiddleNode_new E l r = Inr (MiddleNode l r h)"
  shows "emits E bits (MIDDLE # q0 @ q1) (MiddleNode l r h)"
  unfolding emits_def
proof (intro conjI allI impI)
  fix pre rest :: bytes and fuel
  assume "length (concat (MIDDLE # q0 @ q1)) \<le> fuel"
  then obtain f where f: "fuel = Suc f" "length (concat q0) \<le> f" "length (concat q1) \<le> f" by (cases fuel) (auto simp: tags)
  let ?prb = "pre @ concat (MIDDLE # q0 @ q1) @ rest"
  have "deserialize E f ?prb (length (pre @ MIDDLE)) (map of_bool (bits @ [False])) = Inr (l, length (pre @ MIDDLE) + length (concat q0))"
    using assms(1) [unfolded emits_def, THEN conjunct2, rule_format, OF f(2), of "pre @ MIDDLE" "concat q1 @ rest"] by simp
  moreover have "deserialize E f ?prb (length (pre @ MIDDLE @ concat q0)) (map of_bool (bits @ [True])) =
      Inr (r, length (pre @ MIDDLE @ concat q0) + length (concat q1))"
    using assms(2) [unfolded emits_def, THEN conjunct2, rule_format, OF f(3), of "pre @ MIDDLE @ concat q0" rest] by simp
  ultimately show "deserialize E fuel ?prb (length pre) (map of_bool bits) = Inr (MiddleNode l r h, length pre + length (concat (MIDDLE # q0 @ q1)))"
    using assms(3) by (simp add: f(1) tags algebra_simps)
qed (simp add: tags)

text \<open>
  What \<^verbatim>\<open>is_included\<close> and \<^verbatim>\<open>other_included\<close> append is read back as a tree \<open>u\<close> that hashes like \<open>t\<close>, on which the search for the
  same value takes the same path.
\<close>

definition included_spec :: "crypto \<Rightarrow> bool list \<Rightarrow> bytes \<Rightarrow> Node \<Rightarrow> bool \<Rightarrow> bytes list \<Rightarrow> Node \<Rightarrow> bool" where
  "included_spec E bits x t b q u \<longleftrightarrow>
     (\<forall>p. node_is_included t x (length bits) p = Inr (b, p @ q)) \<and> emits E bits q u \<and> like t u \<and>
     (\<forall>p. \<exists>p'. node_is_included u x (length bits) p = Inr (b, p')) \<and> (is_middle t \<longrightarrow> is_double u = is_double t)"

definition other_spec :: "crypto \<Rightarrow> bool list \<Rightarrow> bytes \<Rightarrow> bool \<Rightarrow> Node \<Rightarrow> bytes list \<Rightarrow> Node \<Rightarrow> bool" where
  "other_spec E bits x collapse t q u \<longleftrightarrow>
     (\<forall>p. other_included t x (length bits) p collapse = Inr (p @ q)) \<and> emits E bits q u \<and> like t u \<and>
     (\<forall>p. \<exists>p'. other_included u x (length bits) p collapse = Inr p') \<and> (\<not> collapse \<and> is_middle t \<longrightarrow> is_double u = is_double t)"

lemma included_middle:
  assumes "node_ok E bits (MiddleNode l r h)" "get_bit x (length bits) = Inr (of_bool s)"
    and "included_spec E (bits @ [s]) x (if s then r else l) b qc c"
    and "other_spec E (bits @ [\<not> s]) x (\<not> is_empty (if s then r else l)) (if s then l else r) qo o'"
  shows "\<exists>q u. included_spec E bits x (MiddleNode l r h) b q u"
proof -
  have sib: "siblings l r" and new: "MiddleNode_new E l r = Inr (MiddleNode l r h)" using assms(1) MiddleNode_new_siblings [of E l r] by auto
  define l' r' where "l' = (if s then o' else c)" and "r' = (if s then c else o')"
  have lk: "like l l'" "like r r'" using assms(3,4) by (cases s; simp add: included_spec_def other_spec_def l'_def r'_def)+
  have d: "is_empty l \<longrightarrow> is_double r' = is_double r" "is_empty r \<longrightarrow> is_double l' = is_double l"
    using assms(3,4) sib by (cases s; simp add: included_spec_def other_spec_def l'_def r'_def siblings_def)+
  note mid = MiddleNode_new_like [OF new lk d]
  have em: "emits E bits (MIDDLE # (if s then qo @ qc else qc @ qo)) (MiddleNode l' r' h)"
    using emits_middle [OF _ _ mid(1)] assms(3,4) by (cases s) (simp_all add: included_spec_def other_spec_def l'_def r'_def)
  have e: "is_empty c = is_empty (if s then r else l)" using assms(3) by (simp add: included_spec_def like_def)
  have "node_is_included (MiddleNode l r h) x (length bits) p = Inr (b, p @ MIDDLE # (if s then qo @ qc else qc @ qo))" for p
    using assms(2-4) by (cases s) (simp_all add: included_spec_def other_spec_def)
  moreover have "\<exists>p'. node_is_included (MiddleNode l' r' h) x (length bits) p = Inr (b, p')" for p
  proof -
    obtain p1 where p1: "node_is_included c x (Suc (length bits)) (p @ [MIDDLE]) = Inr (b, p1)"
      using assms(3) unfolding included_spec_def by (metis length_append_singleton)
    obtain p2 where p2: "other_included o' x (Suc (length bits)) p1 (\<not> is_empty (if s then r else l)) = Inr p2"
      using assms(4) unfolding other_spec_def by (metis length_append_singleton)
    obtain p3 where p3: "other_included o' x (Suc (length bits)) (p @ [MIDDLE]) (\<not> is_empty (if s then r else l)) = Inr p3"
      using assms(4) unfolding other_spec_def by (metis length_append_singleton)
    obtain p4 where p4: "node_is_included c x (Suc (length bits)) p3 = Inr (b, p4)"
      using assms(3) unfolding included_spec_def by (metis length_append_singleton)
    show ?thesis using assms(2) p1 p2 p3 p4 e by (cases s) (simp_all add: l'_def r'_def)
  qed
  moreover have "like (MiddleNode l r h) (MiddleNode l' r' h)" by (simp add: like_def)
  ultimately show ?thesis using em mid(2) unfolding included_spec_def by blast
qed

lemma other_middle:
  assumes "crypto_ok E" "node_ok E bits (MiddleNode l r h)" "included_spec E bits x (MiddleNode l r h) b q u"
  shows "\<exists>q u. other_spec E bits x collapse (MiddleNode l r h) q u"
proof -
  obtain db where db: "is_double (MiddleNode l r h) = Inr db" using node_ok_double [OF assms(2)] by auto
  show ?thesis
  proof (cases "collapse \<or> \<not> db")
    case True
    have "length h = 32" using node_ok_hash [OF assms(1,2)] by simp
    then have "emits E bits [TRUNCATED @ h] (TruncatedNode h)" by (rule emits_leaf)
    moreover have "like (MiddleNode l r h) (TruncatedNode h)" by (simp add: like_def)
    moreover have "other_included (MiddleNode l r h) x (length bits) p collapse = Inr (p @ [TRUNCATED @ h])" for p
      using True db by (cases collapse) simp_all
    ultimately have "other_spec E bits x collapse (MiddleNode l r h) [TRUNCATED @ h] (TruncatedNode h)"
      using True db by (auto simp: other_spec_def)
    then show ?thesis by blast
  next
    case False
    then have c: "\<not> collapse" "db" by auto
    have u: "is_double u = Inr True" "like (MiddleNode l r h) u" using assms(3) db c by (simp_all add: included_spec_def)
    then obtain l' r' h' where u': "u = MiddleNode l' r' h'" by (cases u) (auto simp: like_def)
    have "\<exists>p'. other_included u x (length bits) p collapse = Inr p'" for p
    proof -
      obtain p' where "node_is_included u x (length bits) p = Inr (b, p')" using assms(3) unfolding included_spec_def by blast
      then show ?thesis using u c by (simp add: u')
    qed
    moreover have "other_included (MiddleNode l r h) x (length bits) p collapse = Inr (p @ q)" for p
      using assms(3) db c unfolding included_spec_def by simp
    ultimately have "other_spec E bits x collapse (MiddleNode l r h) q u" using assms(3) by (simp add: other_spec_def included_spec_def)
    then show ?thesis by blast
  qed
qed

lemma included_ok:
  assumes "crypto_ok E" "node_ok E bits t" "full t" "length x = 32"
  shows "(\<exists>b q u. included_spec E bits x t b q u \<and> (on_path bits x \<longrightarrow> b = (x \<in> elems t))) \<and> (\<forall>collapse. \<exists>q u. other_spec E bits x collapse t q u)"
  using assms(2,3)
proof (induction t arbitrary: bits)
  case EmptyNode
  have "included_spec E bits x EmptyNode False [EMPTY] EmptyNode" "other_spec E bits x collapse EmptyNode [EMPTY] EmptyNode" for collapse
    using emits_leaf(1) by (simp_all add: included_spec_def other_spec_def like_def)
  then show ?case by fastforce
next
  case (TerminalNode h)
  then have "emits E bits [TERMINAL @ h] (TerminalNode h)" by (simp add: emits_leaf)
  then have "included_spec E bits x (TerminalNode h) (x = h) [TERMINAL @ h] (TerminalNode h)" "other_spec E bits x collapse (TerminalNode h) [TERMINAL @ h] (TerminalNode h)" for collapse
    by (simp_all add: included_spec_def other_spec_def like_def)
  then show ?case by fastforce
next
  case (MiddleNode l r h)
  have ok: "node_ok E (bits @ [False]) l" "node_ok E (bits @ [True]) r" "full l" "full r" using MiddleNode.prems by auto
  note IH = MiddleNode.IH(1) [OF ok(1,3)] MiddleNode.IH(2) [OF ok(2,4)]
  have d: "length bits < 256" using middle_depth [OF MiddleNode.prems] .
  define s where "s = xbit x (length bits)"
  have g: "get_bit x (length bits) = Inr (of_bool s)" using assms(4) d by (simp add: get_bit_eq s_def)
  have "\<exists>b q u. included_spec E (bits @ [s]) x (if s then r else l) b q u \<and> (on_path (bits @ [s]) x \<longrightarrow> b = (x \<in> elems (if s then r else l)))"
    using IH by (cases s) (simp_all only: if_True if_False)
  then obtain b qc c where c: "included_spec E (bits @ [s]) x (if s then r else l) b qc c" "on_path (bits @ [s]) x \<longrightarrow> b = (x \<in> elems (if s then r else l))"
    by blast
  have "\<exists>q u. other_spec E (bits @ [\<not> s]) x (\<not> is_empty (if s then r else l)) (if s then l else r) q u"
    using IH by (cases s) (simp_all only: if_True if_False not_True_eq_False not_False_eq_True)
  then obtain q u where inc: "included_spec E bits x (MiddleNode l r h) b q u" using included_middle [OF MiddleNode.prems(1) g c(1)] by blast
  have "b = (x \<in> elems (MiddleNode l r h))" if p: "on_path bits x"
  proof -
    have "on_path (bits @ [s]) x" using p d by (simp add: on_path_snoc s_def)
    moreover have "x \<notin> elems (if s then l else r)"
      using elems_on_path [OF ok(1), of x] elems_on_path [OF ok(2), of x] by (auto simp: s_def on_path_snoc)
    ultimately show ?thesis using c(2) by (cases s) auto
  qed
  then show ?case using inc other_middle [OF assms(1) MiddleNode.prems(1) inc] by blast
qed simp

section \<open>Hashes determine trees\<close>

text \<open>A middle node takes the hash of its only child when that child holds exactly two values, and hashes both children otherwise.\<close>

definition shortcut :: "Node \<Rightarrow> Node \<Rightarrow> bool \<Rightarrow> bool" where
  "shortcut l r s \<longleftrightarrow> is_empty (if s then l else r) \<and> is_double (if s then r else l) = Inr True"

definition pair_preimage :: "Node \<Rightarrow> Node \<Rightarrow> bytes" where
  "pair_preimage l r = hashdown_preimage (Node_get_hash l @ Node_get_hash r)"

fun preimages :: "Node \<Rightarrow> bytes set" where
  "preimages (MiddleNode l r h) =
     preimages l \<union> preimages r \<union> (if shortcut l r True \<or> shortcut l r False then {} else {pair_preimage l r})"
| "preimages _ = {}"

lemma middle_hash:
  assumes "crypto_ok E" "node_ok E bits (MiddleNode l r h)"
  shows "shortcut l r s \<Longrightarrow> h = node_hash (if s then r else l)"
    and "\<not> shortcut l r True \<Longrightarrow> \<not> shortcut l r False \<Longrightarrow> h = hash256 E (pair_preimage l r)"
proof -
  have new: "MiddleNode_new E l r = Inr (MiddleNode l r h)" and len: "length (node_hash l) = 32" "length (node_hash r) = 32"
    using assms(2) node_ok_hash [OF assms(1), of "bits @ [False]" l] node_ok_hash [OF assms(1), of "bits @ [True]" r] by auto
  have nn: "\<not> (is_empty l \<and> is_empty r)" using MiddleNode_new_siblings [OF new] by (auto simp: siblings_def is_middle_def)
  show "h = node_hash (if s then r else l)" if "shortcut l r s"
    using new that nn by (cases s) (auto simp: MiddleNode_new_def shortcut_def is_empty_iff)
  have full_hash: "length (hash256 E b) = 32" for b using assms(1) by (simp add: crypto_ok_def)
  show "h = hash256 E (pair_preimage l r)" if ns: "\<not> shortcut l r True" "\<not> shortcut l r False"
  proof -
    have "(if is_empty l then is_double r else Inr False) = Inr False" "(if is_empty r then is_double l else Inr False) = Inr False"
      using node_ok_double [of E "bits @ [False]" l] node_ok_double [of E "bits @ [True]" r] assms(2) ns MiddleNode_new_siblings [OF new]
      by (auto simp: shortcut_def siblings_def)
    then show ?thesis using new hashdown_get_hash [OF len, of E] full_hash
      by (auto simp: MiddleNode_new_def pair_preimage_def split: if_splits)
  qed
qed

lemma pair_preimage_eq:
  assumes "length (node_hash l) = 32" "length (node_hash r) = 32" "length (node_hash l') = 32" "length (node_hash r') = 32"
    and "pair_preimage l r = pair_preimage l' r'"
  shows "Node_get_hash l' = Node_get_hash l \<and> Node_get_hash r' = Node_get_hash r"
proof -
  have split: "Node_get_hash t = take 1 (Node_get_hash t) @ node_hash t" for t by (cases t) (auto simp: tags)
  have pre: "pair_preimage a b = replicate 30 0 @ take 1 (Node_get_hash a) @ take 1 (Node_get_hash b) @ node_hash a @ node_hash b"
    if "length (node_hash a) = 32" "length (node_hash b) = 32" for a b
    using that split [of a] split [of b] length_get_hash [of a] length_get_hash [of b]
    by (cases a; cases b) (auto simp: pair_preimage_def hashdown_preimage_def tags)
  have "length (take 1 (Node_get_hash t)) = 1" for t by (simp add: length_get_hash)
  then show ?thesis using assms(5) unfolding pre [OF assms(1,2)] pre [OF assms(3,4)]
    by (metis (no_types, lifting) append_eq_append_conv assms(1-4) split)
qed

lemma length_pair_preimage: "length (node_hash l) = 32 \<Longrightarrow> length (node_hash r) = 32 \<Longrightarrow> length (pair_preimage l r) = 96"
  by (simp add: pair_preimage_def hashdown_preimage_def length_get_hash)

text \<open>The two values under a chain of shortcuts.\<close>

lemma double_core:
  assumes "crypto_ok E" "node_ok E bits t" "is_double t = Inr True"
  shows "\<exists>a b. on_path bits a \<and> on_path bits b \<and> node_hash t = hash256 E (pair_preimage (TerminalNode a) (TerminalNode b)) \<and>
    pair_preimage (TerminalNode a) (TerminalNode b) \<in> preimages t"
  using assms(2,3)
proof (induction t arbitrary: bits)
  case (MiddleNode l r h)
  have ok: "node_ok E (bits @ [False]) l" "node_ok E (bits @ [True]) r" using MiddleNode.prems by auto
  have nn: "\<not> (is_empty l \<and> is_empty r)" using MiddleNode.prems(1) MiddleNode_new_siblings [of E l r] by (auto simp: siblings_def is_middle_def)
  consider "is_empty l" | "\<not> is_empty l" "is_empty r" | "\<not> is_empty l" "\<not> is_empty r" by blast
  then show ?case
  proof cases
    case 1
    then have s: "shortcut l r True" "is_double r = Inr True" using MiddleNode.prems(2) by (auto simp: shortcut_def)
    then show ?thesis using MiddleNode.IH(2) [OF ok(2)] middle_hash(1) [OF assms(1) MiddleNode.prems(1) s(1)] by (auto simp: on_path_snoc)
  next
    case 2
    then have s: "shortcut l r False" "is_double l = Inr True" using MiddleNode.prems(2) by (auto simp: shortcut_def)
    then show ?thesis using MiddleNode.IH(1) [OF ok(1)] middle_hash(1) [OF assms(1) MiddleNode.prems(1) s(1)] by (auto simp: on_path_snoc)
  next
    case 3
    then obtain a b where ab: "l = TerminalNode a" "r = TerminalNode b" using MiddleNode.prems(2) by (auto simp: is_terminal_iff)
    then have "\<not> shortcut l r s" for s by (simp add: shortcut_def)
    then show ?thesis using middle_hash(2) [OF assms(1) MiddleNode.prems(1)] ok by (auto simp: ab on_path_snoc)
  qed
qed auto

lemma middle_hash_preimage:
  assumes "crypto_ok E" "node_ok E bits (MiddleNode l r h)"
  shows "\<exists>b \<in> preimages (MiddleNode l r h). h = hash256 E b \<and> length b = 96"
proof -
  have ok: "node_ok E (bits @ [False]) l" "node_ok E (bits @ [True]) r" using assms by auto
  note len = node_ok_hash [OF assms(1) ok(1)] node_ok_hash [OF assms(1) ok(2)]
  show ?thesis
  proof (cases "shortcut l r True \<or> shortcut l r False")
    case True
    then obtain s where s: "shortcut l r s" by blast
    then have d: "is_double (if s then r else l) = Inr True" "node_ok E (bits @ [s]) (if s then r else l)" using ok by (cases s; simp add: shortcut_def)+
    from double_core [OF assms(1) d(2,1)] obtain a b where ab: "on_path (bits @ [s]) a" "on_path (bits @ [s]) b"
      "node_hash (if s then r else l) = hash256 E (pair_preimage (TerminalNode a) (TerminalNode b))"
      "pair_preimage (TerminalNode a) (TerminalNode b) \<in> preimages (if s then r else l)" by blast
    have "length (pair_preimage (TerminalNode a) (TerminalNode b)) = 96" using ab(1,2) by (intro length_pair_preimage) (auto simp: on_path_def)
    moreover have "h = hash256 E (pair_preimage (TerminalNode a) (TerminalNode b))" using middle_hash(1) [OF assms s] ab(3) by (simp only:)
    moreover have "pair_preimage (TerminalNode a) (TerminalNode b) \<in> preimages (MiddleNode l r h)" using ab(4) by (cases s) auto
    ultimately show ?thesis by blast
  next
    case False
    then show ?thesis using middle_hash(2) [OF assms] length_pair_preimage [OF len] by auto
  qed
qed

text \<open>Two middle nodes with the same hash have children with the same hashes, at the same sides.\<close>

lemma children_eq:
  assumes "crypto_ok E" "inj_on (hash256 E) S" "node_ok E bits (MiddleNode l r h)" "node_ok E bits (MiddleNode l' r' h)"
    and "preimages (MiddleNode l r h) \<subseteq> S" "preimages (MiddleNode l' r' h) \<subseteq> S"
  shows "Node_get_hash l' = Node_get_hash l \<and> Node_get_hash r' = Node_get_hash r"
proof -
  have core: "\<exists>a b. on_path (bits @ [s]) a \<and> on_path (bits @ [s]) b \<and> h = hash256 E (pair_preimage (TerminalNode a) (TerminalNode b)) \<and>
      pair_preimage (TerminalNode a) (TerminalNode b) \<in> S \<and> is_empty (if s then l else r) \<and> Node_get_hash (if s then r else l) = MIDDLE @ h"
    if m: "node_ok E bits (MiddleNode l r h)" "preimages (MiddleNode l r h) \<subseteq> S" "shortcut l r s" for l r s
  proof -
    have d: "node_ok E (bits @ [s]) (if s then r else l)" "is_double (if s then r else l) = Inr True" "is_empty (if s then l else r)"
      using m(1,3) by (cases s; simp add: shortcut_def)+
    moreover have "Node_get_hash (if s then r else l) = MIDDLE @ node_hash (if s then r else l)"
      using d(2) by (cases "if s then r else l") auto
    moreover have "preimages (if s then r else l) \<subseteq> S" using m(2) by (cases s) auto
    ultimately show ?thesis using double_core [OF assms(1) d(1,2)] middle_hash(1) [OF assms(1) m(1,3)] by (metis subsetD)
  qed
  have direct: "h = hash256 E (pair_preimage l r) \<and> pair_preimage l r \<in> S"
    if "node_ok E bits (MiddleNode l r h)" "preimages (MiddleNode l r h) \<subseteq> S" "\<not> shortcut l r True" "\<not> shortcut l r False" for l r
    using middle_hash(2) [OF assms(1) that(1)] that by auto
  have clash: False
    if m: "node_ok E bits (MiddleNode l r h)" "preimages (MiddleNode l r h) \<subseteq> S" "\<not> shortcut l r True" "\<not> shortcut l r False"
      and n: "node_ok E bits (MiddleNode l' r' h)" "preimages (MiddleNode l' r' h) \<subseteq> S" "shortcut l' r' s" for l r l' r' s
  proof -
    obtain a b where ab: "on_path (bits @ [s]) a" "on_path (bits @ [s]) b" "h = hash256 E (pair_preimage (TerminalNode a) (TerminalNode b))"
      "pair_preimage (TerminalNode a) (TerminalNode b) \<in> S" using core [OF n] by blast
    have ok: "node_ok E (bits @ [False]) l" "node_ok E (bits @ [True]) r" using m(1) by auto
    have "pair_preimage l r = pair_preimage (TerminalNode a) (TerminalNode b)" using direct [OF m] ab(3,4) assms(2) by (metis inj_onD)
    then have "Node_get_hash l = Node_get_hash (TerminalNode a) \<and> Node_get_hash r = Node_get_hash (TerminalNode b)"
      using ab(1,2) node_ok_hash [OF assms(1) ok(1)] node_ok_hash [OF assms(1) ok(2)] by (intro pair_preimage_eq) (auto simp: on_path_def)
    then have "l = TerminalNode a" "r = TerminalNode b" by (cases l; cases r; simp add: tags)+
    then show False using ok ab(1,2) by (auto simp: on_path_snoc)
  qed
  consider (hash) "\<not> shortcut l r True" "\<not> shortcut l r False" "\<not> shortcut l' r' True" "\<not> shortcut l' r' False"
    | (mixed) s where "\<not> shortcut l r True" "\<not> shortcut l r False" "shortcut l' r' s" | (mixed') s where "shortcut l r s" "\<not> shortcut l' r' True" "\<not> shortcut l' r' False"
    | (short) s s' where "shortcut l r s" "shortcut l' r' s'" by blast
  then show ?thesis
  proof cases
    case hash
    have "pair_preimage l r = pair_preimage l' r'"
      using direct [OF assms(3,5) hash(1,2)] direct [OF assms(4,6) hash(3,4)] assms(2) by (metis inj_onD)
    then show ?thesis using assms(1,3,4) node_ok_hash by (intro pair_preimage_eq) auto
  next
    case mixed
    then show ?thesis using clash [OF assms(3,5) mixed(1,2) assms(4,6) mixed(3)] by simp
  next
    case mixed'
    then show ?thesis using clash [OF assms(4,6) mixed'(2,3) assms(3,5) mixed'(1)] by simp
  next
    case short
    obtain a b where ab: "on_path (bits @ [s]) a" "on_path (bits @ [s]) b" "h = hash256 E (pair_preimage (TerminalNode a) (TerminalNode b))"
      "pair_preimage (TerminalNode a) (TerminalNode b) \<in> S" "is_empty (if s then l else r)" "Node_get_hash (if s then r else l) = MIDDLE @ h"
      using core [OF assms(3,5) short(1)] by blast
    obtain a' b' where ab': "on_path (bits @ [s']) a'" "on_path (bits @ [s']) b'" "h = hash256 E (pair_preimage (TerminalNode a') (TerminalNode b'))"
      "pair_preimage (TerminalNode a') (TerminalNode b') \<in> S" "is_empty (if s' then l' else r')" "Node_get_hash (if s' then r' else l') = MIDDLE @ h"
      using core [OF assms(4,6) short(2)] by blast
    have "pair_preimage (TerminalNode a) (TerminalNode b) = pair_preimage (TerminalNode a') (TerminalNode b')"
      using ab(3,4) ab'(3,4) assms(2) by (metis inj_onD)
    then have "Node_get_hash (TerminalNode a') = Node_get_hash (TerminalNode a) \<and> Node_get_hash (TerminalNode b') = Node_get_hash (TerminalNode b)"
      using ab(1,2) ab'(1,2) by (intro pair_preimage_eq) (auto simp: on_path_def)
    then have "s' = s" using ab(1) ab'(1) by (simp add: on_path_snoc tags)
    then show ?thesis using ab(5,6) ab'(5,6) by (cases s) (auto simp: is_empty_iff)
  qed
qed

text \<open>A search that succeeds on a proof with the hash of a well-formed tree gives the answer of that tree.\<close>

lemma proof_sound:
  assumes "crypto_ok E" "inj_on (hash256 E) S"
    and "node_ok E bits t" "full t" "preimages t \<subseteq> S" "node_ok E bits u" "preimages u \<subseteq> S" "Node_get_hash u = Node_get_hash t"
    and "on_path bits x" "node_is_included u x (length bits) p = Inr (b, p')"
  shows "b = (x \<in> elems t)"
  using assms(3-)
proof (induction u arbitrary: bits t p p' b)
  case EmptyNode
  then show ?case by (cases t) (auto simp: tags)
next
  case (TerminalNode h)
  then show ?case by (cases t) (auto simp: tags)
next
  case (MiddleNode l' r' h)
  obtain l r where t: "t = MiddleNode l r h" using MiddleNode.prems(2,6) by (cases t) (auto simp: tags)
  have eq: "Node_get_hash l' = Node_get_hash l" "Node_get_hash r' = Node_get_hash r"
    using children_eq [OF assms(1,2) MiddleNode.prems(1) [unfolded t] MiddleNode.prems(4) MiddleNode.prems(3) [unfolded t] MiddleNode.prems(5)] by auto
  have d: "length bits < 256" using middle_depth MiddleNode.prems(1,2) unfolding t by blast
  define s where "s = xbit x (length bits)"
  have g: "get_bit x (length bits) = Inr (of_bool s)" using on_path_get_bit [OF MiddleNode.prems(7) d] by (simp add: s_def)
  have path: "on_path (bits @ [s]) x" using MiddleNode.prems(7) d by (simp add: on_path_snoc s_def)
  obtain p1 p2 where inc: "node_is_included (if s then r' else l') x (length (bits @ [s])) p1 = Inr (b, p2)"
    using MiddleNode.prems(8) g by (cases s) (auto elim!: rbind_InrE)
  have "b = (x \<in> elems (if s then r else l))"
  proof (cases s)
    case True
    have "b = (x \<in> elems r)" by (rule MiddleNode.IH(2) [of "bits @ [True]" r]) (use MiddleNode.prems path inc eq True in \<open>auto simp: t\<close>)
    then show ?thesis using True by simp
  next
    case False
    have "b = (x \<in> elems l)" by (rule MiddleNode.IH(1) [of "bits @ [False]" l]) (use MiddleNode.prems path inc eq False in \<open>auto simp: t\<close>)
    then show ?thesis using False by simp
  qed
  moreover have "x \<notin> elems (if s then l else r)"
    using elems_on_path [of E "bits @ [False]" l x] elems_on_path [of E "bits @ [True]" r x] MiddleNode.prems(1) by (auto simp: s_def t on_path_snoc)
  ultimately show ?case by (cases s) (auto simp: t)
qed auto

section \<open>Reading proofs\<close>

lemma short_truncated:
  assumes "MiddleNode_new E l r = Inr m" "length (node_hash l) \<le> 32" "length (node_hash r) \<le> 32"
    and "(\<exists>h. l = TruncatedNode h) \<or> (\<exists>h. r = TruncatedNode h)"
  shows "length (node_hash l) = 32 \<and> length (node_hash r) = 32"
proof -
  have "(if is_empty l then is_double r else Inr False) = Inr False \<and> (if is_empty r then is_double l else Inr False) = Inr False"
    using assms(4) MiddleNode_new_siblings [OF assms(1)] by (cases l; cases r) (simp_all add: siblings_def)
  then have "\<exists>h. hashdown E (Node_get_hash l @ Node_get_hash r) = Inr h"
    using assms(1) by (auto simp: MiddleNode_new_def elim!: rbind_InrE split: if_splits)
  then have "length (Node_get_hash l @ Node_get_hash r) = 66" by (auto simp: hashdown_def rassert_eq_Inr)
  then show ?thesis using assms(2,3) by (simp add: length_get_hash)
qed

lemma deserialize_ok:
  assumes "crypto_ok E" "deserialize E fuel prb pos (map of_bool bits) = Inr (t, pos')"
  shows "node_ok E bits t \<or> (\<exists>h. t = TruncatedNode h \<and> length h < 32)"
  using assms(2)
proof (induction fuel arbitrary: pos bits t pos')
  case (Suc fuel)
  let ?t = "take 1 (drop pos prb)"
  consider "?t = EMPTY" | "?t = TERMINAL" | "?t = TRUNCATED" | "?t = MIDDLE" using Suc.prems by (auto simp: Let_def split: if_splits)
  then show ?case
  proof cases
    case 1
    then show ?thesis using Suc.prems by auto
  next
    case 2
    then show ?thesis using Suc.prems by (auto simp: tags TerminalNode_new_iff elim!: rbind_InrE)
  next
    case 3
    then have "t = TruncatedNode (take 32 (drop (pos + 1) prb))" using Suc.prems by (auto simp: tags)
    then show ?thesis by auto
  next
    case 4
    then obtain v0 p0 v1 where v: "deserialize E fuel prb (pos + 1) (map of_bool (bits @ [False])) = Inr (v0, p0)"
      "deserialize E fuel prb p0 (map of_bool (bits @ [True])) = Inr (v1, pos')" "MiddleNode_new E v0 v1 = Inr t"
      using Suc.prems by (auto simp: tags elim!: rbind_InrE)
    note ok = Suc.IH [OF v(1)] Suc.IH [OF v(2)]
    have "length (node_hash v0) \<le> 32" "length (node_hash v1) \<le> 32"
      using ok node_ok_hash [OF assms(1), of "bits @ [False]" v0] node_ok_hash [OF assms(1), of "bits @ [True]" v1] by auto
    then have "node_ok E (bits @ [False]) v0" "node_ok E (bits @ [True]) v1" using ok short_truncated [OF v(3)] by auto
    then show ?thesis using MiddleNode_new_siblings [OF v(3)] v(3) by auto
  qed
qed simp

text \<open>The fuel of \<open>deserialize_proof\<close> is enough.\<close>

lemma rbind_eq_Inl: "rbind m f = Inl e \<longleftrightarrow> m = Inl e \<or> (\<exists>x. m = Inr x \<and> f x = Inl e)"
  by (cases m) simp_all

lemma MiddleNode_new_halts: "MiddleNode_new E l r \<noteq> Inl Diverges"
proof -
  have "is_double t \<noteq> Inl Diverges" for t by (induction t) auto
  moreover have "hashdown E m \<noteq> Inl Diverges" for m by (simp add: hashdown_def rassert_def)
  ultimately show ?thesis unfolding MiddleNode_new_def by (simp add: rbind_eq_Inl)
qed

lemma audit_bits_halts: "audit_bits h bits \<noteq> Inl Diverges"
proof -
  have "rfold (\<lambda>(pos, v) _. rbind (get_bit h pos) (\<lambda>b. rassert (b = v) (Inr ()))) l u \<noteq> Inl Diverges" for l u
    by (induction l arbitrary: u) (auto simp: rbind_def rassert_def get_bit_def split: sum.splits if_splits)
  then show ?thesis by (simp add: audit_bits_def)
qed

lemma deserialize_halts:
  "0 < fuel \<Longrightarrow> length prb < fuel + pos \<Longrightarrow> deserialize E fuel prb pos bits \<noteq> Inl Diverges \<and> (\<forall>t pos'. deserialize E fuel prb pos bits = Inr (t, pos') \<longrightarrow> pos < pos')"
proof (induction fuel arbitrary: pos bits)
  case (Suc fuel)
  let ?t = "take 1 (drop pos prb)"
  show ?case
  proof (cases "?t = MIDDLE")
    case True
    then have "pos < length prb" by (cases "pos < length prb") (auto simp: tags)
    then have f: "0 < fuel" "length prb < fuel + (pos + 1)" using Suc.prems by simp_all
    note one = Suc.IH [OF f, of "bits @ [0]"]
    show ?thesis
    proof (cases "deserialize E fuel prb (pos + 1) (bits @ [0])")
      case (Inl e)
      then show ?thesis using one True by (simp add: tags)
    next
      case (Inr vp)
      obtain v0 p0 where vp: "vp = (v0, p0)" by (cases vp)
      have "pos + 1 < p0" using one Inr by (simp add: vp)
      then have "length prb < fuel + p0" using Suc.prems by simp
      note two = Suc.IH [OF f(1) this, of "bits @ [1]"]
      show ?thesis
      proof (cases "deserialize E fuel prb p0 (bits @ [1])")
        case (Inl e)
        then show ?thesis using two True Inr by (simp add: tags vp)
      next
        case (Inr wp)
        then show ?thesis
          using two True \<open>pos + 1 < p0\<close> \<open>deserialize E fuel prb (pos + 1) (bits @ [0]) = Inr vp\<close> MiddleNode_new_halts [of E v0 "fst wp"]
          by (cases wp) (auto simp: tags vp rbind_def split: sum.splits)
      qed
    qed
  next
    case False
    then show ?thesis using audit_bits_halts
      by (auto simp: Let_def TerminalNode_new_def rbind_def rassert_def split: sum.splits)
  qed
qed simp

section \<open>Merkle sets as sets\<close>

definition set_ok :: "crypto \<Rightarrow> MerkleSet \<Rightarrow> bool" where
  "set_ok E s \<longleftrightarrow> node_ok E [] (root s) \<and> full (root s)"

definition values_of :: "MerkleSet \<Rightarrow> bytes set" where
  "values_of s = elems (root s)"

text \<open>What is hashed for the root of a set.\<close>

definition set_preimages :: "MerkleSet \<Rightarrow> bytes set" where
  "set_preimages s = preimages (root s) \<union> (if is_terminal (root s) then {Node_get_hash (root s)} else {})"

text \<open>A set of byte strings without a collision and without a preimage of the blank hash.\<close>

definition collision_free :: "crypto \<Rightarrow> bytes set \<Rightarrow> bool" where
  "collision_free E S \<longleftrightarrow> inj_on (hash256 E) S \<and> BLANK \<notin> hash256 E ` S"

lemma on_path_Nil [simp]: "on_path [] x \<longleftrightarrow> length x = 32"
  by (simp add: on_path_def)

lemma compress_root_total:
  assumes "crypto_ok E" "node_ok E bits t"
  shows "\<exists>rt. compress_root E (Node_get_hash t) = Inr rt"
  using node_ok_hash [OF assms] by (cases t) (auto simp: compress_root_def tags BLANK_def)

lemma compress_root_eq:
  assumes "crypto_ok E" "collision_free E (set_preimages s \<union> set_preimages p)"
    and "node_ok E [] (root s)" "node_ok E [] (root p)" "\<forall>h. root s \<noteq> TruncatedNode h" "\<forall>h. root p \<noteq> TruncatedNode h"
    and "get_root E s = get_root E p"
  shows "Node_get_hash (root p) = Node_get_hash (root s)"
proof -
  let ?S = "set_preimages s \<union> set_preimages p"
  have inj: "inj_on (hash256 E) ?S" and blank: "BLANK \<notin> hash256 E ` ?S" using assms(2) by (simp_all add: collision_free_def)
  have full_hash: "take 32 (hash256 E b) = hash256 E b" for b using assms(1) by (simp add: crypto_ok_def)
  have rt: "compress_root E (Node_get_hash t) = Inr (case t of EmptyNode \<Rightarrow> BLANK | TerminalNode h \<Rightarrow> hash256 E (Node_get_hash t) | _ \<Rightarrow> node_hash t)"
    if "node_ok E [] t" for t
    using node_ok_hash [OF assms(1) that] full_hash by (cases t) (auto simp: compress_root_def tags BLANK_def)
  have mid: "\<exists>b \<in> set_preimages q. h = hash256 E b \<and> length b = 96" if "root q = MiddleNode l r h" "node_ok E [] (root q)" for q l r h
    using middle_hash_preimage [OF assms(1), of "[]" l r h] that by (auto simp: set_preimages_def)
  have ter: "Node_get_hash (root q) \<in> set_preimages q \<and> length (Node_get_hash (root q)) = 33" if "root q = TerminalNode h" "node_ok E [] (root q)" for q h
    using that by (simp add: set_preimages_def tags)
  have eq: "(case root s of EmptyNode \<Rightarrow> BLANK | TerminalNode h \<Rightarrow> hash256 E (Node_get_hash (root s)) | _ \<Rightarrow> node_hash (root s)) =
     (case root p of EmptyNode \<Rightarrow> BLANK | TerminalNode h \<Rightarrow> hash256 E (Node_get_hash (root p)) | _ \<Rightarrow> node_hash (root p))"
    using assms(7) rt [OF assms(3)] rt [OF assms(4)] by (simp add: get_root_def)
  have mt: False if m: "root q = MiddleNode l r h" "node_ok E [] (root q)" "root q' = TerminalNode h'" "node_ok E [] (root q')"
      "h = hash256 E (Node_get_hash (root q'))" "set_preimages q \<union> set_preimages q' \<subseteq> ?S" for q q' l r h h'
  proof -
    obtain b where b: "b \<in> set_preimages q" "h = hash256 E b" "length b = 96" using mid [OF m(1,2)] by blast
    then have "b = Node_get_hash (root q')" using inj ter [OF m(3,4)] m(5,6) by (metis inj_onD Un_subset_iff subsetD)
    then show False using b(3) ter [OF m(3,4)] by simp
  qed
  have nb: "hash256 E b \<noteq> BLANK" if "b \<in> set_preimages s \<or> b \<in> set_preimages p" for b using blank that by (metis UnCI image_eqI)
  show ?thesis
  proof (cases "root s"; cases "root p")
    fix h
    assume c: "root s = EmptyNode" "root p = TerminalNode h"
    then show ?thesis using eq nb [of "Node_get_hash (root p)"] ter [OF c(2) assms(4)] by auto
  next
    fix l r h
    assume c: "root s = EmptyNode" "root p = MiddleNode l r h"
    obtain b where "b \<in> set_preimages p" "h = hash256 E b" using mid [OF c(2) assms(4)] by blast
    then show ?thesis using eq nb [of b] c by simp
  next
    fix h
    assume c: "root s = TerminalNode h" "root p = EmptyNode"
    then show ?thesis using eq nb [of "Node_get_hash (root s)"] ter [OF c(1) assms(3)] by auto
  next
    fix l r h
    assume c: "root s = MiddleNode l r h" "root p = EmptyNode"
    obtain b where "b \<in> set_preimages s" "h = hash256 E b" using mid [OF c(1) assms(3)] by blast
    then show ?thesis using eq nb [of b] c by simp
  next
    fix h h'
    assume c: "root s = TerminalNode h" "root p = TerminalNode h'"
    then have "hash256 E (Node_get_hash (root s)) = hash256 E (Node_get_hash (root p))" using eq by simp
    then show ?thesis using inj ter [OF c(1) assms(3)] ter [OF c(2) assms(4)] by (metis UnI1 UnI2 inj_onD)
  next
    fix h l' r' h'
    assume c: "root s = TerminalNode h" "root p = MiddleNode l' r' h'"
    then show ?thesis using mt [OF c(2) assms(4) c(1) assms(3)] eq by (simp add: Un_commute)
  next
    fix l r h h'
    assume c: "root s = MiddleNode l r h" "root p = TerminalNode h'"
    then show ?thesis using mt [OF c(1) assms(3) c(2) assms(4)] eq by simp
  next
    fix l r h l' r' h'
    assume c: "root s = MiddleNode l r h" "root p = MiddleNode l' r' h'"
    then show ?thesis using eq by simp
  qed (use assms(5,6) in simp_all)
qed

section \<open>The interface of a hashed set\<close>

text \<open>What the validators of block roots need: from the empty set, a value at a time can be added without failure.\<close>

locale hashed_set =
  fixes good :: "'e \<Rightarrow> bool" and valid :: "'a \<Rightarrow> bool" and empty_set :: 's and add :: "'e \<Rightarrow> 'a \<Rightarrow> 's \<Rightarrow> 's res"
    and invar :: "'e \<Rightarrow> 's \<Rightarrow> bool" and contents :: "'s \<Rightarrow> 'a set"
  assumes empty: "good e \<Longrightarrow> invar e empty_set" "contents empty_set = {}"
    and add: "good e \<Longrightarrow> invar e s \<Longrightarrow> valid x \<Longrightarrow> \<exists>s'. add e x s = Inr s' \<and> invar e s' \<and> contents s' = insert x (contents s)"
begin

lemma add_all_from:
  assumes "good e" "invar e s" "\<forall>x \<in> set xs. valid x"
  shows "\<exists>s'. rfold (add e) xs s = Inr s' \<and> invar e s' \<and> contents s' = contents s \<union> set xs"
  using assms(2,3)
proof (induction xs arbitrary: s)
  case (Cons x xs)
  obtain s1 where s1: "add e x s = Inr s1" "invar e s1" "contents s1 = insert x (contents s)"
    using add [OF assms(1) Cons.prems(1), of x] Cons.prems(2) by auto
  then obtain s' where "rfold (add e) xs s1 = Inr s'" "invar e s'" "contents s' = contents s1 \<union> set xs"
    using Cons.IH [OF s1(2)] Cons.prems(2) by auto
  then show ?case using s1 by auto
qed simp

lemma add_all:
  assumes "good e" "\<forall>x \<in> set xs. valid x"
  shows "\<exists>s'. rfold (add e) xs empty_set = Inr s' \<and> invar e s' \<and> contents s' = set xs"
  using add_all_from [OF assms(1) empty(1) [OF assms(1)] assms(2)] empty(2) by auto

end

lemma add_already_hashed_ok:
  assumes "crypto_ok E" "set_ok E s" "length x = 32"
  shows "\<exists>s'. add_already_hashed E x s = Inr s' \<and> set_ok E s' \<and> values_of s' = insert x (values_of s)"
proof -
  obtain n where n: "node_add E (root s) x 0 = Inr n" "case n of None \<Rightarrow> x \<in> elems (root s)
     | Some t' \<Rightarrow> node_ok E [] t' \<and> full t' \<and> elems t' = insert x (elems (root s)) \<and> \<not> is_empty t' \<and> (\<not> is_empty (root s) \<longrightarrow> is_middle t')"
    using node_add_ok [OF assms(1), of "[]" "root s" x] assms(2,3) by (auto simp: set_ok_def)
  show ?thesis using n assms(2) by (cases n) (auto simp: add_already_hashed_def set_ok_def values_of_def)
qed

lemma remove_already_hashed_ok:
  assumes "crypto_ok E" "set_ok E s" "length x = 32"
  shows "\<exists>s'. remove_already_hashed E x s = Inr s' \<and> set_ok E s' \<and> values_of s' = values_of s - {x}"
proof -
  obtain n where n: "node_remove E (root s) x 0 = Inr n" "case n of None \<Rightarrow> x \<notin> elems (root s)
     | Some t' \<Rightarrow> node_ok E [] t' \<and> full t' \<and> x \<in> elems (root s) \<and> elems t' = elems (root s) - {x} \<and> (is_middle (root s) \<longrightarrow> \<not> is_empty t')"
    using node_remove_ok [OF assms(1), of "[]" "root s" x] assms(2,3) by (auto simp: set_ok_def)
  show ?thesis using n assms(2) by (cases n) (auto simp: remove_already_hashed_def set_ok_def values_of_def)
qed

lemma is_included_ok:
  assumes "crypto_ok E" "set_ok E s" "length x = 32"
  shows "\<exists>q u. is_included_already_hashed x s = Inr (x \<in> values_of s, concat q) \<and> included_spec E [] x (root s) (x \<in> values_of s) q u"
proof -
  obtain b q u where q: "included_spec E [] x (root s) b q u" "b = (x \<in> elems (root s))"
    using included_ok [OF assms(1), of "[]" "root s" x] assms(2,3) by (auto simp: set_ok_def)
  have "node_is_included (root s) x 0 [] = Inr (b, q)" using q(1) unfolding included_spec_def by (metis append_Nil list.size(3))
  then have "is_included_already_hashed x s = Inr (x \<in> values_of s, concat q)" using q(2) by (simp add: is_included_already_hashed_def values_of_def)
  then show ?thesis using q by (auto simp: values_of_def)
qed

interpretation ms: hashed_set crypto_ok "\<lambda>x. length x = 32" "MerkleSet_new None" add_already_hashed set_ok values_of
proof
  show "set_ok e (MerkleSet_new None)" "values_of (MerkleSet_new None) = {}" for e
    by (simp_all add: set_ok_def values_of_def MerkleSet_new_def)
qed (rule add_already_hashed_ok)

section \<open>Properties\<close>

text \<open>
  C13. A Merkle set implements a set of 32-byte values: on a well-formed tree adding, removing and looking up a value
  never fail, adding and removing give well-formed trees with exactly the values expected, and the lookup answers
  whether the value is in the set.
\<close>

theorem merkle_set_refines:
  assumes "crypto_ok E" "set_ok E s" "length x = 32"
  shows "(\<exists>s'. add_already_hashed E x s = Inr s' \<and> set_ok E s' \<and> values_of s' = insert x (values_of s)) \<and>
    (\<exists>s'. remove_already_hashed E x s = Inr s' \<and> set_ok E s' \<and> values_of s' = values_of s - {x}) \<and>
    (\<exists>prb. is_included_already_hashed x s = Inr (x \<in> values_of s, prb))"
  using add_already_hashed_ok [OF assms] remove_already_hashed_ok [OF assms] is_included_ok [OF assms] by blast

lemma full_not_truncated: "full t \<Longrightarrow> t \<noteq> TruncatedNode h"
  by auto

lemma root_commits:
  assumes "crypto_ok E" "set_ok E s" "set_ok E s'" "collision_free E (set_preimages s \<union> set_preimages s')"
  shows "(\<exists>rt. get_root E s = Inr rt) \<and> (get_root E s = get_root E s' \<longleftrightarrow> values_of s = values_of s')"
proof (intro conjI iffI)
  have ok: "node_ok E [] (root s)" "full (root s)" "node_ok E [] (root s')" "full (root s')" using assms(2,3) by (simp_all add: set_ok_def)
  show "\<exists>rt. get_root E s = Inr rt" using compress_root_total [OF assms(1) ok(1)] by (simp add: get_root_def)
  show "get_root E s = get_root E s'" if "values_of s = values_of s'"
    using canonical [OF ok] that by (simp add: values_of_def get_root_def)
  show "values_of s = values_of s'" if eq: "get_root E s = get_root E s'"
  proof -
    have h: "Node_get_hash (root s') = Node_get_hash (root s)"
      using compress_root_eq [OF assms(1,4) ok(1,3) _ _ eq] full_not_truncated ok(2,4) by blast
    have inj: "inj_on (hash256 E) (set_preimages s \<union> set_preimages s')" using assms(4) by (simp add: collision_free_def)
    have mem: "x \<in> elems (root s) \<longleftrightarrow> x \<in> elems (root s')" if x: "length x = 32" for x
    proof -
      obtain b q u where "included_spec E [] x (root s') b q u" "b = (x \<in> elems (root s'))"
        using included_ok [OF assms(1) ok(3,4) x] x by auto
      then have "node_is_included (root s') x (length []) [] = Inr (x \<in> elems (root s'), q)" by (simp add: included_spec_def)
      from proof_sound [OF assms(1) inj ok(1,2) _ ok(3) _ h _ this] show ?thesis using x by (auto simp: set_preimages_def)
    qed
    have "length x = 32" if "x \<in> elems (root s) \<union> elems (root s')" for x
      using elems_on_path [OF ok(1), of x] elems_on_path [OF ok(3), of x] that by auto
    then show ?thesis using mem by (auto simp: values_of_def)
  qed
qed

text \<open>
  C12. The root of a Merkle set is always defined and commits to its values: it depends on the values only, not on the
  order in which they were added or on values removed again, and two sets with the same root have the same values
  unless the hash function has a collision among the strings that were hashed or one of them hashes to 32 zero bytes.
\<close>

theorem merkle_root_commits:
  assumes "crypto_ok E" "set_ok E s" "set_ok E s'" "collision_free E (set_preimages s \<union> set_preimages s')"
  shows "(\<exists>rt. get_root E s = Inr rt) \<and> (get_root E s = get_root E s' \<longleftrightarrow> values_of s = values_of s')"
  using assms by (rule root_commits)

lemma merkle_answer:
  assumes "crypto_ok E" "set_ok E s" "length x = 32" "get_root E s = Inr rt" "is_included_already_hashed x s = Inr (b, prb)"
  shows "b = (x \<in> values_of s) \<and> confirm_included_already_hashed E rt x prb = Inr b \<and> confirm_not_included_already_hashed E rt x prb = Inr (\<not> b)"
proof -
  obtain q u where q: "is_included_already_hashed x s = Inr (x \<in> values_of s, concat q)" "included_spec E [] x (root s) (x \<in> values_of s) q u"
    using is_included_ok [OF assms(1-3)] by blast
  then have b: "b = (x \<in> values_of s)" "prb = concat q" using assms(5) by simp_all
  have "deserialize E (length prb + 1) ([] @ concat q @ []) (length ([] :: bytes)) (map of_bool []) = Inr (u, length ([] :: bytes) + length (concat q))"
    using q(2) b(2) unfolding included_spec_def emits_def by (metis le_add1)
  then have d: "deserialize_proof E prb = Inr \<lparr> root = u \<rparr>" by (simp add: deserialize_proof_def b(2) MerkleSet_new_def)
  have r: "get_root E \<lparr> root = u \<rparr> = Inr rt" using assms(4) q(2) by (simp add: get_root_def included_spec_def like_def)
  obtain p' where "node_is_included u x 0 [] = Inr (b, p')" using q(2) b(1) by (auto simp: included_spec_def)
  then have "is_included_already_hashed x \<lparr> root = u \<rparr> = Inr (b, concat p')" by (simp add: is_included_already_hashed_def)
  then show ?thesis
    using b(1) d r by (simp add: confirm_included_already_hashed_def confirm_not_included_already_hashed_def confirm_def)
qed

text \<open>
  C11. Proofs are complete: the proof that a set returns with the answer of a lookup is accepted by whoever knows the
  root, for inclusion when the value is in the set and for exclusion when it is not, and is refused for the opposite.
\<close>

theorem merkle_proof_complete:
  assumes "crypto_ok E" "set_ok E s" "length x = 32" "get_root E s = Inr rt" "is_included_already_hashed x s = Inr (b, prb)"
  shows "b = (x \<in> values_of s) \<and> confirm_included_already_hashed E rt x prb = Inr b \<and> confirm_not_included_already_hashed E rt x prb = Inr (\<not> b)"
  using merkle_answer [OF assms] .

text \<open>
  C10. Proofs are sound: whatever byte string is presented as a proof against the root of a set, if it is accepted for
  inclusion the value is in the set and if it is accepted for exclusion it is not, unless the hash function has a
  collision among the strings hashed for the set and for the tree that the proof describes.
\<close>

theorem merkle_proof_sound:
  assumes "crypto_ok E" "set_ok E s" "length x = 32" "get_root E s = Inr rt"
    and "\<forall>p. deserialize_proof E prb = Inr p \<longrightarrow> collision_free E (set_preimages s \<union> set_preimages p)"
  shows "(confirm_included_already_hashed E rt x prb = Inr True \<longrightarrow> x \<in> values_of s) \<and>
    (confirm_not_included_already_hashed E rt x prb = Inr True \<longrightarrow> x \<notin> values_of s)"
proof -
  have ok: "node_ok E [] (root s)" "full (root s)" using assms(2) by (simp_all add: set_ok_def)
  have "expected = (x \<in> values_of s)" if c: "confirm E rt x prb expected = Inr True" for expected
  proof -
    obtain p b pf where p: "deserialize_proof E prb = Inr p" "get_root E p = Inr rt" "is_included_already_hashed x p = Inr (b, pf)" "b = expected"
      using c unfolding confirm_def by (auto simp: rbind_def split: sum.splits py_exc.splits if_splits)
    obtain pos where d: "deserialize E (length prb + 1) prb 0 (map of_bool []) = Inr (root p, pos)"
      using p(1) by (auto simp: deserialize_proof_def MerkleSet_new_def split: sum.splits py_exc.splits if_splits)
    obtain pf' where inc: "node_is_included (root p) x (length ([] :: bool list)) [] = Inr (b, pf')"
      using p(3) by (auto simp: is_included_already_hashed_def elim!: rbind_InrE)
    have nt: "\<forall>h. root p \<noteq> TruncatedNode h" using inc by auto
    then have okp: "node_ok E [] (root p)" using deserialize_ok [OF assms(1) d] by blast
    have cf: "collision_free E (set_preimages s \<union> set_preimages p)" using assms(5) p(1) by blast
    have "Node_get_hash (root p) = Node_get_hash (root s)"
      using compress_root_eq [OF assms(1) cf ok(1) okp _ nt] full_not_truncated ok(2) assms(4) p(2) by auto
    then have "b = (x \<in> elems (root s))"
      using proof_sound [OF assms(1) _ ok _ okp _ _ _ inc, of "set_preimages s \<union> set_preimages p"] cf assms(3)
      by (auto simp: collision_free_def set_preimages_def)
    then show ?thesis using p(4) by (simp add: values_of_def)
  qed
  then show ?thesis by (auto simp: confirm_included_already_hashed_def confirm_not_included_already_hashed_def)
qed

section \<open>A concrete set\<close>

text \<open>The function \<open>demo_crypto\<close> hashes to a prefix, so the root of two values is known.\<close>

definition demo_value :: "byte \<Rightarrow> bytes" where
  "demo_value k = replicate 32 k"

definition demo_set :: MerkleSet where
  "demo_set = \<lparr> root = MiddleNode (TerminalNode (demo_value 0)) (TerminalNode (demo_value 255)) (replicate 30 0 @ [1, 1]) \<rparr>"

lemma demo_value_simps [simp]:
  "length (demo_value k) = 32" "xbit (demo_value 0) 0 = False" "xbit (demo_value 255) 0 = True" "bytes_less (demo_value 0) (demo_value 255)"
proof -
  have "replicate 32 k = k # replicate 31 k" for k :: byte by (simp add: numeral_eq_Suc)
  then show "bytes_less (demo_value 0) (demo_value 255)" by (simp add: demo_value_def)
qed (simp_all add: demo_value_def xbit_def)

lemma demo_values_differ: "demo_value 0 \<noteq> demo_value 255"
  using bytes_less_irrefl [of "demo_value 255"] demo_value_simps(4) by metis

lemma demo_set_node:
  "MiddleNode_new demo_crypto (TerminalNode (demo_value 0)) (TerminalNode (demo_value 255)) =
     Inr (MiddleNode (TerminalNode (demo_value 0)) (TerminalNode (demo_value 255)) (replicate 30 0 @ [1, 1]))"
  by (simp add: MiddleNode_new_def hashdown_def hashdown_preimage_def tags demo_crypto_def)

lemma demo_set_ok: "set_ok demo_crypto demo_set"
  by (simp add: set_ok_def demo_set_def demo_set_node on_path_def)

lemma demo_set_values: "values_of demo_set = {demo_value 0, demo_value 255}"
  by (auto simp: values_of_def demo_set_def)

lemma demo_set_root: "get_root demo_crypto demo_set = Inr (replicate 30 0 @ [1, 1])"
  by (simp add: get_root_def demo_set_def compress_root_def tags)

theorem merkle_set_refines_witness:
  "\<exists>s'. remove_already_hashed demo_crypto (demo_value 0) demo_set = Inr s' \<and> values_of s' = {demo_value 255}"
  using merkle_set_refines [OF demo_crypto_ok demo_set_ok, of "demo_value 0"] demo_values_differ by (auto simp: demo_set_values)

lemma demo_preimages: "set_preimages demo_set = {replicate 30 0 @ [1, 1] @ demo_value 0 @ demo_value 255}"
  by (simp add: set_preimages_def demo_set_def shortcut_def pair_preimage_def hashdown_preimage_def tags)

lemma demo_collision_free: "collision_free demo_crypto (set_preimages demo_set)"
  by (simp add: collision_free_def demo_preimages demo_crypto_def BLANK_def) (simp add: numeral_eq_Suc)

theorem merkle_root_commits_witness:
  "get_root demo_crypto demo_set \<noteq> get_root demo_crypto (MerkleSet_new None)"
proof -
  have "set_ok demo_crypto (MerkleSet_new None)" "set_preimages (MerkleSet_new None) = {}" "values_of (MerkleSet_new None) = {}"
    by (simp_all add: set_ok_def MerkleSet_new_def set_preimages_def values_of_def)
  then show ?thesis using merkle_root_commits [OF demo_crypto_ok demo_set_ok, of "MerkleSet_new None"] demo_collision_free by (simp add: demo_set_values)
qed

lemma demo_proof: "is_included_already_hashed (demo_value 0) demo_set = Inr (True, MIDDLE @ (TERMINAL @ demo_value 0) @ TERMINAL @ demo_value 255)"
  by (simp add: is_included_already_hashed_def demo_set_def get_bit_eq)

theorem merkle_proof_complete_witness:
  "confirm_included_already_hashed demo_crypto (replicate 30 0 @ [1, 1]) (demo_value 0) (MIDDLE @ (TERMINAL @ demo_value 0) @ TERMINAL @ demo_value 255) = Inr True"
  using merkle_proof_complete [OF demo_crypto_ok demo_set_ok _ demo_set_root demo_proof] by simp

lemma demo_deserialize: "deserialize_proof demo_crypto (MIDDLE @ (TERMINAL @ demo_value 0) @ TERMINAL @ demo_value 255) = Inr demo_set"
proof -
  let ?q = "MIDDLE # [TERMINAL @ demo_value 0] @ [TERMINAL @ demo_value 255]"
  have "emits demo_crypto [] ?q (root demo_set)"
    using emits_middle [OF emits_leaf(2) emits_leaf(2) demo_set_node, of "[]"] by (simp add: demo_set_def on_path_def)
  then have "deserialize demo_crypto (length (concat ?q) + 1) ([] @ concat ?q @ []) (length ([] :: bytes)) (map of_bool []) =
      Inr (root demo_set, length ([] :: bytes) + length (concat ?q))"
    unfolding emits_def by (metis le_add1)
  then show ?thesis by (simp add: deserialize_proof_def MerkleSet_new_def)
qed

theorem merkle_proof_sound_witness:
  "confirm_included_already_hashed demo_crypto (replicate 30 0 @ [1, 1]) (demo_value 7) (MIDDLE @ (TERMINAL @ demo_value 0) @ TERMINAL @ demo_value 255) \<noteq> Inr True"
proof -
  have "hd (demo_value 7) \<noteq> hd (demo_value 0)" "hd (demo_value 7) \<noteq> hd (demo_value 255)" by (simp_all add: demo_value_def)
  then have "demo_value 7 \<notin> values_of demo_set" unfolding demo_set_values by force
  then show ?thesis
    using merkle_proof_sound [OF demo_crypto_ok demo_set_ok _ demo_set_root, of "demo_value 7" "MIDDLE @ (TERMINAL @ demo_value 0) @ TERMINAL @ demo_value 255"]
      demo_deserialize demo_collision_free by auto
qed

text \<open>
  \<^verbatim>\<open>confirm_included\<close> calls the check for exclusion, so it refuses the proof of every value that is in the set and accepts the
  proof of every value that is not.
\<close>

lemma confirm_included_inverted:
  assumes "crypto_ok E" "set_ok E s" "get_root E s = Inr rt" "is_included_already_hashed (hash256 E v) s = Inr (b, prb)"
  shows "confirm_included E rt v prb = Inr (hash256 E v \<notin> values_of s)"
proof -
  have "length (hash256 E v) = 32" using assms(1) by (simp add: crypto_ok_def)
  from merkle_answer [OF assms(1,2) this assms(3,4)] show ?thesis by (simp add: confirm_included_def)
qed

text \<open>A malformed proof is not always refused: a terminal node that is cut short is an uncaught \<^verbatim>\<open>AssertionError\<close>.\<close>

lemma confirm_malformed: "confirm E rt v [1] expected = Inl AssertionError"
  by (simp add: confirm_def deserialize_proof_def tags TerminalNode_new_def)

end
