(* ===== verification/BlockBody.thy ===== *)
theory BlockBody
  imports MempoolManager MerkleSet
begin

text \<open>
  \<^verbatim>\<open>consensus/block_root_validation.py\<close> and \<^verbatim>\<open>consensus/block_body_validation.py\<close>: the transactions of a block against the coin store, the
  blocks of its fork and the commitments of its header. The function is split into the phases between its comments; a phase returns
  \<open>Inl e\<close> when the function returns the error \<open>e\<close>. The block store and the lookup of generators are arguments of the function and so
  are they here; the CLVM, the BLS library, the Bloom filter and the order in which Python iterates over a set are parameters.
\<close>

section \<open>Commitments to additions and removals\<close>

definition coins_by_puzzle_hash :: "Coin list \<Rightarrow> (bytes, Coin list) dict" where
  "coins_by_puzzle_hash tx_additions =
     fold (\<lambda>c d. dput (puzzle_hash c) ((case map_of d (puzzle_hash c) of None \<Rightarrow> [] | Some cs \<Rightarrow> cs) @ [c]) d) tx_additions []"

definition additions_set :: "crypto \<Rightarrow> Coin list \<Rightarrow> MerkleSet res" where
  "additions_set E tx_additions =
     rfold (\<lambda>(puzzle, coins) s. rbind (add_already_hashed E puzzle s) (add_already_hashed E (hash_coin_list E coins)))
       (coins_by_puzzle_hash tx_additions) (MerkleSet_new None)"

definition validate_block_merkle_roots :: "crypto \<Rightarrow> bytes \<Rightarrow> bytes \<Rightarrow> Coin list \<Rightarrow> bytes list \<Rightarrow> Err option res" where
  "validate_block_merkle_roots E block_additions_root block_removals_root tx_additions tx_removals =
     rbind (rfold (add_already_hashed E) tx_removals (MerkleSet_new None)) (\<lambda>removal_merkle_set.
     rbind (additions_set E tx_additions) (\<lambda>addition_merkle_set.
     rbind (get_root E addition_merkle_set) (\<lambda>additions_rt.
     rbind (get_root E removal_merkle_set) (\<lambda>removals_rt.
       Inr (if block_additions_root \<noteq> additions_rt then Some BAD_ADDITION_ROOT
            else if block_removals_root \<noteq> removals_rt then Some BAD_REMOVAL_ROOT else None)))))"

section \<open>Blocks\<close>

text \<open>The argument is a \<^verbatim>\<open>FullBlock\<close> or an \<^verbatim>\<open>UnfinishedBlock\<close>; the attributes below exist in both.\<close>

datatype Block = Full FullBlock | Unfinished UnfinishedBlock

primrec b_foliage :: "Block \<Rightarrow> Foliage" where
  "b_foliage (Full b) = foliage b"
| "b_foliage (Unfinished b) = ub_foliage b"

primrec b_foliage_transaction_block :: "Block \<Rightarrow> FoliageTransactionBlock option" where
  "b_foliage_transaction_block (Full b) = foliage_transaction_block b"
| "b_foliage_transaction_block (Unfinished b) = ub_foliage_transaction_block b"

primrec b_transactions_info :: "Block \<Rightarrow> TransactionsInfo option" where
  "b_transactions_info (Full b) = transactions_info b"
| "b_transactions_info (Unfinished b) = ub_transactions_info b"

primrec b_transactions_generator :: "Block \<Rightarrow> bytes option" where
  "b_transactions_generator (Full b) = transactions_generator b"
| "b_transactions_generator (Unfinished b) = ub_transactions_generator b"

primrec b_transactions_generator_ref_list :: "Block \<Rightarrow> int list" where
  "b_transactions_generator_ref_list (Full b) = transactions_generator_ref_list b"
| "b_transactions_generator_ref_list (Unfinished b) = ub_transactions_generator_ref_list b"

definition b_prev_header_hash :: "Block \<Rightarrow> bytes" where
  "b_prev_header_hash b = prev_block_hash (b_foliage b)"

text \<open>
  What the code takes from outside: the hash functions, the CLVM, the BLS library, the encoding of a \<^verbatim>\<open>PyBIP158\<close> filter, the iteration
  order of a set of coins that were inserted in the order of the list, and the truth value of a \<^verbatim>\<open>G2Element\<close>.
\<close>

record ('a, 'g) body_env =
  env_crypto :: crypto
  env_vm :: "'a generator_vm"
  env_bls :: "'g bls"
  env_bip158 :: "bytes list \<Rightarrow> bytes"
  env_set_order :: "Coin list \<Rightarrow> Coin list"
  env_sig_truth :: "bytes \<Rightarrow> bool"

section \<open>Early returns\<close>

type_synonym body_error = "Err + int"
type_synonym 'a phase = "(body_error + 'a) res"

definition refuse :: "Err \<Rightarrow> 'a phase" where
  "refuse e = Inr (Inl (Inl e))"

definition phase_bind :: "'a phase \<Rightarrow> ('a \<Rightarrow> 'b phase) \<Rightarrow> 'b phase" where
  "phase_bind m f = rbind m (\<lambda>r. case r of Inl e \<Rightarrow> Inr (Inl e) | Inr x \<Rightarrow> f x)"

definition check :: "bool \<Rightarrow> Err \<Rightarrow> 'a phase \<Rightarrow> 'a phase" where
  "check bad e m = (if bad then refuse e else m)"

lemma phase_bind_InrE:
  assumes "phase_bind m f = Inr (Inr y)"
  obtains x where "m = Inr (Inr x)" "f x = Inr (Inr y)"
  using assms by (auto simp: phase_bind_def elim!: rbind_InrE split: sum.splits)

lemma check_Inr: "check bad e m = Inr (Inr y) \<longleftrightarrow> \<not> bad \<and> m = Inr (Inr y)"
  by (simp add: check_def refuse_def)

section \<open>Rewards\<close>

definition set_add :: "'a \<Rightarrow> 'a list \<Rightarrow> 'a list" where
  "set_add x s = (if x \<in> set s then s else s @ [x])"

definition reward_coins :: "ConsensusConstants \<Rightarrow> BlockRecord \<Rightarrow> int res \<Rightarrow> (Coin \<times> Coin) res" where
  "reward_coins constants b farmer_reward =
     rbind (calculate_pool_reward (height b)) (\<lambda>pool_reward.
     rbind (create_pool_coin (height b) (pool_puzzle_hash b) pool_reward (GENESIS_CHALLENGE constants)) (\<lambda>pool_coin.
     rbind farmer_reward (\<lambda>farmer_reward.
     rbind (create_farmer_coin (height b) (farmer_puzzle_hash b) farmer_reward (GENESIS_CHALLENGE constants)) (\<lambda>farmer_coin.
       Inr (pool_coin, farmer_coin)))))"

text \<open>The loop over the blocks between the last two transaction blocks.\<close>

definition reward_step :: "ConsensusConstants \<Rightarrow> BlockchainInterface \<Rightarrow> BlockRecord \<times> Coin list \<Rightarrow> (BlockRecord \<times> Coin list) res" where
  "reward_step constants blocks s =
     (case s of (curr_b, expected) \<Rightarrow>
        rbind (reward_coins constants curr_b (calculate_base_farmer_reward (height curr_b))) (\<lambda>(pool_coin, farmer_coin).
        rbind (block_record blocks (prev_hash curr_b)) (\<lambda>b. Inr (b, set_add farmer_coin (set_add pool_coin expected)))))"

definition expected_reward_coins :: "ConsensusConstants \<Rightarrow> BlockchainInterface \<Rightarrow> int \<Rightarrow> bytes \<Rightarrow> (int \<times> Coin list) res" where
  "expected_reward_coins constants blocks h prev_tb_hash =
     (if h > 0 then
        rbind (block_record blocks prev_tb_hash) (\<lambda>prev_transaction_block.
          case fees prev_transaction_block of
            None \<Rightarrow> Inl AssertionError
          | Some block_fees \<Rightarrow>
              rbind (reward_coins constants prev_transaction_block
                  (rbind (calculate_base_farmer_reward (height prev_transaction_block)) (\<lambda>base. uint64 (base + block_fees))))
                (\<lambda>(pool_coin, farmer_coin).
              let expected = set_add farmer_coin (set_add pool_coin []) in
              if height prev_transaction_block > 0 then
                rbind (block_record blocks (prev_hash prev_transaction_block)) (\<lambda>curr_b.
                rbind (py_while (\<lambda>(curr_b, expected). \<not> is_transaction_block curr_b) (reward_step constants blocks) (curr_b, expected))
                  (\<lambda>(curr_b, expected). Inr (height prev_transaction_block, expected)))
              else Inr (height prev_transaction_block, expected)))
      else Inr (0, []))"

section \<open>The generator\<close>

definition check_generator :: "crypto \<Rightarrow> ConsensusConstants \<Rightarrow> int \<Rightarrow> bytes option \<Rightarrow> int list \<Rightarrow> TransactionsInfo \<Rightarrow> unit phase" where
  "check_generator E constants h gen ref_list info =
     check (case gen of Some g \<Rightarrow> std_hash E g \<noteq> generator_root info | None \<Rightarrow> generator_root info \<noteq> replicate 32 0)
       INVALID_TRANSACTIONS_GENERATOR_HASH
       (if ref_list = [] then
          check (generator_refs_root info \<noteq> replicate 32 1) INVALID_TRANSACTIONS_GENERATOR_REFS_ROOT (Inr (Inr ()))
        else
          check (gen = None) INVALID_TRANSACTIONS_GENERATOR_REFS_ROOT
            (rbind (rmap (StructStream_stream FMT_L) ref_list) (\<lambda>bs.
             check (generator_refs_root info \<noteq> std_hash E (concat bs)) INVALID_TRANSACTIONS_GENERATOR_REFS_ROOT
               (check (int (length ref_list) > MAX_GENERATOR_REF_LIST_SIZE constants) TOO_MANY_GENERATOR_REFS
                  (check (\<exists>index \<in> set ref_list. index \<ge> h) FUTURE_GENERATOR_REFS (Inr (Inr ())))))))"

text \<open>What the generator spends and creates: its cost, the spends, and the additions.\<close>

definition run_block_generator ::
  "crypto \<Rightarrow> ConsensusConstants \<Rightarrow> bytes option \<Rightarrow> NPCResult option \<Rightarrow> (int \<times> NPC list \<times> Coin list) phase" where
  "run_block_generator E constants gen result =
     (case gen of
        Some g \<Rightarrow>
          (case result of
             None \<Rightarrow> Inl AssertionError
           | Some res \<Rightarrow>
               rbind (calculate_cost_of_program g res (COST_PER_BYTE constants)) (\<lambda>c.
               check (c > MAX_BLOCK_COST_CLVM constants) BLOCK_COST_EXCEEDS_MAX
                 (case npc_error res of
                    Some n \<Rightarrow> rbind (Err_member n) (\<lambda>n. Inr (Inl (Inr n)))
                  | None \<Rightarrow> rbind (additions_for_npc E (npc_list res)) (\<lambda>additions. Inr (Inr (c, npc_list res, additions))))))
      | None \<Rightarrow> (case result of None \<Rightarrow> Inr (Inr (0, [], [])) | Some _ \<Rightarrow> Inl AssertionError))"

fun check_amounts :: "crypto \<Rightarrow> ConsensusConstants \<Rightarrow> Coin list \<Rightarrow> (bytes, Coin) dict \<Rightarrow> ((bytes, Coin) dict) phase" where
  "check_amounts E constants [] additions_dic = Inr (Inr additions_dic)"
| "check_amounts E constants (c # cs) additions_dic =
     check (amount c < 0) COIN_AMOUNT_NEGATIVE
       (check (amount c > MAX_COIN_AMOUNT constants) COIN_AMOUNT_EXCEEDS_MAXIMUM
          (check_amounts E constants cs (dput (Coin_name E c) c additions_dic)))"

definition body_filter :: "('a, 'g) body_env \<Rightarrow> Coin list \<Rightarrow> bytes list \<Rightarrow> bytes" where
  "body_filter env all_additions removals = env_bip158 env (map puzzle_hash all_additions @ removals)"

text \<open>What the first half of the function has computed when it does not return.\<close>

record body =
  prev_tb_height :: int
  body_npcs :: "NPC list"
  body_removals :: "bytes list"
  body_additions :: "Coin list"
  coinbase_additions :: "Coin list"
  additions_dic :: "(bytes, Coin) dict"

text \<open>Checks 3 and 4.\<close>

definition check_hashes :: "crypto \<Rightarrow> Block \<Rightarrow> FoliageTransactionBlock \<Rightarrow> TransactionsInfo \<Rightarrow> unit phase" where
  "check_hashes E block ftb info =
     rbind (get_hash E TransactionsInfo_fields (TransactionsInfo_items info)) (\<lambda>info_hash.
       check (transactions_info_hash ftb \<noteq> info_hash) INVALID_TRANSACTIONS_INFO_HASH
         (rbind (get_hash E FoliageTransactionBlock_fields (FoliageTransactionBlock_items ftb)) (\<lambda>ftb_hash.
            check (foliage_transaction_block_hash (b_foliage block) \<noteq> Some ftb_hash) INVALID_FOLIAGE_BLOCK_HASH (Inr (Inr ())))))"

text \<open>Check 5: the claimed rewards, as a list without repetitions.\<close>

definition check_rewards ::
  "ConsensusConstants \<Rightarrow> BlockchainInterface \<Rightarrow> int \<Rightarrow> FoliageTransactionBlock \<Rightarrow> TransactionsInfo \<Rightarrow> (int \<times> Coin list) phase" where
  "check_rewards constants blocks h ftb info =
     rbind (expected_reward_coins constants blocks h (ftb_prev_transaction_block_hash ftb)) (\<lambda>(prev_height, expected).
       check (set (ti_reward_claims_incorporated info) \<noteq> set expected) INVALID_REWARD_COINS
         (check (length (ti_reward_claims_incorporated info) \<noteq> length expected) INVALID_REWARD_COINS
            (Inr (Inr (prev_height, expected)))))"

text \<open>Checks 10 to 14.\<close>

definition check_outputs ::
  "('a, 'g) body_env \<Rightarrow> ConsensusConstants \<Rightarrow> FoliageTransactionBlock \<Rightarrow> Coin list \<Rightarrow> bytes list \<Rightarrow> ((bytes, Coin) dict) phase" where
  "check_outputs env constants ftb all_additions removals =
     (let E = env_crypto env in
      phase_bind (check_amounts E constants all_additions []) (\<lambda>dic.
      rbind (validate_block_merkle_roots E (additions_root ftb) (removals_root ftb) all_additions removals) (\<lambda>root_error.
        case root_error of
          Some e \<Rightarrow> refuse e
        | None \<Rightarrow>
            check (std_hash E (body_filter env all_additions removals) \<noteq> filter_hash ftb) INVALID_TRANSACTIONS_FILTER_HASH
              (check (has_duplicates (map (Coin_name E) all_additions)) DUPLICATE_OUTPUT
                 (check (has_duplicates removals) DOUBLE_SPEND (Inr (Inr dic)))))))"

definition body_commitments ::
  "('a, 'g) body_env \<Rightarrow> ConsensusConstants \<Rightarrow> BlockchainInterface \<Rightarrow> Block \<Rightarrow> int \<Rightarrow> NPCResult option \<Rightarrow> FoliageTransactionBlock \<Rightarrow>
   TransactionsInfo \<Rightarrow> body phase" where
  "body_commitments env constants blocks block h result ftb info =
     (let E = env_crypto env in
      phase_bind (check_hashes E block ftb info) (\<lambda>_.
      phase_bind (check_rewards constants blocks h ftb info) (\<lambda>(prev_height, expected).
      phase_bind (check_generator E constants h (b_transactions_generator block) (b_transactions_generator_ref_list block) info) (\<lambda>_.
      phase_bind (run_block_generator E constants (b_transactions_generator block) result) (\<lambda>(c, npcs, additions).
      check (ti_cost info \<noteq> c) INVALID_BLOCK_COST
        (let coinbase = env_set_order env expected in
         phase_bind (check_outputs env constants ftb (additions @ coinbase) (map coin_name npcs)) (\<lambda>dic.
           Inr (Inr \<lparr> prev_tb_height = prev_height, body_npcs = npcs, body_removals = map coin_name npcs, body_additions = additions,
                      coinbase_additions = coinbase, additions_dic = dic \<rparr>))))))))"

section \<open>The fork\<close>

text \<open>Coins of the blocks after the fork, with the height and the time of their confirmation, and the names that these blocks spend.\<close>

record fork_changes =
  additions_since_fork :: "(bytes, Coin \<times> int \<times> int) dict"
  removals_since_fork :: "bytes list"

definition fork_height :: "BlockchainInterface \<Rightarrow> BlockRecord option \<Rightarrow> bytes \<Rightarrow> int \<Rightarrow> int option \<Rightarrow> int res" where
  "fork_height blocks peak prev_hh h fork_point_with_peak =
     (case peak of
        None \<Rightarrow> Inr (- 1)
      | Some p \<Rightarrow>
          if h = 0 then Inr (- 1)
          else case fork_point_with_peak of
              Some f \<Rightarrow> Inr f
            | None \<Rightarrow> rbind (block_record blocks prev_hh) (find_fork_point_in_chain blocks p))"

definition reorg_step :: "(bytes \<Rightarrow> FullBlock option res) \<Rightarrow> FullBlock \<times> (int, FullBlock) dict \<Rightarrow> (FullBlock \<times> (int, FullBlock) dict) res" where
  "reorg_step get_full_block s =
     rbind (get_full_block (prev_header_hash (fst s))) (\<lambda>cur.
       case cur of None \<Rightarrow> Inl AssertionError | Some b \<Rightarrow> Inr (b, dput (FullBlock_height b) b (snd s)))"

text \<open>The loop stops at the fork and breaks at the genesis block.\<close>

definition reorg_blocks :: "(bytes \<Rightarrow> FullBlock option res) \<Rightarrow> int \<Rightarrow> FullBlock \<Rightarrow> ((int, FullBlock) dict) res" where
  "reorg_blocks get_full_block fork_h prev_block =
     rbind (py_while (\<lambda>(cur, d). FullBlock_height cur > fork_h \<and> FullBlock_height cur \<noteq> 0) (reorg_step get_full_block) (prev_block, []))
       (\<lambda>(cur, d). Inr d)"

definition block_changes ::
  "('a, 'g) body_env \<Rightarrow> ConsensusConstants \<Rightarrow> (FullBlock \<Rightarrow> BlockGenerator option res) \<Rightarrow> FullBlock \<Rightarrow> (bytes list \<times> Coin list) res" where
  "block_changes env constants get_block_generator cur =
     (if transactions_generator cur \<noteq> None then
        rbind (get_block_generator cur) (\<lambda>gen.
          case gen of
            None \<Rightarrow> Inl AssertionError
          | Some g \<Rightarrow>
              (case transactions_info cur of
                 None \<Rightarrow> Inl AssertionError
               | Some info \<Rightarrow>
                   tx_removals_and_additions (env_crypto env)
                     (Some (npc_list (get_name_puzzle_conditions (env_vm env) g (min (MAX_BLOCK_COST_CLVM constants) (ti_cost info))
                        (COST_PER_BYTE constants) False)))))
      else Inr ([], []))"

definition add_fork_removal :: "bytes \<Rightarrow> fork_changes \<Rightarrow> fork_changes res" where
  "add_fork_removal n s = rassert (n \<notin> set (removals_since_fork s)) (Inr (s\<lparr>removals_since_fork := removals_since_fork s @ [n]\<rparr>))"

definition add_fork_addition :: "crypto \<Rightarrow> FullBlock \<Rightarrow> Coin \<Rightarrow> fork_changes \<Rightarrow> fork_changes res" where
  "add_fork_addition E cur c s =
     rassert (\<not> din (Coin_name E c) (additions_since_fork s))
       (case foliage_transaction_block cur of
          None \<Rightarrow> Inl AssertionError
        | Some ftb \<Rightarrow>
            Inr (s\<lparr>additions_since_fork := dput (Coin_name E c) (c, FullBlock_height cur, ftb_timestamp ftb) (additions_since_fork s)\<rparr>))"

text \<open>One round of the second loop; \<open>True\<close> is the \<^verbatim>\<open>break\<close> at the genesis block.\<close>

definition fork_round ::
  "('a, 'g) body_env \<Rightarrow> ConsensusConstants \<Rightarrow> (FullBlock \<Rightarrow> BlockGenerator option res) \<Rightarrow> (int, FullBlock) dict \<Rightarrow>
   bool \<times> FullBlock \<times> fork_changes \<Rightarrow> (bool \<times> FullBlock \<times> fork_changes) res" where
  "fork_round env constants get_block_generator reorg st =
     (case st of (_, cur, s) \<Rightarrow>
        rbind (block_changes env constants get_block_generator cur) (\<lambda>(removals_in_curr, additions_in_curr).
        rbind (rfold add_fork_removal removals_in_curr s) (\<lambda>s.
        rbind (rfold (add_fork_addition (env_crypto env) cur) additions_in_curr s) (\<lambda>s.
        rbind (get_included_reward_coins cur) (\<lambda>rewards.
        rbind (rfold (add_fork_addition (env_crypto env) cur) rewards s) (\<lambda>s.
          if FullBlock_height cur = 0 then Inr (True, cur, s)
          else rbind (dget reorg (FullBlock_height cur - 1)) (\<lambda>b. Inr (False, b, s))))))))"

definition no_changes :: fork_changes where
  "no_changes = \<lparr> additions_since_fork = [], removals_since_fork = [] \<rparr>"

definition changes_since_fork ::
  "('a, 'g) body_env \<Rightarrow> ConsensusConstants \<Rightarrow> (bytes \<Rightarrow> FullBlock option res) \<Rightarrow> (FullBlock \<Rightarrow> BlockGenerator option res) \<Rightarrow> bytes \<Rightarrow> int \<Rightarrow> int \<Rightarrow>
   fork_changes res" where
  "changes_since_fork env constants get_full_block get_block_generator prev_hh h fork_h =
     (if h > 0 then
        rbind (get_full_block prev_hh) (\<lambda>prev_block.
          case prev_block of
            None \<Rightarrow> Inl AssertionError
          | Some prev_block \<Rightarrow>
              rbind (reorg_blocks get_full_block fork_h prev_block) (\<lambda>reorg.
              rassert (fork_h \<noteq> - 1 \<longrightarrow> int (length reorg) = h - fork_h - 1)
                (rbind (py_while (\<lambda>(stop, cur, s). \<not> stop \<and> FullBlock_height cur > fork_h)
                          (fork_round env constants get_block_generator reorg) (False, prev_block, no_changes))
                   (\<lambda>(stop, cur, s). Inr s))))
      else Inr no_changes)"

section \<open>Removals\<close>

definition ephemeral :: "int \<Rightarrow> int \<Rightarrow> Coin \<Rightarrow> CoinRecord" where
  "ephemeral h ts c =
     \<lparr> coin = c, confirmed_block_index = h, spent_block_index = h, spent = True, coinbase = False, timestamp = ts \<rparr>"

definition fork_record :: "Coin \<times> int \<times> int \<Rightarrow> CoinRecord" where
  "fork_record x =
     (case x of (c, confirmed_height, confirmed_timestamp) \<Rightarrow>
        \<lparr> coin = c, confirmed_block_index = confirmed_height, spent_block_index = 0, spent = False, coinbase = False,
          timestamp = confirmed_timestamp \<rparr>)"

text \<open>The record of a coin that the block does not create itself, given what the store has.\<close>

definition find_removal :: "int \<Rightarrow> fork_changes \<Rightarrow> bytes \<Rightarrow> CoinRecord option \<Rightarrow> Err + CoinRecord" where
  "find_removal fork_h s rem unspent =
     (case (case unspent of
              Some r \<Rightarrow> if confirmed_block_index r \<le> fork_h then Some r else None
            | None \<Rightarrow> None) of
        Some r \<Rightarrow>
          if spent r \<and> spent_block_index r \<le> fork_h then Inl DOUBLE_SPEND
          else if rem \<in> set (removals_since_fork s) then Inl DOUBLE_SPEND_IN_FORK else Inr r
      | None \<Rightarrow>
          (case map_of (additions_since_fork s) rem of
             None \<Rightarrow> Inl UNKNOWN_UNSPENT
           | Some x \<Rightarrow> if rem \<in> set (removals_since_fork s) then Inl DOUBLE_SPEND_IN_FORK else Inr (fork_record x)))"

fun removal_records ::
  "crypto \<Rightarrow> int \<Rightarrow> int \<Rightarrow> int \<Rightarrow> fork_changes \<Rightarrow> (bytes, Coin) dict \<Rightarrow> bytes list \<Rightarrow> CoinStore \<Rightarrow> (bytes, CoinRecord) dict \<Rightarrow>
   (CoinStore \<times> (body_error + (bytes, CoinRecord) dict)) res" where
  "removal_records E h ts fork_h s dic [] store records = Inr (store, Inr records)"
| "removal_records E h ts fork_h s dic (rem # rems) store records =
     (case map_of dic rem of
        Some c \<Rightarrow> removal_records E h ts fork_h s dic rems store (dput (Coin_name E c) (ephemeral h ts c) records)
      | None \<Rightarrow>
          rbind (get_coin_record E rem store) (\<lambda>(unspent, store).
            case find_removal fork_h s rem unspent of
              Inl e \<Rightarrow> Inr (store, Inl (Inl e))
            | Inr r \<Rightarrow> removal_records E h ts fork_h s dic rems store (dput (CoinRecord_name E r) r records)))"

section \<open>Fees and conditions\<close>

fun block_fee_loop :: "crypto \<Rightarrow> ConditionWithArgs list \<Rightarrow> int \<Rightarrow> int phase" where
  "block_fee_loop E [] assert_fee_sum = Inr (Inr assert_fee_sum)"
| "block_fee_loop E (cvp # cvps) assert_fee_sum =
     rbind (py_index (vars cvp) 0) (\<lambda>b.
       check (int_from_bytes E b < 0) RESERVE_FEE_CONDITION_FAILED
         (rbind (uint128 (assert_fee_sum + int_from_bytes E b)) (block_fee_loop E cvps)))"

fun block_reserved_fees :: "crypto \<Rightarrow> NPC list \<Rightarrow> int \<Rightarrow> int phase" where
  "block_reserved_fees E [] assert_fee_sum = Inr (Inr assert_fee_sum)"
| "block_reserved_fees E (npc # npcs) assert_fee_sum =
     rbind (condition_dict npc) (\<lambda>d. phase_bind (block_fee_loop E (dget_list d RESERVE_FEE) assert_fee_sum) (block_reserved_fees E npcs))"

definition check_fees ::
  "crypto \<Rightarrow> ConsensusConstants \<Rightarrow> int \<Rightarrow> TransactionsInfo \<Rightarrow> body \<Rightarrow> (bytes, CoinRecord) dict \<Rightarrow> unit phase" where
  "check_fees E constants h info bd records =
     (let removed = sum_list (map (\<lambda>r. amount (coin r)) (dvalues records));
          added = sum_list (map amount (body_additions bd))
      in check (removed < added) MINTING_COIN
           (let block_fees = removed - added in
            rassert (block_fees \<ge> 0)
              (phase_bind (block_reserved_fees E (body_npcs bd) 0) (\<lambda>assert_fee_sum.
                 check (block_fees < assert_fee_sum) RESERVE_FEE_CONDITION_FAILED
                   (rbind (calculate_base_farmer_reward h) (\<lambda>farmer_reward.
                      check (block_fees + farmer_reward > MAX_COIN_AMOUNT constants) COIN_AMOUNT_EXCEEDS_MAXIMUM
                        (check (ti_fees info \<noteq> block_fees) INVALID_BLOCK_FEE_AMOUNT (Inr (Inr ())))))))))"

fun check_puzzle_hashes :: "crypto \<Rightarrow> (bytes, bytes) dict \<Rightarrow> CoinRecord list \<Rightarrow> unit phase" where
  "check_puzzle_hashes E removals_puzzle_dic [] = Inr (Inr ())"
| "check_puzzle_hashes E removals_puzzle_dic (r # rs) =
     rbind (dget removals_puzzle_dic (CoinRecord_name E r)) (\<lambda>ph.
       check (puzzle_hash (coin r) \<noteq> ph) WRONG_PUZZLE_HASH (check_puzzle_hashes E removals_puzzle_dic rs))"

fun check_conditions :: "crypto \<Rightarrow> int \<Rightarrow> int \<Rightarrow> int \<Rightarrow> (bytes, CoinRecord) dict \<Rightarrow> NPC list \<Rightarrow> unit phase" where
  "check_conditions E now prev_height ts records [] = Inr (Inr ())"
| "check_conditions E now prev_height ts records (npc # npcs) =
     rbind (dget records (coin_name npc)) (\<lambda>unspent.
     rbind (condition_dict npc) (\<lambda>d.
     rbind (mempool_check_conditions_dict E now unspent d prev_height (Some ts)) (\<lambda>error.
       case error of Some e \<Rightarrow> refuse e | None \<Rightarrow> check_conditions E now prev_height ts records npcs)))"

definition check_spends ::
  "crypto \<Rightarrow> ConsensusConstants \<Rightarrow> int \<Rightarrow> int \<Rightarrow> FoliageTransactionBlock \<Rightarrow> TransactionsInfo \<Rightarrow> body \<Rightarrow> (bytes, CoinRecord) dict \<Rightarrow> unit phase" where
  "check_spends E constants now h ftb info bd records =
     phase_bind (check_fees E constants h info bd records) (\<lambda>_.
     phase_bind (check_puzzle_hashes E (fold (\<lambda>npc. dput (coin_name npc) (npc_puzzle_hash npc)) (body_npcs bd) []) (dvalues records)) (\<lambda>_.
       check_conditions E now (prev_tb_height bd) (ftb_timestamp ftb) records (body_npcs bd)))"

section \<open>The whole function\<close>

definition check_signature ::
  "('a, 'g) body_env \<Rightarrow> ConsensusConstants \<Rightarrow> bool \<Rightarrow> Block \<Rightarrow> NPC list \<Rightarrow> bytes \<Rightarrow> (bytes, 'g) LRUCache \<Rightarrow> (bool \<times> (bytes, 'g) LRUCache) res" where
  "check_signature env constants validate_signature block npcs sig c =
     rbind (pkm_pairs npcs (AGG_SIG_ME_ADDITIONAL_DATA constants)) (\<lambda>(pks, msgs).
       if \<not> env_sig_truth env sig then Inr (False, c)
       else if validate_signature then
         aggregate_verify (env_crypto env) (env_bls env) pks msgs sig (case block of Unfinished _ \<Rightarrow> True | Full _ \<Rightarrow> False) c
       else Inr (True, c))"

text \<open>The state the function reads and changes: the coin store, whose cache fills, and the cache of pairings.\<close>

type_synonym 'g body_state = "CoinStore \<times> (bytes, 'g) LRUCache"
type_synonym body_result = "body_error option \<times> NPCResult option"

definition transactions_valid ::
  "('a, 'g) body_env \<Rightarrow> ConsensusConstants \<Rightarrow> BlockchainInterface \<Rightarrow> (bytes \<Rightarrow> FullBlock option res) \<Rightarrow> BlockRecord option \<Rightarrow> Block \<Rightarrow> int \<Rightarrow>
   NPCResult option \<Rightarrow> int option \<Rightarrow> (FullBlock \<Rightarrow> BlockGenerator option res) \<Rightarrow> bool \<Rightarrow> int \<Rightarrow> FoliageTransactionBlock \<Rightarrow> TransactionsInfo \<Rightarrow>
   body \<Rightarrow> 'g body_state \<Rightarrow> (body_result \<times> 'g body_state) res" where
  "transactions_valid env constants blocks get_full_block peak block h result fork_point get_block_generator validate_signature now ftb info bd st =
     (let E = env_crypto env in
      rbind (fork_height blocks peak (b_prev_header_hash block) h fork_point) (\<lambda>fork_h.
      rbind (changes_since_fork env constants get_full_block get_block_generator (b_prev_header_hash block) h fork_h) (\<lambda>s.
      rbind (removal_records E h (ftb_timestamp ftb) fork_h s (additions_dic bd) (body_removals bd) (fst st) []) (\<lambda>(store, r).
        case r of
          Inl e \<Rightarrow> Inr ((Some e, None), store, snd st)
        | Inr records \<Rightarrow>
            rbind (check_spends E constants now h ftb info bd records) (\<lambda>r.
              case r of
                Inl e \<Rightarrow> Inr ((Some e, None), store, snd st)
              | Inr _ \<Rightarrow>
                  rbind (check_signature env constants validate_signature block (body_npcs bd) (TransactionsInfo.aggregated_signature info) (snd st)) (\<lambda>(ok, c).
                    if \<not> ok then Inr ((Some (Inl BAD_AGGREGATE_SIGNATURE), None), store, c) else Inr ((None, result), store, c)))))))"

text \<open>A block without transactions: the loop finds the last transaction block.\<close>

definition last_transaction_block :: "BlockchainInterface \<Rightarrow> bytes \<Rightarrow> BlockRecord res" where
  "last_transaction_block blocks prev_hh =
     rbind (block_record blocks prev_hh)
       (py_while (\<lambda>prev_tb. \<not> is_transaction_block prev_tb) (\<lambda>prev_tb. block_record blocks (prev_hash prev_tb)))"

definition no_transactions_valid :: "BlockchainInterface \<Rightarrow> Block \<Rightarrow> body_error option res" where
  "no_transactions_valid blocks block =
     (if b_foliage_transaction_block block \<noteq> None \<or> b_transactions_info block \<noteq> None \<or> b_transactions_generator block \<noteq> None
      then Inr (Some (Inl NOT_BLOCK_BUT_HAS_DATA))
      else rbind (last_transaction_block blocks (b_prev_header_hash block)) (\<lambda>prev_tb.
           rassert (BlockRecord.timestamp prev_tb \<noteq> None)
             (Inr (if b_transactions_generator_ref_list block \<noteq> [] then Some (Inl NOT_BLOCK_BUT_HAS_DATA) else None))))"

definition validate_block_body ::
  "('a, 'g) body_env \<Rightarrow> ConsensusConstants \<Rightarrow> BlockchainInterface \<Rightarrow> (bytes \<Rightarrow> FullBlock option res) \<Rightarrow> BlockRecord option \<Rightarrow> Block \<Rightarrow> int \<Rightarrow>
   NPCResult option \<Rightarrow> int option \<Rightarrow> (FullBlock \<Rightarrow> BlockGenerator option res) \<Rightarrow> bool \<Rightarrow> int \<Rightarrow> 'g body_state \<Rightarrow> (body_result \<times> 'g body_state) res" where
  "validate_block_body env constants blocks get_full_block peak block h result fork_point get_block_generator validate_signature now st =
     rassert (case block of Full b \<Rightarrow> h = FullBlock_height b | Unfinished _ \<Rightarrow> True)
       (if foliage_transaction_block_hash (b_foliage block) = None then
          rbind (no_transactions_valid blocks block) (\<lambda>e. Inr ((e, None), st))
        else case (b_foliage_transaction_block block, b_transactions_info block) of
            (Some ftb, Some info) \<Rightarrow>
              rbind (body_commitments env constants blocks block h result ftb info) (\<lambda>r.
                case r of
                  Inl e \<Rightarrow> Inr ((Some e, None), st)
                | Inr bd \<Rightarrow>
                    transactions_valid env constants blocks get_full_block peak block h result fork_point get_block_generator
                      validate_signature now ftb info bd st)
          | _ \<Rightarrow> Inr ((Some (Inl IS_TRANSACTION_BLOCK_BUT_NO_DATA), None), st))"

section \<open>What the phases establish\<close>

text \<open>The coins that can be spent on top of the parent of the block: the store rolled back to the fork, then the blocks of the fork.\<close>

definition parent_ledger :: "(bytes \<Rightarrow> CoinRecord option) \<Rightarrow> int \<Rightarrow> fork_changes \<Rightarrow> bytes \<Rightarrow> Coin option" where
  "parent_ledger view fork_h s n =
     (if n \<in> set (removals_since_fork s) then None
      else if \<exists>r. view n = Some r \<and> confirmed_block_index r \<le> fork_h then
        (if spent (the (view n)) \<and> spent_block_index (the (view n)) \<le> fork_h then None else Some (coin (the (view n))))
      else map_option fst (map_of (additions_since_fork s) n))"

lemma find_removal_ledger: "find_removal fork_h s n (view n) = Inr r \<Longrightarrow> parent_ledger view fork_h s n = Some (coin r)"
  by (auto simp: find_removal_def parent_ledger_def fork_record_def split: option.splits if_splits)

lemma find_removal_name:
  assumes "find_removal fork_h s n (view n) = Inr r" "\<And>r. view n = Some r \<Longrightarrow> Coin_name E (coin r) = n"
    and "\<And>x. map_of (additions_since_fork s) n = Some x \<Longrightarrow> Coin_name E (fst x) = n"
  shows "CoinRecord_name E r = n"
  using assms(1)
  by (auto simp: find_removal_def fork_record_def CoinRecord_name_def split: option.splits if_splits dest: assms(2,3))

definition removal_ok :: "crypto \<Rightarrow> (bytes \<Rightarrow> CoinRecord option) \<Rightarrow> int \<Rightarrow> fork_changes \<Rightarrow> (bytes, Coin) dict \<Rightarrow> bytes \<times> CoinRecord \<Rightarrow> bool" where
  "removal_ok E view fork_h s dic nr \<longleftrightarrow>
     Coin_name E (coin (snd nr)) = fst nr \<and>
     (map_of dic (fst nr) = Some (coin (snd nr)) \<or> parent_ledger view fork_h s (fst nr) = Some (coin (snd nr)))"

definition named_by :: "crypto \<Rightarrow> ('a \<Rightarrow> Coin) \<Rightarrow> (bytes, 'a) dict \<Rightarrow> bool" where
  "named_by E f d \<longleftrightarrow> (\<forall>n x. map_of d n = Some x \<longrightarrow> Coin_name E (f x) = n)"

lemma named_by_put: "named_by E f d \<Longrightarrow> Coin_name E (f x) = n \<Longrightarrow> named_by E f (dput n x d)"
  by (auto simp: named_by_def)

lemma removal_records_ok:
  assumes "removal_records E h ts fork_h s dic rems store records = Inr (store', res)" "store_ok E store"
    and "named_by E id dic" "named_by E fst (additions_since_fork s)"
  shows "store_ok E store' \<and> coin_view store' = coin_view store \<and>
    (\<forall>records'. res = Inr records' \<and> distinct (dkeys records @ rems) \<and> (\<forall>x \<in> set records. removal_ok E (coin_view store) fork_h s dic x) \<longrightarrow>
       dkeys records' = dkeys records @ rems \<and> (\<forall>x \<in> set records'. removal_ok E (coin_view store) fork_h s dic x))"
  using assms(1,2)
proof (induction rems arbitrary: store records)
  case (Cons n rems)
  have step: ?case
    if r: "removal_records E h ts fork_h s dic rems s1 (dput n r records) = Inr (store', res)" "store_ok E s1" "coin_view s1 = coin_view store"
      "removal_ok E (coin_view store) fork_h s dic (n, r)" for s1 r
  proof -
    note IH = Cons.IH [OF r(1,2), unfolded r(3)]
    have "dkeys records' = dkeys records @ n # rems \<and> (\<forall>x \<in> set records'. removal_ok E (coin_view store) fork_h s dic x)"
      if p: "res = Inr records'" "distinct (dkeys records @ n # rems)" "\<forall>x \<in> set records. removal_ok E (coin_view store) fork_h s dic x" for records'
    proof -
      have "\<not> din n records" using p(2) by (simp add: din_def)
      then have "dput n r records = records @ [(n, r)]" by (rule dput_fresh)
      then show ?thesis using IH p r(4) by simp
    qed
    then show ?thesis using IH by blast
  qed
  show ?case
  proof (cases "map_of dic n")
    case (Some c)
    then have c: "Coin_name E c = n" using assms(3) by (simp add: named_by_def)
    show ?thesis
      by (rule step [of store "ephemeral h ts c"]) (use Cons.prems Some c in \<open>simp_all add: removal_ok_def ephemeral_def\<close>)
  next
    case None
    obtain s1 where s1: "get_coin_record E n store = Inr (coin_view store n, s1)" "store_ok E s1" "coin_view s1 = coin_view store"
      using get_coin_record_rel [of E _ store n] Cons.prems(2) by (metis coin_view_rel store_okE store_ok_def)
    show ?thesis
    proof (cases "find_removal fork_h s n (coin_view store n)")
      case (Inl e)
      then show ?thesis using Cons.prems(1) None s1 by auto
    next
      case (Inr r)
      have name: "CoinRecord_name E r = n"
        using find_removal_name [of fork_h s n "coin_view store" r E] Inr coin_view_name [OF Cons.prems(2)] assms(4) [unfolded named_by_def] by blast
      show ?thesis
        by (rule step [of s1 r])
          (use Cons.prems(1) None s1 Inr name find_removal_ledger [of fork_h s n "coin_view store" r] in \<open>simp_all add: removal_ok_def CoinRecord_name_def\<close>)
    qed
  qed
qed auto

subsection \<open>Additions of the fork\<close>

lemma add_fork_additions_named:
  "rfold (add_fork_addition E b) cs s = Inr s' \<Longrightarrow> named_by E fst (additions_since_fork s) \<Longrightarrow> named_by E fst (additions_since_fork s')"
proof (induction cs arbitrary: s)
  case (Cons c cs)
  obtain s1 where s1: "add_fork_addition E b c s = Inr s1" "rfold (add_fork_addition E b) cs s1 = Inr s'"
    using Cons.prems(1) by (auto elim: rbind_InrE)
  have "named_by E fst (additions_since_fork s1)"
    using s1(1) Cons.prems(2) by (auto simp: add_fork_addition_def rassert_eq_Inr intro!: named_by_put split: option.splits)
  then show ?case using Cons.IH [OF s1(2)] by blast
qed simp

lemma add_fork_removals_same:
  "rfold add_fork_removal ns s = Inr s' \<Longrightarrow> additions_since_fork s' = additions_since_fork s"
proof (induction ns arbitrary: s)
  case (Cons n ns)
  then obtain s1 where s1: "add_fork_removal n s = Inr s1" "rfold add_fork_removal ns s1 = Inr s'" by (auto elim: rbind_InrE)
  have "additions_since_fork s1 = additions_since_fork s" using s1(1) by (auto simp: add_fork_removal_def rassert_eq_Inr)
  then show ?case using Cons.IH [OF s1(2)] by simp
qed simp

lemma fork_round_named:
  assumes "fork_round env constants gbg reorg (stop, b, s) = Inr (stop', b', s')" "named_by (env_crypto env) fst (additions_since_fork s)"
  shows "named_by (env_crypto env) fst (additions_since_fork s')"
proof -
  obtain rs as s1 s2 rewards s3 where "rfold add_fork_removal rs s = Inr s1"
    and a: "rfold (add_fork_addition (env_crypto env) b) as s1 = Inr s2" "rfold (add_fork_addition (env_crypto env) b) rewards s2 = Inr s3"
    and fin: "(if FullBlock_height b = 0 then Inr (True, b, s3)
         else rbind (dget reorg (FullBlock_height b - 1)) (\<lambda>b. Inr (False, b, s3))) = Inr (stop', b', s')"
    using assms(1) unfolding fork_round_def by (simp only: prod.case) (elim rbind_InrE, simp only: split: prod.splits, elim rbind_InrE, blast)
  then have "additions_since_fork s1 = additions_since_fork s" by (metis add_fork_removals_same)
  moreover have "s' = s3" using fin by (auto elim!: rbind_InrE split: if_splits)
  ultimately show ?thesis using add_fork_additions_named [OF a(1)] add_fork_additions_named [OF a(2)] assms(2) by simp
qed

lemma changes_since_fork_named:
  assumes "changes_since_fork env constants gfb gbg prev_hh h fork_h = Inr s"
  shows "named_by (env_crypto env) fst (additions_since_fork s)"
proof (cases "h > 0")
  case True
  obtain prev reorg t where w: "py_while (\<lambda>(stop, b, s). \<not> stop \<and> FullBlock_height b > fork_h) (fork_round env constants gbg reorg) (False, prev, no_changes) = Inr t"
    and s: "s = snd (snd t)"
  proof -
    obtain o1 where o1: "gfb prev_hh = Inr o1" using assms True by (auto simp: changes_since_fork_def elim: rbind_InrE)
    then obtain prev where "gfb prev_hh = Inr (Some prev)" using assms True by (cases o1) (simp_all add: changes_since_fork_def)
    then obtain reorg where "rassert (fork_h \<noteq> - 1 \<longrightarrow> int (length reorg) = h - fork_h - 1)
         (rbind (py_while (\<lambda>(stop, b, s). \<not> stop \<and> FullBlock_height b > fork_h) (fork_round env constants gbg reorg) (False, prev, no_changes))
           (\<lambda>(stop, b, s). Inr s)) = Inr s"
      using assms True unfolding changes_since_fork_def by (simp only: if_True rbind_Inr option.case) (elim rbind_InrE, blast)
    then show ?thesis using that [of reorg prev] unfolding rassert_eq_Inr by (elim conjE rbind_InrE) (simp split: prod.splits)
  qed
  have "named_by (env_crypto env) fst (additions_since_fork (snd (snd t)))"
    by (rule conjunct1 [OF py_while_partial [OF w, where P = "\<lambda>t. named_by (env_crypto env) fst (additions_since_fork (snd (snd t)))"]])
      (auto simp: no_changes_def named_by_def [of _ _ "[]"] dest: fork_round_named)
  then show ?thesis by (simp add: s)
qed (use assms in \<open>auto simp: changes_since_fork_def no_changes_def named_by_def\<close>)

text \<open>A block on top of the peak has no fork to look at.\<close>

lemma changes_on_peak:
  assumes "gfb prev_hh = Inr (Some prev)" "FullBlock_height prev = h - 1"
  shows "changes_since_fork env constants gfb gbg prev_hh h (h - 1) = Inr no_changes"
  using assms by (simp add: changes_since_fork_def reorg_blocks_def no_changes_def)

subsection \<open>Rewards, outputs and fees\<close>

lemma set_add_props: "set (set_add x s) = insert x (set s)" "distinct (set_add x s) = distinct s"
  by (auto simp: set_add_def)

lemma expected_reward_coins_distinct:
  assumes "expected_reward_coins constants blocks h hh = Inr (ph, cs)"
  shows "distinct cs"
proof (cases "h > 0")
  case True
  obtain p where p: "block_record blocks hh = Inr p" using assms True by (auto simp: expected_reward_coins_def elim: rbind_InrE)
  obtain f where f: "fees p = Some f" using assms True p by (cases "fees p") (simp_all add: expected_reward_coins_def)
  obtain pc fc where c: "reward_coins constants p (rbind (calculate_base_farmer_reward (height p)) (\<lambda>base. uint64 (base + f))) = Inr (pc, fc)"
    using assms True p f by (auto simp: expected_reward_coins_def elim!: rbind_InrE)
  show ?thesis
  proof (cases "height p > 0")
    case low: True
    obtain b t where w: "py_while (\<lambda>(b, e). \<not> is_transaction_block b) (reward_step constants blocks) (b, set_add fc (set_add pc [])) = Inr t" "cs = snd t"
      using assms True p f c low by (auto simp: expected_reward_coins_def Let_def elim!: rbind_InrE)
    have "distinct (snd t)"
      by (rule conjunct1 [OF py_while_partial [OF w(1), where P = "\<lambda>t. distinct (snd t)"]])
        (auto simp: set_add_props reward_step_def elim!: rbind_InrE)
    then show ?thesis by (simp add: w(2))
  next
    case False
    then show ?thesis using assms True p f c by (auto simp: expected_reward_coins_def Let_def set_add_props)
  qed
qed (use assms in \<open>simp add: expected_reward_coins_def\<close>)

lemma check_amounts_named:
  "check_amounts E constants cs d = Inr (Inr dic) \<Longrightarrow> named_by E id d \<Longrightarrow>
     named_by E id dic \<and> (\<forall>n c. map_of dic n = Some c \<longrightarrow> map_of d n = Some c \<or> c \<in> set cs) \<and>
     (\<forall>c \<in> set cs. 0 \<le> amount c \<and> amount c \<le> MAX_COIN_AMOUNT constants)"
proof (induction cs arbitrary: d)
  case (Cons c cs)
  have p: "0 \<le> amount c" "amount c \<le> MAX_COIN_AMOUNT constants" "check_amounts E constants cs (dput (Coin_name E c) c d) = Inr (Inr dic)"
    using Cons.prems(1) by (auto simp: check_Inr)
  have "named_by E id (dput (Coin_name E c) c d)" using Cons.prems(2) by (rule named_by_put) simp
  note IH = Cons.IH [OF p(3) this]
  have "map_of d n = Some x \<or> x \<in> set (c # cs)" if x: "map_of dic n = Some x" for n x
  proof -
    have "map_of (dput (Coin_name E c) c d) n = Some x \<or> x \<in> set cs" using conjunct1 [OF conjunct2 [OF IH]] x by blast
    then show ?thesis by (auto split: if_splits)
  qed
  then show ?case using IH p(1,2) by simp
qed simp

lemma block_fee_loop_bound: "block_fee_loop E cvps acc = Inr (Inr t) \<Longrightarrow> reserve_fee_loop E cvps acc = Inr (Inr t)"
proof (induction cvps arbitrary: acc)
  case (Cons c cvps)
  then show ?case by (auto simp: check_Inr check_def refuse_def uint128_eq elim!: rbind_InrE split: if_splits)
qed simp

lemma block_reserved_fees_eq: "block_reserved_fees E npcs acc = Inr (Inr t) \<Longrightarrow> reserved_fees E npcs acc = Inr (Inr t)"
proof (induction npcs arbitrary: acc)
  case (Cons npc npcs)
  then show ?case by (auto elim!: rbind_InrE phase_bind_InrE dest!: block_fee_loop_bound)
qed simp

lemma check_fees_ok:
  assumes "check_fees E constants h info bd records = Inr (Inr u)"
  shows "total_amount (map coin (dvalues records)) = total_amount (body_additions bd) + ti_fees info \<and> 0 \<le> ti_fees info \<and>
    (\<exists>t. reserved_fees E (body_npcs bd) 0 = Inr (Inr t) \<and> t \<le> ti_fees info)"
  using assms
  by (auto simp: check_fees_def Let_def check_Inr rassert_eq_Inr total_amount_def comp_def elim!: rbind_InrE phase_bind_InrE dest!: block_reserved_fees_eq)

lemma check_puzzle_hashes_ok:
  "check_puzzle_hashes E d rs = Inr (Inr u) \<Longrightarrow> r \<in> set rs \<Longrightarrow> map_of d (CoinRecord_name E r) = Some (puzzle_hash (coin r))"
proof (induction rs)
  case (Cons a rs)
  then show ?case by (auto simp: dget_def check_Inr elim!: rbind_InrE split: option.splits)
qed simp

lemma check_conditions_ok:
  "check_conditions E now ph ts records npcs = Inr (Inr u) \<Longrightarrow> npc \<in> set npcs \<Longrightarrow>
     \<exists>r d. map_of records (coin_name npc) = Some r \<and> condition_dict npc = Inr d \<and>
       mempool_check_conditions_dict E now r d ph (Some ts) = Inr None"
proof (induction npcs)
  case (Cons a npcs)
  obtain r d e where r: "dget records (coin_name a) = Inr r" "condition_dict a = Inr d" "mempool_check_conditions_dict E now r d ph (Some ts) = Inr e"
    "(case e of Some e \<Rightarrow> refuse e | None \<Rightarrow> check_conditions E now ph ts records npcs) = Inr (Inr u)"
    using Cons.prems(1) by (simp only: check_conditions.simps) (elim rbind_InrE, blast)
  have e: "e = None" using r(4) by (cases e) (simp_all add: refuse_def)
  have "map_of records (coin_name a) = Some r" using r(1) by (simp add: dget_def split: option.splits)
  then show ?case using Cons r e by auto
qed simp

subsection \<open>The first half\<close>

lemma run_block_generator_ok:
  assumes "run_block_generator E constants gen result = Inr (Inr (c, npcs, adds))"
  shows "(if gen = None then result = None \<and> npcs = [] \<and> c = 0
      else \<exists>res. result = Some res \<and> npc_error res = None \<and> npcs = npc_list res \<and> c \<le> MAX_BLOCK_COST_CLVM constants \<and>
        calculate_cost_of_program (the gen) res (COST_PER_BYTE constants) = Inr c) \<and>
    additions_for_npc E npcs = Inr adds"
proof (cases gen)
  case None
  then show ?thesis using assms by (cases result) (simp_all add: run_block_generator_def additions_for_npc_def)
next
  case (Some g)
  then obtain res where res: "result = Some res" using assms by (cases result) (simp_all add: run_block_generator_def)
  obtain c' where c': "calculate_cost_of_program g res (COST_PER_BYTE constants) = Inr c'" "\<not> c' > MAX_BLOCK_COST_CLVM constants"
    "(case npc_error res of Some n \<Rightarrow> rbind (Err_member n) (\<lambda>n. Inr (Inl (Inr n :: body_error)))
      | None \<Rightarrow> rbind (additions_for_npc E (npc_list res)) (\<lambda>additions. Inr (Inr (c', npc_list res, additions)))) = Inr (Inr (c, npcs, adds))"
    using assms unfolding run_block_generator_def Some res option.case
    by (elim rbind_InrE) (simp only: check_Inr, elim conjE, rule that, assumption+)
  have none: "npc_error res = None" using c'(3) by (cases "npc_error res") (auto simp: rbind_eq_Inr)
  then have "additions_for_npc E (npc_list res) = Inr adds" "c' = c" "npcs = npc_list res" using c'(3) by (auto simp: rbind_eq_Inr)
  then show ?thesis using c'(1,2) none by (simp add: Some res)
qed

lemma check_outputs_ok:
  assumes "check_outputs env constants ftb adds rems = Inr (Inr dic)"
  shows "named_by (env_crypto env) id dic \<and> (\<forall>n c. map_of dic n = Some c \<longrightarrow> c \<in> set adds) \<and>
    (\<forall>c \<in> set adds. 0 \<le> amount c \<and> amount c \<le> MAX_COIN_AMOUNT constants) \<and>
    validate_block_merkle_roots (env_crypto env) (additions_root ftb) (removals_root ftb) adds rems = Inr None \<and>
    distinct (map (Coin_name (env_crypto env)) adds) \<and> distinct rems"
proof -
  obtain d e where a: "check_amounts (env_crypto env) constants adds [] = Inr (Inr d)"
    and e: "validate_block_merkle_roots (env_crypto env) (additions_root ftb) (removals_root ftb) adds rems = Inr e"
      "(case e of Some e \<Rightarrow> refuse e | None \<Rightarrow>
          check (std_hash (env_crypto env) (body_filter env adds rems) \<noteq> filter_hash ftb) INVALID_TRANSACTIONS_FILTER_HASH
            (check (has_duplicates (map (Coin_name (env_crypto env)) adds)) DUPLICATE_OUTPUT
              (check (has_duplicates rems) DOUBLE_SPEND (Inr (Inr d))))) = Inr (Inr dic)"
    using assms unfolding check_outputs_def Let_def by (elim phase_bind_InrE rbind_InrE)
  have "e = None" using e(2) by (cases e) (simp_all add: refuse_def)
  then show ?thesis
    using e check_amounts_named [OF a] by (simp add: check_Inr has_duplicates_def named_by_def)
qed

lemma check_rewards_ok:
  assumes "check_rewards constants blocks h ftb info = Inr (Inr (ph, expected))"
  shows "expected_reward_coins constants blocks h (ftb_prev_transaction_block_hash ftb) = Inr (ph, expected) \<and>
    set (ti_reward_claims_incorporated info) = set expected \<and> distinct (ti_reward_claims_incorporated info)"
proof -
  have e: "expected_reward_coins constants blocks h (ftb_prev_transaction_block_hash ftb) = Inr (ph, expected)"
    "set (ti_reward_claims_incorporated info) = set expected" "length (ti_reward_claims_incorporated info) = length expected"
    using assms by (auto simp: check_rewards_def check_Inr elim!: rbind_InrE)
  have "distinct (ti_reward_claims_incorporated info)"
    using e(2,3) expected_reward_coins_distinct [OF e(1)] by (metis card_distinct distinct_card)
  then show ?thesis using e by simp
qed

text \<open>Python iterates over a set in some order, once over each element.\<close>

definition set_order_ok :: "('a, 'g) body_env \<Rightarrow> bool" where
  "set_order_ok env \<longleftrightarrow> (\<forall>cs. distinct cs \<longrightarrow> set (env_set_order env cs) = set cs \<and> distinct (env_set_order env cs))"

definition commitments_ok ::
  "('a, 'g) body_env \<Rightarrow> ConsensusConstants \<Rightarrow> BlockchainInterface \<Rightarrow> Block \<Rightarrow> int \<Rightarrow> NPCResult option \<Rightarrow> FoliageTransactionBlock \<Rightarrow>
   TransactionsInfo \<Rightarrow> int \<Rightarrow> NPC list \<Rightarrow> Coin list \<Rightarrow> Coin list \<Rightarrow> bool" where
  "commitments_ok env constants blocks block h result ftb info prev_height npcs additions rewards \<longleftrightarrow>
     (if b_transactions_generator block = None then result = None \<and> npcs = [] \<and> ti_cost info = 0
      else \<exists>res. result = Some res \<and> npc_error res = None \<and> npcs = npc_list res \<and> ti_cost info \<le> MAX_BLOCK_COST_CLVM constants \<and>
        calculate_cost_of_program (the (b_transactions_generator block)) res (COST_PER_BYTE constants) = Inr (ti_cost info)) \<and>
     additions_for_npc (env_crypto env) npcs = Inr additions \<and>
     (\<exists>expected. expected_reward_coins constants blocks h (ftb_prev_transaction_block_hash ftb) = Inr (prev_height, expected) \<and> set rewards = set expected) \<and>
     set (ti_reward_claims_incorporated info) = set rewards \<and> distinct (ti_reward_claims_incorporated info) \<and>
     (\<forall>c \<in> set additions \<union> set rewards. 0 \<le> amount c \<and> amount c \<le> MAX_COIN_AMOUNT constants) \<and>
     distinct (map (Coin_name (env_crypto env)) (additions @ rewards)) \<and>
     validate_block_merkle_roots (env_crypto env) (additions_root ftb) (removals_root ftb) (additions @ rewards) (map coin_name npcs) = Inr None"

lemma body_commitments_ok:
  assumes "body_commitments env constants blocks block h result ftb info = Inr (Inr bd)" "set_order_ok env"
  shows "commitments_ok env constants blocks block h result ftb info (prev_tb_height bd) (body_npcs bd) (body_additions bd) (coinbase_additions bd) \<and>
    body_removals bd = map coin_name (body_npcs bd) \<and> distinct (body_removals bd) \<and> named_by (env_crypto env) id (additions_dic bd) \<and>
    (\<forall>n c. map_of (additions_dic bd) n = Some c \<longrightarrow> c \<in> set (body_additions bd @ coinbase_additions bd))"
proof -
  obtain ph expected c npcs adds dic
    where r: "check_rewards constants blocks h ftb info = Inr (Inr (ph, expected))"
      and g: "run_block_generator (env_crypto env) constants (b_transactions_generator block) result = Inr (Inr (c, npcs, adds))"
      and c: "ti_cost info = c"
      and o: "check_outputs env constants ftb (adds @ env_set_order env expected) (map coin_name npcs) = Inr (Inr dic)"
      and bd: "bd = \<lparr> prev_tb_height = ph, body_npcs = npcs, body_removals = map coin_name npcs, body_additions = adds,
                 coinbase_additions = env_set_order env expected, additions_dic = dic \<rparr>"
    using assms(1) by (auto simp: body_commitments_def Let_def check_Inr elim!: phase_bind_InrE)
  note r' = check_rewards_ok [OF r]
  have ord: "set (env_set_order env expected) = set expected"
    using assms(2) expected_reward_coins_distinct [of constants blocks h "ftb_prev_transaction_block_hash ftb" ph expected] r' by (simp add: set_order_ok_def)
  show ?thesis
    using r' ord run_block_generator_ok [OF g] check_outputs_ok [OF o] c
    unfolding commitments_ok_def bd by (simp add: ball_Un)
qed

section \<open>What the roots commit to\<close>

text \<open>For every puzzle hash of a new coin, the hash itself and the hash of the list of its coins.\<close>

definition addition_commitments :: "crypto \<Rightarrow> Coin list \<Rightarrow> bytes set" where
  "addition_commitments E adds =
     (\<Union>c \<in> set adds. {puzzle_hash c, hash_coin_list E (filter (\<lambda>x. puzzle_hash x = puzzle_hash c) adds)})"

lemma coins_by_puzzle_hash_groups:
  "distinct (dkeys (coins_by_puzzle_hash adds)) \<and>
   map_of (coins_by_puzzle_hash adds) p =
     (if p \<in> puzzle_hash ` set adds then Some (filter (\<lambda>x. puzzle_hash x = p) adds) else None)"
proof (induction adds arbitrary: p rule: rev_induct)
  case (snoc c adds)
  have "coins_by_puzzle_hash (adds @ [c]) =
      dput (puzzle_hash c) (filter (\<lambda>x. puzzle_hash x = puzzle_hash c) adds @ [c]) (coins_by_puzzle_hash adds)"
  proof -
    have "(case map_of (coins_by_puzzle_hash adds) (puzzle_hash c) of None \<Rightarrow> [] | Some cs \<Rightarrow> cs) = filter (\<lambda>x. puzzle_hash x = puzzle_hash c) adds"
    proof (cases "puzzle_hash c \<in> puzzle_hash ` set adds")
      case False
      then have "filter (\<lambda>x. puzzle_hash x = puzzle_hash c) adds = []" by (auto simp: filter_empty_conv image_iff)
      then show ?thesis using snoc [of "puzzle_hash c"] False by simp
    qed (use snoc [of "puzzle_hash c"] in simp)
    then show ?thesis by (simp add: coins_by_puzzle_hash_def)
  qed
  then show ?case using snoc by auto
qed (simp add: coins_by_puzzle_hash_def)

definition addition_values :: "crypto \<Rightarrow> Coin list \<Rightarrow> bytes list" where
  "addition_values E adds = concat (map (\<lambda>(p, cs). [p, hash_coin_list E cs]) (coins_by_puzzle_hash adds))"

lemma set_addition_values: "set (addition_values E adds) = addition_commitments E adds"
proof -
  have "(p, cs) \<in> set (coins_by_puzzle_hash adds) \<longleftrightarrow> p \<in> puzzle_hash ` set adds \<and> cs = filter (\<lambda>x. puzzle_hash x = p) adds" for p cs
    using coins_by_puzzle_hash_groups [of adds p] by (auto simp: map_of_eq_Some_iff [symmetric] split: if_splits)
  then have d: "set (coins_by_puzzle_hash adds) = (\<lambda>c. (puzzle_hash c, filter (\<lambda>x. puzzle_hash x = puzzle_hash c) adds)) ` set adds"
    by (auto simp: set_eq_iff image_iff)
  show ?thesis by (simp add: addition_values_def addition_commitments_def d image_image)
qed

lemma additions_set_eq: "additions_set E adds = rfold (add_already_hashed E) (addition_values E adds) (MerkleSet_new None)"
proof -
  have "rfold (\<lambda>(puzzle, coins) s. rbind (add_already_hashed E puzzle s) (add_already_hashed E (hash_coin_list E coins))) d s =
      rfold (add_already_hashed E) (concat (map (\<lambda>(p, cs). [p, hash_coin_list E cs]) d)) s" for d s
    by (induction d arbitrary: s) (auto simp: rbind_assoc intro!: rbind_cong)
  then show ?thesis by (simp add: additions_set_def addition_values_def)
qed

lemma hash_coin_list_length: "crypto_ok E \<Longrightarrow> length (hash_coin_list E cs) = 32"
  by (simp add: hash_coin_list_def std_hash_def crypto_ok_def)

lemma root_total:
  assumes "crypto_ok E" "set_ok E s"
  shows "\<exists>rt. get_root E s = Inr rt"
  using assms compress_root_total [OF assms(1)] by (auto simp: get_root_def set_ok_def)

definition sizes_ok :: "Coin list \<Rightarrow> bytes list \<Rightarrow> bool" where
  "sizes_ok adds rems \<longleftrightarrow> (\<forall>c \<in> set adds. length (puzzle_hash c) = 32) \<and> (\<forall>n \<in> set rems. length n = 32)"

lemma validate_block_merkle_roots_eq:
  assumes "crypto_ok E" "sizes_ok adds rems"
  obtains a r ar rr where "additions_set E adds = Inr a" "set_ok E a" "values_of a = addition_commitments E adds" "get_root E a = Inr ar"
    "rfold (add_already_hashed E) rems (MerkleSet_new None) = Inr r" "set_ok E r" "values_of r = set rems" "get_root E r = Inr rr"
    "\<And>x y. validate_block_merkle_roots E x y adds rems =
       Inr (if x \<noteq> ar then Some BAD_ADDITION_ROOT else if y \<noteq> rr then Some BAD_REMOVAL_ROOT else None)"
proof -
  have "\<forall>x \<in> set (addition_values E adds). length x = 32"
    using assms(2) by (auto simp: set_addition_values addition_commitments_def sizes_ok_def hash_coin_list_length [OF assms(1)])
  from ms.add_all [OF assms(1) this] obtain a where a: "additions_set E adds = Inr a" "set_ok E a" "values_of a = addition_commitments E adds"
    by (auto simp: additions_set_eq set_addition_values)
  have "\<forall>x \<in> set rems. length x = 32" using assms(2) by (simp add: sizes_ok_def)
  from ms.add_all [OF assms(1) this] obtain r where r: "rfold (add_already_hashed E) rems (MerkleSet_new None) = Inr r" "set_ok E r" "values_of r = set rems"
    by blast
  obtain ar rr where rt: "get_root E a = Inr ar" "get_root E r = Inr rr" using root_total [OF assms(1)] a(2) r(2) by blast
  show ?thesis
    by (rule that [OF a rt(1) r rt(2)]) (simp add: validate_block_merkle_roots_def a(1) r(1) rt)
qed

text \<open>The string that \<^verbatim>\<open>hash_coin_list\<close> hashes determines the coins, up to their order.\<close>

definition group_names :: "crypto \<Rightarrow> Coin list \<Rightarrow> bytes list" where
  "group_names E cs = map (Coin_name E) (sort_reverse (Coin_name_str E) cs)"

lemma hash_coin_list_eq: "hash_coin_list E cs = hash256 E (concat (group_names E cs))"
  by (simp add: hash_coin_list_def std_hash_def group_names_def)

lemma mset_group_names: "mset (group_names E cs) = mset (map (Coin_name E) cs)"
  by (simp add: group_names_def sort_reverse_def)

lemma group_names_sorted: "sorted (map bytes_hex (rev (group_names E cs)))"
proof -
  have "map bytes_hex (rev (group_names E cs)) = map (Coin_name_str E) (sort_key (Coin_name_str E) (rev cs))"
    by (simp add: group_names_def sort_reverse_def rev_map Coin_name_str_def)
  then show ?thesis by simp
qed

lemma concat_names_inject:
  assumes "\<forall>x \<in> set xs \<union> set ys. length x = n" "0 < n" "concat xs = concat ys"
  shows "xs = ys"
  using assms
proof (induction xs arbitrary: ys)
  case Nil
  then show ?case by (cases ys) auto
next
  case (Cons x xs)
  then obtain y zs where ys: "ys = y # zs" by (cases ys) auto
  have "length x = length y" using Cons.prems(1) ys by simp
  then have "x = y" "concat xs = concat zs" using Cons.prems(3) ys by auto
  then show ?case using Cons.IH [of zs] Cons.prems(1,2) ys by simp
qed

lemma Coin_name_length: "crypto_ok E \<Longrightarrow> length (Coin_name E c) = 32"
  by (simp add: Coin_name_def Coin_get_hash_def std_hash_def crypto_ok_def)

lemma group_names_mset: "mset cs = mset ds \<Longrightarrow> group_names E cs = group_names E ds"
proof -
  assume "mset cs = mset ds"
  then have m: "mset (rev (group_names E cs)) = mset (rev (group_names E ds))" by (simp add: mset_group_names)
  have inj: "inj_on bytes_hex X" for X by (simp add: inj_on_def)
  have "sort_key bytes_hex (rev (group_names E cs)) = rev (group_names E ds)"
    by (rule sort_key_inj_key_eq [OF m inj group_names_sorted])
  moreover have "sort_key bytes_hex (rev (group_names E cs)) = rev (group_names E cs)"
    by (rule sort_key_inj_key_eq [OF HOL.refl inj group_names_sorted])
  ultimately show ?thesis by simp
qed

text \<open>The strings that are hashed to name the new coins and to compute the two roots.\<close>

definition coins_with :: "bytes \<Rightarrow> Coin list \<Rightarrow> Coin list" where
  "coins_with p adds = filter (\<lambda>x. puzzle_hash x = p) adds"

definition addition_preimages :: "crypto \<Rightarrow> Coin list \<Rightarrow> bytes set" where
  "addition_preimages E adds =
     Coin_preimage E ` set adds \<union> (\<lambda>c. concat (group_names E (coins_with (puzzle_hash c) adds))) ` set adds"

definition block_preimages :: "crypto \<Rightarrow> Coin list \<Rightarrow> bytes list \<Rightarrow> bytes set" where
  "block_preimages E adds rems =
     addition_preimages E adds \<union>
     (case additions_set E adds of Inr s \<Rightarrow> set_preimages s | Inl _ \<Rightarrow> {}) \<union>
     (case rfold (add_already_hashed E) rems (MerkleSet_new None) of Inr s \<Rightarrow> set_preimages s | Inl _ \<Rightarrow> {})"

text \<open>No puzzle hash of a new coin is the hash of one of the groups of new coins.\<close>

definition puzzles_apart :: "crypto \<Rightarrow> Coin list \<Rightarrow> Coin list \<Rightarrow> bool" where
  "puzzles_apart E adds adds' \<longleftrightarrow>
     (\<forall>c \<in> set adds \<union> set adds'. \<forall>d \<in> set adds \<union> set adds'.
        puzzle_hash c \<noteq> hash_coin_list E (coins_with (puzzle_hash d) adds) \<and> puzzle_hash c \<noteq> hash_coin_list E (coins_with (puzzle_hash d) adds'))"

lemma collision_free_mono: "collision_free E S \<Longrightarrow> T \<subseteq> S \<Longrightarrow> collision_free E T"
  by (auto simp: collision_free_def intro: inj_on_subset)

lemma addition_commitments_with:
  "addition_commitments E adds = (\<Union>c \<in> set adds. {puzzle_hash c, hash_coin_list E (coins_with (puzzle_hash c) adds)})"
  by (simp add: addition_commitments_def coins_with_def)

lemma image_mset_inject:
  assumes "image_mset f A = image_mset f B" "inj_on f (set_mset A \<union> set_mset B)"
  shows "A = B"
proof -
  let ?g = "the_inv_into (set_mset A \<union> set_mset B) f"
  have "image_mset ?g (image_mset f X) = X" if "set_mset X \<subseteq> set_mset A \<union> set_mset B" for X
  proof -
    have "image_mset (\<lambda>x. ?g (f x)) X = image_mset (\<lambda>x. x) X"
      by (rule image_mset_cong) (use that assms(2) in \<open>blast intro: the_inv_into_f_f\<close>)
    then show ?thesis unfolding multiset.map_comp comp_def multiset.map_ident .
  qed
  from this [of A, OF Un_upper1] this [of B, OF Un_upper2] show ?thesis unfolding assms(1) by (rule trans [OF sym])
qed

lemma same_groups:
  assumes "crypto_ok E" "inj_on (hash256 E) (addition_preimages E adds \<union> addition_preimages E adds')"
    and "\<forall>c \<in> set adds \<union> set adds'. length (parent_coin_info c) = 32 \<and> length (puzzle_hash c) = 32"
    and "c \<in> set adds" "d \<in> set adds'"
    and "hash_coin_list E (coins_with (puzzle_hash c) adds) = hash_coin_list E (coins_with (puzzle_hash d) adds')"
  shows "mset (coins_with (puzzle_hash c) adds) = mset (coins_with (puzzle_hash d) adds')"
proof -
  let ?A = "coins_with (puzzle_hash c) adds" and ?B = "coins_with (puzzle_hash d) adds'"
  have "concat (group_names E ?A) = concat (group_names E ?B)"
    using assms(6) unfolding hash_coin_list_eq
    by (rule inj_onD [OF assms(2)]) (use assms(4,5) in \<open>auto simp: addition_preimages_def\<close>)
  then have "group_names E ?A = group_names E ?B"
    by (rule concat_names_inject [where n = 32, rotated 2]) (auto simp: group_names_def Coin_name_length [OF assms(1)])
  then have "image_mset (Coin_name E) (mset ?A) = image_mset (Coin_name E) (mset ?B)"
    using mset_group_names [of E ?A] mset_group_names [of E ?B] by simp
  moreover have "inj_on (Coin_name E) (set adds \<union> set adds')"
  proof (rule inj_onI)
    fix x y assume xy: "x \<in> set adds \<union> set adds'" "y \<in> set adds \<union> set adds'" "Coin_name E x = Coin_name E y"
    then have "Coin_preimage E x = Coin_preimage E y"
      using assms(2) by (auto simp: Coin_name_def Coin_get_hash_def std_hash_def addition_preimages_def dest: inj_onD)
    then show "x = y" using Coin_preimage_inject [OF assms(1), of x y] assms(3) xy by blast
  qed
  then have "inj_on (Coin_name E) (set_mset (mset ?A) \<union> set_mset (mset ?B))" by (rule inj_on_subset) (auto simp: coins_with_def)
  ultimately show ?thesis by (rule image_mset_inject)
qed

text \<open>The leaves of the additions determine the new coins.\<close>

lemma group_in_other:
  assumes "crypto_ok E" "inj_on (hash256 E) (addition_preimages E adds \<union> addition_preimages E adds')"
    and "\<forall>c \<in> set adds \<union> set adds'. length (parent_coin_info c) = 32 \<and> length (puzzle_hash c) = 32"
    and "puzzles_apart E adds adds'" "addition_commitments E adds \<subseteq> addition_commitments E adds'" "c \<in> set adds"
  shows "mset (coins_with (puzzle_hash c) adds) = mset (coins_with (puzzle_hash c) adds')"
proof -
  let ?A = "coins_with (puzzle_hash c) adds"
  have "hash_coin_list E ?A \<in> addition_commitments E adds'" using assms(5,6) by (auto simp: addition_commitments_with)
  then obtain d where d: "d \<in> set adds'" "hash_coin_list E ?A = puzzle_hash d \<or> hash_coin_list E ?A = hash_coin_list E (coins_with (puzzle_hash d) adds')"
    by (auto simp: addition_commitments_with)
  have "hash_coin_list E ?A \<noteq> puzzle_hash d" using assms(4,6) d(1) unfolding puzzles_apart_def by (metis UnCI)
  then have m: "mset ?A = mset (coins_with (puzzle_hash d) adds')" using same_groups [OF assms(1-3,6) d(1)] d(2) by blast
  have "c \<in> set (coins_with (puzzle_hash d) adds')" using assms(6) arg_cong [OF m, of set_mset] by (auto simp: coins_with_def)
  then show ?thesis using m by (simp add: coins_with_def)
qed

lemma commitments_determine_coins:
  assumes "crypto_ok E" "inj_on (hash256 E) (addition_preimages E adds \<union> addition_preimages E adds')"
    and "\<forall>c \<in> set adds \<union> set adds'. length (parent_coin_info c) = 32 \<and> length (puzzle_hash c) = 32"
    and "puzzles_apart E adds adds'"
  shows "addition_commitments E adds = addition_commitments E adds' \<longleftrightarrow> mset adds = mset adds'"
proof
  assume eq: "addition_commitments E adds = addition_commitments E adds'"
  have apart: "puzzles_apart E adds' adds" using assms(4) by (simp add: puzzles_apart_def Un_commute conj_commute)
  have sw: "inj_on (hash256 E) (addition_preimages E adds' \<union> addition_preimages E adds)" using assms(2) by (simp add: Un_commute)
  have sz: "\<forall>c \<in> set adds' \<union> set adds. length (parent_coin_info c) = 32 \<and> length (puzzle_hash c) = 32" using assms(3) by blast
  have part: "mset (coins_with (puzzle_hash c) adds) = mset (coins_with (puzzle_hash c) adds')" if "c \<in> set adds \<union> set adds'" for c
    using that group_in_other [OF assms(1-4), of c] group_in_other [OF assms(1) sw sz apart, of c] eq by auto
  have count: "count (mset (coins_with (puzzle_hash c) l)) c = count (mset l) c" for c l by (induction l) (auto simp: coins_with_def)
  show "mset adds = mset adds'"
  proof (rule multiset_eqI)
    fix c
    show "count (mset adds) c = count (mset adds') c"
    proof (cases "c \<in> set adds \<union> set adds'")
      case True
      then show ?thesis using part [OF True] count [of c adds] count [of c adds'] by simp
    next
      case False
      then have 0: "count (mset adds) c = 0" "count (mset adds') c = 0" by (simp_all add: count_eq_zero_iff)
      show ?thesis unfolding 0 ..
    qed
  qed
next
  assume m: "mset adds = mset adds'"
  then have "set adds = set adds'" by (metis set_mset_mset)
  moreover have "group_names E (coins_with p adds) = group_names E (coins_with p adds')" for p
    by (rule group_names_mset) (use m in \<open>simp add: coins_with_def\<close>)
  ultimately show "addition_commitments E adds = addition_commitments E adds'" by (simp add: addition_commitments_with hash_coin_list_eq)
qed

text \<open>
  C14. The two roots of a block commit to its coins: the check never raises on hashes of 32 bytes, and when one block passes it, another
  block passes it with the same roots exactly when it removes the same set of coins and creates the same coins (equal as multisets).
  This is unless the hash function has a collision among the strings that were hashed, and for coins whose puzzle hashes are not
  themselves hashes of the groups of coins: puzzle hashes and hashes of groups are leaves of one set, which does not tell them apart.
\<close>

theorem block_roots_commit:
  assumes "crypto_ok E" "list_all Coin_wf (adds @ adds')" "list_all (\<lambda>n. length n = 32) (rems @ rems')"
    and "collision_free E (block_preimages E adds rems \<union> block_preimages E adds' rems')" "puzzles_apart E adds adds'"
    and "validate_block_merkle_roots E additions_rt removals_rt adds rems = Inr None"
  shows "\<exists>e. validate_block_merkle_roots E additions_rt removals_rt adds' rems' = Inr e \<and>
    (e = None \<longleftrightarrow> set rems' = set rems \<and> mset adds' = mset adds)"
proof -
  have sizes: "sizes_ok adds rems" "sizes_ok adds' rems'" using assms(2,3) by (auto simp: sizes_ok_def list_all_iff Coin_wf_def)
  obtain a r ar rr where 1: "additions_set E adds = Inr a" "set_ok E a" "values_of a = addition_commitments E adds" "get_root E a = Inr ar"
    "rfold (add_already_hashed E) rems (MerkleSet_new None) = Inr r" "set_ok E r" "values_of r = set rems" "get_root E r = Inr rr"
    "\<And>x y. validate_block_merkle_roots E x y adds rems =
       Inr (if x \<noteq> ar then Some BAD_ADDITION_ROOT else if y \<noteq> rr then Some BAD_REMOVAL_ROOT else None)"
    by (rule validate_block_merkle_roots_eq [OF assms(1) sizes(1)]) (rule that)
  obtain a' r' ar' rr' where 2: "additions_set E adds' = Inr a'" "set_ok E a'" "values_of a' = addition_commitments E adds'" "get_root E a' = Inr ar'"
    "rfold (add_already_hashed E) rems' (MerkleSet_new None) = Inr r'" "set_ok E r'" "values_of r' = set rems'" "get_root E r' = Inr rr'"
    "\<And>x y. validate_block_merkle_roots E x y adds' rems' =
       Inr (if x \<noteq> ar' then Some BAD_ADDITION_ROOT else if y \<noteq> rr' then Some BAD_REMOVAL_ROOT else None)"
    by (rule validate_block_merkle_roots_eq [OF assms(1) sizes(2)]) (rule that)
  have free: "collision_free E (set_preimages a \<union> set_preimages a')" "collision_free E (set_preimages r \<union> set_preimages r')"
    "collision_free E (addition_preimages E adds \<union> addition_preimages E adds')"
    using assms(4) by (auto simp: block_preimages_def 1(1,5) 2(1,5) intro: collision_free_mono)
  have "additions_rt = ar" "removals_rt = rr" using assms(6) by (auto simp: 1(9) split: if_splits)
  moreover have "ar = ar' \<longleftrightarrow> addition_commitments E adds = addition_commitments E adds'"
    using root_commits [OF assms(1) 1(2) 2(2) free(1)] by (simp add: 1(3,4) 2(3,4))
  moreover have "addition_commitments E adds = addition_commitments E adds' \<longleftrightarrow> mset adds = mset adds'"
    using free(3) assms(2,5) by (intro commitments_determine_coins [OF assms(1)]) (auto simp: collision_free_def list_all_iff Coin_wf_def)
  moreover have "rr = rr' \<longleftrightarrow> set rems = set rems'"
    using root_commits [OF assms(1) 1(6) 2(6) free(2)] by (simp add: 1(7,8) 2(7,8))
  ultimately show ?thesis by (auto simp: 2(9))
qed

text \<open>
  Why the puzzle hashes have to be apart: next to coins with the puzzle hashes of two groups, either group of one puzzle hash gives the
  same leaves and so the same root.
\<close>

lemma additions_root_ambiguous:
  assumes "crypto_ok E" "G \<noteq> []" "X \<noteq> []" "\<forall>c \<in> set (G @ X). puzzle_hash c = p"
    and "K \<noteq> []" "\<forall>c \<in> set K. puzzle_hash c = hash_coin_list E G" "L \<noteq> []" "\<forall>c \<in> set L. puzzle_hash c = hash_coin_list E X"
    and "distinct [p, hash_coin_list E G, hash_coin_list E X]" "sizes_ok (G @ K @ L) rems" "sizes_ok (X @ K @ L) rems"
  shows "validate_block_merkle_roots E x y (G @ K @ L) rems = validate_block_merkle_roots E x y (X @ K @ L) rems"
proof -
  have all: "coins_with q l = (if q = h then l else [])" if "\<forall>c \<in> set l. puzzle_hash c = h" for q h l
    using that by (auto simp: coins_with_def filter_empty_conv intro: filter_True)
  have app: "coins_with q (a @ b) = coins_with q a @ coins_with q b" for q a b by (simp add: coins_with_def)
  have leaves: "addition_commitments E (Z @ K @ L) = {p, hash_coin_list E Z, hash_coin_list E G, hash_coin_list E K, hash_coin_list E X, hash_coin_list E L}"
    if Z: "Z \<noteq> []" "\<forall>c \<in> set Z. puzzle_hash c = p" for Z
  proof -
    have groups: "coins_with p (Z @ K @ L) = Z" "coins_with (hash_coin_list E G) (Z @ K @ L) = K" "coins_with (hash_coin_list E X) (Z @ K @ L) = L"
      using assms(9) by (auto simp: app all [OF Z(2)] all [OF assms(6)] all [OF assms(8)])
    have part: "(\<Union>c \<in> set l. {puzzle_hash c, hash_coin_list E (coins_with (puzzle_hash c) (Z @ K @ L))}) = {h, hash_coin_list E (coins_with h (Z @ K @ L))}"
      if "l \<noteq> []" "\<forall>c \<in> set l. puzzle_hash c = h" for l h
      using that by (cases l) auto
    have "addition_commitments E (Z @ K @ L) =
        (\<Union>c \<in> set Z. {puzzle_hash c, hash_coin_list E (coins_with (puzzle_hash c) (Z @ K @ L))}) \<union>
        (\<Union>c \<in> set K. {puzzle_hash c, hash_coin_list E (coins_with (puzzle_hash c) (Z @ K @ L))}) \<union>
        (\<Union>c \<in> set L. {puzzle_hash c, hash_coin_list E (coins_with (puzzle_hash c) (Z @ K @ L))})"
      unfolding addition_commitments_with set_append UN_Un by blast
    also have "\<dots> = {p, hash_coin_list E Z, hash_coin_list E G, hash_coin_list E K, hash_coin_list E X, hash_coin_list E L}"
      unfolding part [OF Z] part [OF assms(5,6)] part [OF assms(7,8)] groups by auto
    finally show ?thesis .
  qed
  have eq: "addition_commitments E (G @ K @ L) = addition_commitments E (X @ K @ L)"
    using leaves [OF assms(2)] leaves [OF assms(3)] assms(4) by auto
  obtain a r ar rr where 1: "additions_set E (G @ K @ L) = Inr a" "set_ok E a" "values_of a = addition_commitments E (G @ K @ L)" "get_root E a = Inr ar"
    "rfold (add_already_hashed E) rems (MerkleSet_new None) = Inr r" "set_ok E r" "values_of r = set rems" "get_root E r = Inr rr"
    "\<And>x y. validate_block_merkle_roots E x y (G @ K @ L) rems =
       Inr (if x \<noteq> ar then Some BAD_ADDITION_ROOT else if y \<noteq> rr then Some BAD_REMOVAL_ROOT else None)"
    by (rule validate_block_merkle_roots_eq [OF assms(1,10)]) (rule that)
  obtain a' r' ar' rr' where 2: "additions_set E (X @ K @ L) = Inr a'" "set_ok E a'" "values_of a' = addition_commitments E (X @ K @ L)" "get_root E a' = Inr ar'"
    "rfold (add_already_hashed E) rems (MerkleSet_new None) = Inr r'" "set_ok E r'" "values_of r' = set rems" "get_root E r' = Inr rr'"
    "\<And>x y. validate_block_merkle_roots E x y (X @ K @ L) rems =
       Inr (if x \<noteq> ar' then Some BAD_ADDITION_ROOT else if y \<noteq> rr' then Some BAD_REMOVAL_ROOT else None)"
    by (rule validate_block_merkle_roots_eq [OF assms(1,11)]) (rule that)
  have "root a = root a'"
    using 1(2,3) 2(2,3) eq canonical [of E "[]" "root a" "root a'"] by (simp add: set_ok_def values_of_def)
  then have "ar = ar'" using 1(4) 2(4) by (simp add: get_root_def)
  moreover have "rr = rr'" using 1(5,8) 2(5,8) by simp
  ultimately show ?thesis by (simp add: 1(9) 2(9))
qed

section \<open>Accepted blocks\<close>

text \<open>
  What a valid list of spends is: \<open>removed\<close> are the coins spent, in order. Each is created by the block or unspent at its parent,
  none is spent twice, the puzzles are those the coins ask for, and value is conserved up to the fees.
\<close>

definition block_spends_ok ::
  "crypto \<Rightarrow> int \<Rightarrow> int \<Rightarrow> int \<Rightarrow> (bytes \<Rightarrow> Coin option) \<Rightarrow> Coin list \<Rightarrow> Coin list \<Rightarrow> int \<Rightarrow> NPC list \<Rightarrow> Coin list \<Rightarrow> bool" where
  "block_spends_ok E now prev_height ts ledger additions rewards fee npcs removed \<longleftrightarrow>
     map (Coin_name E) removed = map coin_name npcs \<and> distinct (map (Coin_name E) removed) \<and>
     map puzzle_hash removed = map npc_puzzle_hash npcs \<and>
     (\<forall>c \<in> set removed. c \<in> set additions \<union> set rewards \<or> ledger (Coin_name E c) = Some c) \<and>
     total_amount removed = total_amount additions + fee \<and> 0 \<le> fee \<and>
     (\<exists>t. reserved_fees E npcs 0 = Inr (Inr t) \<and> t \<le> fee) \<and>
     (\<forall>npc \<in> set npcs. \<exists>r d. coin r \<in> set removed \<and> Coin_name E (coin r) = coin_name npc \<and> condition_dict npc = Inr d \<and>
        mempool_check_conditions_dict E now r d prev_height (Some ts) = Inr None)"

lemma puzzle_dic:
  assumes "distinct (map coin_name npcs)" "npc \<in> set npcs"
  shows "map_of (fold (\<lambda>npc. dput (coin_name npc) (npc_puzzle_hash npc)) npcs d) (coin_name npc) = Some (npc_puzzle_hash npc)"
proof -
  have keep: "map_of (fold (\<lambda>npc. dput (coin_name npc) (npc_puzzle_hash npc)) l d) n = map_of d n" if "n \<notin> coin_name ` set l" for l d n
    using that by (induction l arbitrary: d) auto
  show ?thesis using assms
  proof (induction npcs arbitrary: d)
    case (Cons a npcs)
    show ?case
    proof (cases "npc = a")
      case True
      then show ?thesis using Cons.prems(1) keep [of "coin_name a" npcs "dput (coin_name a) (npc_puzzle_hash a) d"] by simp
    next
      case False
      then show ?thesis using Cons by simp
    qed
  qed simp
qed

lemma check_spends_ok:
  assumes "check_spends E constants now h ftb info bd records = Inr (Inr u)"
    and names: "dkeys records = map coin_name (body_npcs bd)" "distinct (dkeys records)"
    and recs: "\<forall>x \<in> set records. removal_ok E view fork_h s (additions_dic bd) x"
    and dic: "\<forall>n c. map_of (additions_dic bd) n = Some c \<longrightarrow> c \<in> set (body_additions bd @ coinbase_additions bd)"
  shows "block_spends_ok E now (prev_tb_height bd) (ftb_timestamp ftb) (parent_ledger view fork_h s) (body_additions bd) (coinbase_additions bd)
    (ti_fees info) (body_npcs bd) (map coin (dvalues records))"
proof -
  let ?rs = "dvalues records"
  obtain u1 u2 where f: "check_fees E constants h info bd records = Inr (Inr u1)"
    and p: "check_puzzle_hashes E (fold (\<lambda>npc. dput (coin_name npc) (npc_puzzle_hash npc)) (body_npcs bd) []) ?rs = Inr (Inr u2)"
    and c: "check_conditions E now (prev_tb_height bd) (ftb_timestamp ftb) records (body_npcs bd) = Inr (Inr u)"
    using assms(1) unfolding check_spends_def by (elim phase_bind_InrE)
  have nm: "Coin_name E (coin r) = n" if "(n, r) \<in> set records" for n r using recs that by (auto simp: removal_ok_def)
  have keys: "map (Coin_name E) (map coin ?rs) = map coin_name (body_npcs bd)"
    using nm unfolding names(1) [symmetric] by auto
  have len: "length ?rs = length (body_npcs bd)" using arg_cong [OF names(1), of length] by simp
  have ph: "map puzzle_hash (map coin ?rs) = map npc_puzzle_hash (body_npcs bd)"
  proof (rule nth_equalityI)
    fix i assume "i < length (map puzzle_hash (map coin ?rs))"
    then have i: "i < length ?rs" "i < length (body_npcs bd)" using len by simp_all
    have "CoinRecord_name E (?rs ! i) = coin_name (body_npcs bd ! i)" using arg_cong [OF keys, of "\<lambda>l. l ! i"] i by (simp add: CoinRecord_name_def)
    then show "map puzzle_hash (map coin ?rs) ! i = map npc_puzzle_hash (body_npcs bd) ! i"
      using check_puzzle_hashes_ok [OF p, of "?rs ! i"] puzzle_dic [of "body_npcs bd" "body_npcs bd ! i" "[]"] names i by simp
  qed (use len in simp)
  have avail: "c \<in> set (body_additions bd) \<union> set (coinbase_additions bd) \<or> parent_ledger view fork_h s (Coin_name E c) = Some c"
    if "c \<in> set (map coin ?rs)" for c
  proof -
    from that obtain n r where r: "(n, r) \<in> set records" "c = coin r" by auto
    have "removal_ok E view fork_h s (additions_dic bd) (n, r)" using recs r(1) by blast
    then have "map_of (additions_dic bd) n = Some c \<or> parent_ledger view fork_h s n = Some c" "Coin_name E c = n"
      by (auto simp: removal_ok_def r(2))
    then show ?thesis using dic by (metis Un_iff set_append)
  qed
  have conds: "\<exists>r d. coin r \<in> set (map coin ?rs) \<and> Coin_name E (coin r) = coin_name npc \<and> condition_dict npc = Inr d \<and>
      mempool_check_conditions_dict E now r d (prev_tb_height bd) (Some (ftb_timestamp ftb)) = Inr None" if npc: "npc \<in> set (body_npcs bd)" for npc
  proof -
    obtain r d where r: "map_of records (coin_name npc) = Some r" "condition_dict npc = Inr d"
      "mempool_check_conditions_dict E now r d (prev_tb_height bd) (Some (ftb_timestamp ftb)) = Inr None"
      using check_conditions_ok [OF c npc] by blast
    have i: "(coin_name npc, r) \<in> set records" using r(1) by (rule map_of_SomeD)
    have "coin r \<in> set (map coin ?rs)" using imageI [OF i, of "\<lambda>x. coin (snd x)"] by (simp add: image_image)
    then show ?thesis using nm [OF i] r by blast
  qed
  have dis: "distinct (map (Coin_name E) (map coin ?rs))" using names(2) by (simp only: keys names(1))
  have avail': "\<forall>c \<in> set (map coin ?rs). c \<in> set (body_additions bd) \<union> set (coinbase_additions bd) \<or> parent_ledger view fork_h s (Coin_name E c) = Some c"
    by (rule ballI) (rule avail)
  show ?thesis
    unfolding block_spends_ok_def
    using keys dis ph avail' check_fees_ok [OF f] conds by (intro conjI ballI) (simp only: | blast)+
qed

lemma pkm_pairs_ok:
  assumes "pkm_pairs npcs ad = Inr (pks, msgs)"
  shows "length pks = length msgs \<and> (\<forall>pk \<in> set pks. length pk = 48)"
proof -
  have "length pks' = length msgs' \<and> (\<forall>pk \<in> set pks'. length pk = 48)"
    if "rfold (pkm_pairs_npc ad) npcs (pks0, msgs0) = Inr (pks', msgs')" "length pks0 = length msgs0" "\<forall>pk \<in> set pks0. length pk = 48" for pks0 msgs0 pks' msgs'
    using that
  proof (induction npcs arbitrary: pks0 msgs0)
    case (Cons npc npcs)
    then have ok: "sigs_ok npc" by (simp add: pkm_pairs_npc_eq split: if_splits)
    have new: "length pk = 48" if pk: "pk \<in> fst ` set (sig_pairs ad npc)" for pk
    proof -
      obtain op l cwa where "(op, l) \<in> set (conditions npc)" "sig_opcode op" "cwa \<in> set l" "pk = vars cwa ! 0"
        using pk by (auto simp: sig_pairs_def sig_pair_def split: if_splits)
      then show ?thesis using ok unfolding sigs_ok_def sig_args_ok_def by blast
    qed
    have "rfold (pkm_pairs_npc ad) npcs (pks0 @ map fst (sig_pairs ad npc), msgs0 @ map snd (sig_pairs ad npc)) = Inr (pks', msgs')"
      using Cons.prems(1) ok by (simp add: pkm_pairs_npc_eq)
    from Cons.IH [OF this] show ?case using Cons.prems(2,3) new by (simp add: ball_Un)
  qed simp
  from this [of "[]" "[]"] assms show ?thesis by (simp add: pkm_pairs_def)
qed

text \<open>The caches and the BLS library: \<open>S\<close> has the strings whose hashes are keys of the cache of pairings.\<close>

definition signatures_ok :: "('a, 'g) body_env \<Rightarrow> bytes set \<Rightarrow> bytes \<Rightarrow> NPC list \<Rightarrow> (bytes, 'g) LRUCache \<Rightarrow> bool" where
  "signatures_ok env S ad npcs c \<longleftrightarrow>
     bls_ok (env_bls env) \<and> pairings_ok (env_crypto env) (env_bls env) S c \<and> inj_on (hash256 (env_crypto env)) S \<and>
     (\<forall>pks msgs. pkm_pairs npcs ad = Inr (pks, msgs) \<longrightarrow> (\<forall>(pk, msg) \<in> set (zip pks msgs). pk @ msg \<in> S))"

lemma check_signature_ok:
  assumes "check_signature env constants vs block npcs sig c = Inr (True, c')" "signatures_ok env S (AGG_SIG_ME_ADDITIONAL_DATA constants) npcs c"
  shows "\<exists>pks msgs. pkm_pairs npcs (AGG_SIG_ME_ADDITIONAL_DATA constants) = Inr (pks, msgs) \<and>
    (vs \<longrightarrow> (\<forall>pk \<in> set pks. pk_valid (env_bls env) pk) \<and> bls_aggregate_verify (env_bls env) pks msgs sig) \<and>
    pairings_ok (env_crypto env) (env_bls env) S c'"
proof -
  obtain pks msgs where p: "pkm_pairs npcs (AGG_SIG_ME_ADDITIONAL_DATA constants) = Inr (pks, msgs)"
    using assms(1) by (auto simp: check_signature_def elim!: rbind_InrE)
  note lens = pkm_pairs_ok [OF p]
  have "\<forall>(pk, msg) \<in> set (zip pks msgs). pk @ msg \<in> S" using assms(2) p by (simp add: signatures_ok_def)
  then have keys: "keys_in S (zip pks msgs)" using lens by (auto simp: keys_in_def dest: set_zip_leftD)
  have b: "bls_ok (env_bls env)" "pairings_ok (env_crypto env) (env_bls env) S c" "inj_on (hash256 (env_crypto env)) S"
    using assms(2) by (simp_all add: signatures_ok_def)
  note eq = aggregate_verify_eq [OF b conjunct1 [OF lens] keys, of sig "case block of Unfinished _ \<Rightarrow> True | Full _ \<Rightarrow> False"]
  have r: "(if vs then aggregate_verify (env_crypto env) (env_bls env) pks msgs sig (case block of Unfinished _ \<Rightarrow> True | Full _ \<Rightarrow> False) c else Inr (True, c)) = Inr (True, c')"
    using assms(1) p by (simp add: check_signature_def split: if_splits)
  show ?thesis
  proof (cases vs)
    case True
    then have "(\<forall>pk \<in> set pks. pk_valid (env_bls env) pk) \<and> bls_aggregate_verify (env_bls env) pks msgs sig \<and> pairings_ok (env_crypto env) (env_bls env) S c'"
      using eq r by (auto split: if_splits)
    then show ?thesis using p by blast
  next
    case False
    then show ?thesis using p r b(2) by auto
  qed
qed

text \<open>
  C4. A transaction block whose body is accepted is sound: it claims exactly the rewards of the blocks since the previous
  transaction block, its header commits to its coins and its cost, no coin is created or spent twice, every coin it spends is
  its own or unspent at its parent (the store rolled back to the fork, then the blocks of the fork), under the puzzle hash of the coin, the
  coins spent are worth the coins created plus the fees of the header, which cover the reserved fees, all conditions hold, and the
  aggregate signature verifies when it is checked. The contents of the store stay as they are.
\<close>

theorem validate_block_body_sound:
  assumes "validate_block_body env constants blocks get_full_block peak block h result fork_point get_block_generator validate_signature now (store, c) =
      Inr ((None, r), store', c')"
    and "foliage_transaction_block_hash (b_foliage block) \<noteq> None"
    and "store_ok (env_crypto env) store" "set_order_ok env"
    and "signatures_ok env S (AGG_SIG_ME_ADDITIONAL_DATA constants) (case result of None \<Rightarrow> [] | Some res \<Rightarrow> npc_list res) c"
  shows "\<exists>ftb info prev_height npcs additions rewards fork_h s removed pks msgs.
    b_foliage_transaction_block block = Some ftb \<and> b_transactions_info block = Some info \<and>
    commitments_ok env constants blocks block h result ftb info prev_height npcs additions rewards \<and>
    fork_height blocks peak (b_prev_header_hash block) h fork_point = Inr fork_h \<and>
    changes_since_fork env constants get_full_block get_block_generator (b_prev_header_hash block) h fork_h = Inr s \<and>
    block_spends_ok (env_crypto env) now prev_height (ftb_timestamp ftb) (parent_ledger (coin_view store) fork_h s) additions rewards (ti_fees info) npcs removed \<and>
    pkm_pairs npcs (AGG_SIG_ME_ADDITIONAL_DATA constants) = Inr (pks, msgs) \<and>
    (validate_signature \<longrightarrow> bls_aggregate_verify (env_bls env) pks msgs (TransactionsInfo.aggregated_signature info)) \<and>
    r = result \<and> store_ok (env_crypto env) store' \<and> coin_view store' = coin_view store \<and> pairings_ok (env_crypto env) (env_bls env) S c'"
proof -
  obtain ftb info where t: "b_foliage_transaction_block block = Some ftb" "b_transactions_info block = Some info"
    using assms(1,2)
    by (cases "b_foliage_transaction_block block"; cases "b_transactions_info block") (auto simp: validate_block_body_def rassert_eq_Inr)
  obtain bd where bd: "body_commitments env constants blocks block h result ftb info = Inr (Inr bd)"
    and v: "transactions_valid env constants blocks get_full_block peak block h result fork_point get_block_generator validate_signature now ftb info bd (store, c) =
      Inr ((None, r), store', c')"
    using assms(1,2) t by (auto simp: validate_block_body_def rassert_eq_Inr elim!: rbind_InrE split: sum.splits)
  note com = body_commitments_ok [OF bd assms(4)]
  obtain fork_h s res where f: "fork_height blocks peak (b_prev_header_hash block) h fork_point = Inr fork_h"
    and s: "changes_since_fork env constants get_full_block get_block_generator (b_prev_header_hash block) h fork_h = Inr s"
    and rr: "removal_records (env_crypto env) h (ftb_timestamp ftb) fork_h s (additions_dic bd) (body_removals bd) store [] = Inr (store', Inr res)"
    and sp: "check_spends (env_crypto env) constants now h ftb info bd res = Inr (Inr ())"
    and sg: "check_signature env constants validate_signature block (body_npcs bd) (TransactionsInfo.aggregated_signature info) c = Inr (True, c')"
    and r: "r = result"
    using v by (auto simp: transactions_valid_def Let_def elim!: rbind_InrE split: sum.splits if_splits)
  have named: "named_by (env_crypto env) id (additions_dic bd)" using com by simp
  note recs = removal_records_ok [OF rr assms(3) named changes_since_fork_named [OF s]]
  have dk: "dkeys res = map coin_name (body_npcs bd)" "distinct (dkeys res)"
    and ok: "\<forall>x \<in> set res. removal_ok (env_crypto env) (coin_view store) fork_h s (additions_dic bd) x"
    using recs com by auto
  have npcs: "body_npcs bd = (case result of None \<Rightarrow> [] | Some res \<Rightarrow> npc_list res)"
    using com by (auto simp: commitments_ok_def split: if_splits)
  obtain pks msgs where p: "pkm_pairs (body_npcs bd) (AGG_SIG_ME_ADDITIONAL_DATA constants) = Inr (pks, msgs)"
    "validate_signature \<longrightarrow> bls_aggregate_verify (env_bls env) pks msgs (TransactionsInfo.aggregated_signature info)"
    "pairings_ok (env_crypto env) (env_bls env) S c'"
    using check_signature_ok [OF sg assms(5) [folded npcs]] by blast
  note spends = check_spends_ok [OF sp dk ok conjunct2 [OF conjunct2 [OF conjunct2 [OF conjunct2 [OF com]]]]]
  show ?thesis
    by (intro exI conjI, rule t(1), rule t(2), rule conjunct1 [OF com], rule f, rule s, rule spends, rule p(1), rule p(2), rule r)
      (use recs p(3) in simp_all)
qed

section \<open>A concrete block\<close>

text \<open>A block at height 6 on top of a peak at height 5 that spends the unspent coin of the demonstration store for a fee of 5.\<close>

definition demo_env :: "(unit, int) body_env" where
  "demo_env =
     \<lparr> env_crypto = demo_crypto, env_vm = demo_vm,
       env_bls = demo_bls\<lparr>bls_aggregate_verify := (\<lambda>pks msgs sig. pks = [] \<or> bls_aggregate_verify demo_bls pks msgs sig)\<rparr>,
       env_bip158 = (\<lambda>_. []), env_set_order = id, env_sig_truth = (\<lambda>_. True) \<rparr>"

definition demo_peak :: BlockRecord where
  "demo_peak = (demo_record (replicate 32 9) (replicate 32 8) 5)\<lparr>pool_puzzle_hash := replicate 32 2, farmer_puzzle_hash := replicate 32 3, fees := Some 0\<rparr>"

definition demo_chain :: BlockchainInterface where
  "demo_chain =
     BlockCache_interface \<lparr> bc_block_records = [(replicate 32 9, demo_peak), (replicate 32 8, demo_record (replicate 32 8) (replicate 32 7) 4)],
       bc_height_to_hash = [] \<rparr>"

definition demo_claims :: "Coin list" where
  "demo_claims =
     [\<lparr> parent_coin_info = take 16 (GENESIS_CHALLENGE DEFAULT_CONSTANTS) @ be_bytes 16 5, puzzle_hash = replicate 32 2, amount = 1750000000000 \<rparr>,
      \<lparr> parent_coin_info = drop 16 (GENESIS_CHALLENGE DEFAULT_CONSTANTS) @ be_bytes 16 5, puzzle_hash = replicate 32 3, amount = 250000000000 \<rparr>]"

definition demo_info :: TransactionsInfo where
  "demo_info =
     \<lparr> generator_root = replicate 32 0, generator_refs_root = replicate 32 1, aggregated_signature = replicate 96 0, ti_fees = 5, ti_cost = 10,
       ti_reward_claims_incorporated = demo_claims \<rparr>"

definition demo_ftb :: FoliageTransactionBlock where
  "demo_ftb =
     \<lparr> ftb_prev_transaction_block_hash = replicate 32 9, ftb_timestamp = 3600, filter_hash = replicate 32 0,
       additions_root = projr (rbind (additions_set demo_crypto demo_claims) (get_root demo_crypto)),
       removals_root = projr (rbind (rfold (add_already_hashed demo_crypto) [replicate 32 8] (MerkleSet_new None)) (get_root demo_crypto)),
       transactions_info_hash = replicate 32 0 \<rparr>"

definition demo_foliage :: Foliage where
  "demo_foliage =
     \<lparr> prev_block_hash = replicate 32 9, reward_block_hash = [],
       foliage_block_data = \<lparr> unfinished_reward_block_hash = [], pool_target = \<lparr> pt_puzzle_hash = [], max_height = 0 \<rparr>, pool_signature = None,
         farmer_reward_puzzle_hash = [], extension_data = [] \<rparr>,
       foliage_block_data_signature = [], foliage_transaction_block_hash = Some (replicate 32 9), foliage_transaction_block_signature = None \<rparr>"

definition demo_space :: ProofOfSpace where
  "demo_space =
     \<lparr> pos_challenge = [], pool_public_key = None, pool_contract_puzzle_hash = None, plot_public_key = [], pos_size = 32, pos_proof = [] \<rparr>"

definition demo_block :: Block where
  "demo_block =
     Unfinished \<lparr> ub_finished_sub_slots = [],
       ub_reward_chain_block = \<lparr> un_total_iters = 0, un_signage_point_index = 0, un_pos_ss_cc_challenge_hash = [], un_proof_of_space = demo_space,
         un_challenge_chain_sp_vdf = None, un_challenge_chain_sp_signature = [], un_reward_chain_sp_vdf = None, un_reward_chain_sp_signature = [] \<rparr>,
       ub_challenge_chain_sp_proof = None, ub_reward_chain_sp_proof = None, ub_foliage = demo_foliage,
       ub_foliage_transaction_block = Some demo_ftb, ub_transactions_info = Some demo_info, ub_transactions_generator = Some [],
       ub_transactions_generator_ref_list = [] \<rparr>"

definition demo_vdf :: VDFInfo where
  "demo_vdf = \<lparr> challenge = [], number_of_iterations = 0, vdf_output = \<lparr> data = [] \<rparr> \<rparr>"

definition demo_vdf_proof :: VDFProof where
  "demo_vdf_proof = \<lparr> witness_type = 0, witness = [], normalized_to_identity = False \<rparr>"

definition demo_parent :: FullBlock where
  "demo_parent =
     \<lparr> finished_sub_slots = [],
       reward_chain_block = \<lparr> rcb_weight = 60, rcb_height = 5, rcb_total_iters = 60000000, rcb_signage_point_index = 0, pos_ss_cc_challenge_hash = [],
         proof_of_space = demo_space, challenge_chain_sp_vdf = None, challenge_chain_sp_signature = [], challenge_chain_ip_vdf = demo_vdf,
         reward_chain_sp_vdf = None, reward_chain_sp_signature = [], reward_chain_ip_vdf = demo_vdf, infused_challenge_chain_ip_vdf = None,
         rcb_is_transaction_block = True \<rparr>,
       challenge_chain_sp_proof = None, challenge_chain_ip_proof = demo_vdf_proof, reward_chain_sp_proof = None, reward_chain_ip_proof = demo_vdf_proof,
       infused_challenge_chain_ip_proof = None, foliage = demo_foliage, foliage_transaction_block = None, transactions_info = None,
       transactions_generator = None, transactions_generator_ref_list = [] \<rparr>"

lemma demo_block_simps [simp]:
  "b_foliage demo_block = demo_foliage" "b_foliage_transaction_block demo_block = Some demo_ftb" "b_transactions_info demo_block = Some demo_info"
  "b_transactions_generator demo_block = Some []" "b_transactions_generator_ref_list demo_block = []" "b_prev_header_hash demo_block = replicate 32 9"
  "foliage_transaction_block_hash demo_foliage = Some (replicate 32 9)" "env_crypto demo_env = demo_crypto" "env_set_order demo_env = id"
  by (simp_all add: demo_block_def b_prev_header_hash_def demo_foliage_def demo_env_def)

lemma demo_info_hash: "get_hash demo_crypto TransactionsInfo_fields (TransactionsInfo_items demo_info) = Inr (replicate 32 0)"
  by (simp add: get_hash_def Streamable_get_hash_def Streamable_stream_def TransactionsInfo_fields_def TransactionsInfo_items_def demo_info_def
    demo_claims_def Coin_fields_def Coin_items_def StructStream_stream_def struct_pack_eq write_uint32_def uint32_eq demo_crypto_def bytes32_def
    sized_bytes_new_def raw_codec_def sized_bytes_stream_def to_bytes_unsigned_def)

lemma demo_ftb_hash: "get_hash demo_crypto FoliageTransactionBlock_fields (FoliageTransactionBlock_items demo_ftb) = Inr (replicate 32 9)"
  by (simp add: get_hash_def Streamable_get_hash_def Streamable_stream_def FoliageTransactionBlock_fields_def FoliageTransactionBlock_items_def demo_ftb_def
    StructStream_stream_def struct_pack_eq demo_crypto_def bytes32_def sized_bytes_new_def sized_bytes_stream_def)

lemma demo_hashes: "check_hashes demo_crypto demo_block demo_ftb demo_info = Inr (Inr ())"
  by (simp add: check_hashes_def demo_info_hash demo_ftb_hash check_def) (simp add: demo_ftb_def)

lemma demo_rewards: "expected_reward_coins DEFAULT_CONSTANTS demo_chain 6 (replicate 32 9) = Inr (5, demo_claims)"
proof -
  have g: "length (GENESIS_CHALLENGE DEFAULT_CONSTANTS) = 32" by (simp add: DEFAULT_CONSTANTS_def)
  have ne: "replicate 32 (8 :: byte) \<noteq> replicate 32 9" by (simp add: replicate_eq_replicate)
  have b: "block_record demo_chain (replicate 32 9) = Inr demo_peak"
    "block_record demo_chain (replicate 32 8) = Inr (demo_record (replicate 32 8) (replicate 32 7) 4)"
    using ne by (simp_all add: demo_chain_def BlockCache_interface_def dget_def)
  have r: "reward_coins DEFAULT_CONSTANTS demo_peak (rbind (calculate_base_farmer_reward 5) (\<lambda>base. uint64 (base + 0))) = Inr (demo_claims ! 0, demo_claims ! 1)"
    using pool_coin_eq [OF g, of 5] farmer_coin_eq [OF g, of 5]
    by (simp add: reward_coins_def demo_peak_def pool_reward_eq farmer_reward_eq uint64_eq demo_claims_def)
  have p: "height demo_peak = 5" "fees demo_peak = Some 0" "prev_hash demo_peak = replicate 32 8" by (simp_all add: demo_peak_def)
  show ?thesis
    using r by (simp add: expected_reward_coins_def b p) (simp add: set_add_def demo_claims_def)
qed

lemma demo_generator: "check_generator demo_crypto DEFAULT_CONSTANTS 6 (Some []) [] demo_info = Inr (Inr ())"
  by (simp add: check_generator_def check_def demo_info_def std_hash_def demo_crypto_def)

lemma demo_run: "run_block_generator demo_crypto DEFAULT_CONSTANTS (Some []) (Some demo_npcs) = Inr (Inr (10, [demo_npc], []))"
  by (simp add: run_block_generator_def calculate_cost_of_program_def condition_cost_def uint64_eq check_def demo_additions) (simp add: DEFAULT_CONSTANTS_def)

lemma demo_claim_names: "map (Coin_name demo_crypto) demo_claims =
    [take 16 (GENESIS_CHALLENGE DEFAULT_CONSTANTS) @ be_bytes 16 5, drop 16 (GENESIS_CHALLENGE DEFAULT_CONSTANTS) @ be_bytes 16 5]"
  by (simp add: demo_claims_def Coin_name_def Coin_get_hash_def std_hash_def Coin_preimage_def demo_crypto_def DEFAULT_CONSTANTS_def)

lemma demo_claim_heads:
  "\<exists>u. take 16 (GENESIS_CHALLENGE DEFAULT_CONSTANTS) @ be_bytes 16 5 = 0xf6 # u"
  "\<exists>u. drop 16 (GENESIS_CHALLENGE DEFAULT_CONSTANTS) @ be_bytes 16 5 = 0x15 # u"
  by (simp_all add: DEFAULT_CONSTANTS_def)

lemma demo_names_distinct: "distinct (replicate 32 8 # map (Coin_name demo_crypto) demo_claims)"
proof -
  obtain u v where "map (Coin_name demo_crypto) demo_claims = [0xf6 # u, 0x15 # v]"
    using demo_claim_heads by (metis demo_claim_names)
  moreover have "replicate 32 (8 :: byte) = 8 # replicate 31 8" using replicate_Suc [of 31 "8 :: byte"] by simp
  ultimately show ?thesis by simp
qed

definition demo_dic :: "(bytes, Coin) dict" where
  "demo_dic = zip (map (Coin_name demo_crypto) demo_claims) demo_claims"

lemma demo_dic_None: "map_of demo_dic (replicate 32 8) = None"
  using demo_names_distinct by (auto simp: demo_dic_def map_of_eq_None_iff dest: set_zip_leftD)

lemma demo_roots: "validate_block_merkle_roots demo_crypto (additions_root demo_ftb) (removals_root demo_ftb) demo_claims [replicate 32 8] = Inr None"
proof -
  have "sizes_ok demo_claims [replicate 32 8]" by (simp add: sizes_ok_def demo_claims_def)
  from validate_block_merkle_roots_eq [OF demo_crypto_ok this]
  obtain a r ar rr where "additions_set demo_crypto demo_claims = Inr a" "get_root demo_crypto a = Inr ar"
    "rfold (add_already_hashed demo_crypto) [replicate 32 8] (MerkleSet_new None) = Inr r" "get_root demo_crypto r = Inr rr"
    "\<And>x y. validate_block_merkle_roots demo_crypto x y demo_claims [replicate 32 8] =
       Inr (if x \<noteq> ar then Some BAD_ADDITION_ROOT else if y \<noteq> rr then Some BAD_REMOVAL_ROOT else None)" by metis
  then show ?thesis by (simp add: demo_ftb_def del: rfold.simps)
qed

lemma demo_outputs: "check_outputs demo_env DEFAULT_CONSTANTS demo_ftb demo_claims [replicate 32 8] = Inr (Inr demo_dic)"
proof -
  obtain c d where cd: "demo_claims = [c, d]" "0 \<le> amount c" "amount c \<le> MAX_COIN_AMOUNT DEFAULT_CONSTANTS" "0 \<le> amount d" "amount d \<le> MAX_COIN_AMOUNT DEFAULT_CONSTANTS"
    by (simp add: demo_claims_def DEFAULT_CONSTANTS_def)
  have "check_amounts demo_crypto DEFAULT_CONSTANTS demo_claims [] = Inr (Inr demo_dic)"
    using demo_names_distinct cd(2-) by (simp add: cd(1) check_def demo_dic_def dput_def din_def)
  moreover have "std_hash demo_crypto (body_filter demo_env demo_claims [replicate 32 8]) = filter_hash demo_ftb"
    by (simp add: body_filter_def demo_env_def demo_ftb_def std_hash_def demo_crypto_def)
  ultimately show ?thesis
    using demo_names_distinct by (simp add: check_outputs_def phase_bind_def demo_roots check_def has_duplicates_def)
qed

lemma demo_commitments:
  "body_commitments demo_env DEFAULT_CONSTANTS demo_chain demo_block 6 (Some demo_npcs) demo_ftb demo_info =
   Inr (Inr \<lparr> prev_tb_height = 5, body_npcs = [demo_npc], body_removals = [replicate 32 8], body_additions = [],
              coinbase_additions = demo_claims, additions_dic = demo_dic \<rparr>)"
proof -
  have "check_rewards DEFAULT_CONSTANTS demo_chain 6 demo_ftb demo_info = Inr (Inr (5, demo_claims))"
    using demo_rewards by (simp add: check_rewards_def check_def demo_ftb_def demo_info_def)
  moreover have "ti_cost demo_info = 10" by (simp add: demo_info_def)
  ultimately show ?thesis
    by (simp add: body_commitments_def phase_bind_def demo_hashes demo_generator demo_run check_def demo_outputs)
qed

lemma demo_spends:
  "check_spends demo_crypto DEFAULT_CONSTANTS 4000 6 demo_ftb demo_info
     \<lparr> prev_tb_height = 5, body_npcs = [demo_npc], body_removals = [replicate 32 8], body_additions = [],
       coinbase_additions = demo_claims, additions_dic = demo_dic \<rparr> [(replicate 32 8, demo_unspent)] = Inr (Inr ())"
proof -
  have "block_reserved_fees demo_crypto [demo_npc] 0 = Inr (Inr 3)"
    using demo_crypto_ok by (simp add: phase_bind_def dget_list_def crypto_ok_def py_index_def check_def uint128_eq)
  moreover have "ti_fees demo_info = 5" "ftb_timestamp demo_ftb = 3600" "MAX_COIN_AMOUNT DEFAULT_CONSTANTS = 18446744073709551615"
    by (simp_all add: demo_info_def demo_ftb_def DEFAULT_CONSTANTS_def)
  ultimately show ?thesis
    by (simp add: check_spends_def check_fees_def phase_bind_def check_def farmer_reward_eq dget_def dput_def din_def
      mempool_check_conditions_dict_def check_condition_def del: block_reserved_fees.simps)
qed

lemma demo_changes: "changes_since_fork demo_env DEFAULT_CONSTANTS (\<lambda>_. Inr (Some demo_parent)) (\<lambda>_. Inr None) (replicate 32 9) 6 5 = Inr no_changes"
  using changes_on_peak [of "\<lambda>_. Inr (Some demo_parent)" "replicate 32 9" demo_parent 6 demo_env DEFAULT_CONSTANTS]
  by (simp add: FullBlock_height_def demo_parent_def)

lemma demo_fork: "fork_height demo_chain (Some demo_peak) hh 6 (Some 5) = Inr 5"
  by (simp add: fork_height_def)

lemma demo_valid:
  "\<exists>store'. validate_block_body demo_env DEFAULT_CONSTANTS demo_chain (\<lambda>_. Inr (Some demo_parent)) (Some demo_peak) demo_block 6 (Some demo_npcs) (Some 5)
     (\<lambda>_. Inr None) True 4000 (demo_store, LRUCache_init 10) = Inr ((None, Some demo_npcs), store', LRUCache_init 10)"
proof -
  obtain s' where s': "get_coin_record demo_crypto (replicate 32 8) demo_store = Inr (Some demo_unspent, s')" using demo_get by blast
  have "find_removal 5 no_changes (replicate 32 8) (Some demo_unspent) = Inr demo_unspent"
    by (simp add: find_removal_def no_changes_def) (simp add: demo_unspent_def new_coin_record_def)
  then have r: "removal_records demo_crypto 6 t 5 no_changes demo_dic [replicate 32 8] demo_store [] = Inr (s', Inr [(replicate 32 8, demo_unspent)])" for t
    by (simp add: demo_dic_None s' dput_def din_def)
  have g: "check_signature demo_env DEFAULT_CONSTANTS True demo_block [demo_npc] (TransactionsInfo.aggregated_signature demo_info) (LRUCache_init 10) =
      Inr (True, LRUCache_init 10)"
    by (simp add: check_signature_def pkm_pairs_def pkm_pairs_npc_def demo_npc_def demo_env_def demo_block_def aggregate_verify_def get_pairings_def)
  show ?thesis
    by (simp add: validate_block_body_def demo_commitments transactions_valid_def demo_fork demo_changes r g demo_spends del: removal_records.simps)
      (simp add: demo_block_def)
qed

lemma demo_settings: "set_order_ok demo_env" "signatures_ok demo_env {} ad [demo_npc] (LRUCache_init 10)"
proof -
  have "pkm_pairs [demo_npc] ad = Inr ([], [])" by (simp add: pkm_pairs_def pkm_pairs_npc_def demo_npc_def)
  moreover have "bls_ok (env_bls demo_env)" using demo_bls_ok by (simp add: bls_ok_def demo_env_def pairing_of_def)
  moreover have "pairings_ok demo_crypto (env_bls demo_env) {} (LRUCache_init 10)"
    by (simp add: pairings_ok_def LRUCache_init_def LRUCache_ok_def LRUCache_look_def)
  ultimately show "signatures_ok demo_env {} ad [demo_npc] (LRUCache_init 10)" by (auto simp: signatures_ok_def)
qed (simp add: set_order_ok_def)

theorem validate_block_body_sound_witness:
  "\<exists>rewards removed. set rewards = set demo_claims \<and>
     block_spends_ok demo_crypto 4000 5 3600 (parent_ledger (coin_view demo_store) 5 no_changes) [] rewards 5 [demo_npc] removed"
proof -
  obtain store' where v: "validate_block_body demo_env DEFAULT_CONSTANTS demo_chain (\<lambda>_. Inr (Some demo_parent)) (Some demo_peak) demo_block 6 (Some demo_npcs) (Some 5)
     (\<lambda>_. Inr None) True 4000 (demo_store, LRUCache_init 10) = Inr ((None, Some demo_npcs), store', LRUCache_init 10)"
    using demo_valid by blast
  have ti: "ti_fees demo_info = 5" "ftb_timestamp demo_ftb = 3600" "ftb_prev_transaction_block_hash demo_ftb = replicate 32 9"
    by (simp_all add: demo_info_def demo_ftb_def)
  from validate_block_body_sound [OF v, of "{}"] demo_store_ok demo_settings
  obtain ph npcs adds rewards s removed where
    "commitments_ok demo_env DEFAULT_CONSTANTS demo_chain demo_block 6 (Some demo_npcs) demo_ftb demo_info ph npcs adds rewards"
    "block_spends_ok demo_crypto 4000 ph 3600 (parent_ledger (coin_view demo_store) 5 no_changes) adds rewards 5 npcs removed"
    by (auto simp: demo_fork demo_changes ti)
  then show ?thesis by (auto simp: commitments_ok_def demo_additions demo_rewards ti)
qed

text \<open>Two blocks with the same roots cannot spend different coins.\<close>

text \<open>A toy digest of another kind: the length of the input and the first 31 of its last 64 bytes. Two coins of one puzzle hash, and the trees of the two blocks.\<close>

definition length_crypto :: crypto where
  "length_crypto = demo_crypto\<lparr>hash256 := (\<lambda>b. of_nat (length b) # take 31 (drop (length b - 64) b @ replicate 31 0))\<rparr>"

definition high_coin :: "byte \<Rightarrow> Coin" where
  "high_coin k = \<lparr> parent_coin_info = replicate 32 k, puzzle_hash = replicate 32 255, amount = 0 \<rparr>"

definition high_group :: "byte \<Rightarrow> bytes" where
  "high_group k = 32 # 64 # replicate 30 k"

lemma length_crypto_ok: "crypto_ok length_crypto"
proof -
  have "length (hash256 length_crypto b) = 32" for b by (simp add: length_crypto_def)
  then show ?thesis using demo_crypto_ok by (simp add: crypto_ok_def length_crypto_def)
qed

lemma high_coin_hashes:
  "Coin_preimage length_crypto (high_coin k) = replicate 32 k @ replicate 32 255"
  "Coin_name length_crypto (high_coin k) = 64 # replicate 31 k"
  "group_names length_crypto [high_coin k] = [64 # replicate 31 k]"
  "hash_coin_list length_crypto [high_coin k] = high_group k"
proof -
  show p: "Coin_preimage length_crypto (high_coin k) = replicate 32 k @ replicate 32 255"
    by (simp add: Coin_preimage_def high_coin_def length_crypto_def demo_crypto_def)
  show n: "Coin_name length_crypto (high_coin k) = 64 # replicate 31 k"
    by (simp add: Coin_name_def Coin_get_hash_def std_hash_def p) (simp add: length_crypto_def)
  show g: "group_names length_crypto [high_coin k] = [64 # replicate 31 k]"
    by (simp add: group_names_def sort_reverse_def n)
  show "hash_coin_list length_crypto [high_coin k] = high_group k"
    by (simp add: hash_coin_list_eq g) (simp add: length_crypto_def high_group_def)
qed

lemma high_tree: "additions_set length_crypto [high_coin k] =
    Inr \<lparr> root = MiddleNode (TerminalNode (high_group k)) (TerminalNode (replicate 32 255))
      (hash256 length_crypto (pair_preimage (TerminalNode (high_group k)) (TerminalNode (replicate 32 255)))) \<rparr>"
proof -
  let ?g = "high_group k" and ?p = "replicate 32 (255 :: byte)"
  have len: "length ?g = 32" by (simp add: high_group_def)
  have p: "?p = 255 # replicate 31 255" using replicate_Suc [of 31 "255 :: byte"] by simp
  have less: "\<not> bytes_less ?p ?g" "bytes_less ?g ?p" "?p \<noteq> ?g" unfolding p high_group_def by simp_all
  have bits: "get_bit ?g 0 = Inr 0" "get_bit ?p 0 = Inr 1" by (simp_all add: get_bit_def high_group_def)
  have h: "hashdown length_crypto (Node_get_hash (TerminalNode ?g) @ Node_get_hash (TerminalNode ?p)) =
      Inr (hash256 length_crypto (pair_preimage (TerminalNode ?g) (TerminalNode ?p)))"
    using length_crypto_ok len by (simp add: hashdown_def tags pair_preimage_def crypto_ok_def)
  have "MiddleNode_new length_crypto (TerminalNode ?g) (TerminalNode ?p) =
      Inr (MiddleNode (TerminalNode ?g) (TerminalNode ?p) (hash256 length_crypto (pair_preimage (TerminalNode ?g) (TerminalNode ?p))))"
    using less h by (simp add: MiddleNode_new_def)
  then have "make_middle length_crypto ?g ?p 0 =
      Inr (MiddleNode (TerminalNode ?g) (TerminalNode ?p) (hash256 length_crypto (pair_preimage (TerminalNode ?g) (TerminalNode ?p))))"
    using bits by simp
  moreover have "coins_by_puzzle_hash [high_coin k] = [(?p, [high_coin k])]" by (simp add: coins_by_puzzle_hash_def dput_def din_def high_coin_def)
  ultimately show ?thesis
    using less len by (simp add: additions_set_def high_coin_hashes add_already_hashed_def MerkleSet_new_def TerminalNode_new_def del: make_middle.simps)
qed

lemma high_preimages:
  "block_preimages length_crypto [high_coin k] [] =
     {replicate 32 k @ replicate 32 255, 64 # replicate 31 k, replicate 30 0 @ [1, 1] @ high_group k @ replicate 32 255}"
proof -
  have "coins_with (puzzle_hash (high_coin k)) [high_coin k] = [high_coin k]" by (simp add: coins_with_def)
  then show ?thesis
    by (simp add: block_preimages_def addition_preimages_def high_tree high_coin_hashes set_preimages_def MerkleSet_new_def shortcut_def
        pair_preimage_def hashdown_preimage_def tags) (simp add: high_group_def insert_commute)
qed

lemma high_digests:
  "hash256 length_crypto (replicate 32 k @ replicate 32 255) = 64 # replicate 31 k"
  "hash256 length_crypto (64 # replicate 31 k) = 32 # 64 # replicate 30 k"
  "hash256 length_crypto (replicate 30 0 @ [1, 1] @ high_group k @ replicate 32 255) = 96 # 32 # 64 # replicate 29 k"
  by (simp_all add: length_crypto_def high_group_def)

theorem block_roots_commit_witness:
  "\<exists>art rrt e. validate_block_merkle_roots length_crypto art rrt [high_coin 7] [] = Inr None \<and>
     validate_block_merkle_roots length_crypto art rrt [high_coin 9] [] = Inr e \<and> e \<noteq> None"
proof -
  have sz: "sizes_ok [high_coin 7] []" by (simp add: sizes_ok_def high_coin_def)
  obtain art rrt where rt: "\<And>x y. validate_block_merkle_roots length_crypto x y [high_coin 7] [] =
      Inr (if x \<noteq> art then Some BAD_ADDITION_ROOT else if y \<noteq> rrt then Some BAD_REMOVAL_ROOT else None)"
    by (rule validate_block_merkle_roots_eq [OF length_crypto_ok sz]) (rule that)
  then have v: "validate_block_merkle_roots length_crypto art rrt [high_coin 7] [] = Inr None" by simp
  have b: "BLANK = 0 # replicate 31 0" using replicate_Suc [of 31 "0 :: byte"] by (simp add: BLANK_def)
  have "replicate n (7 :: byte) \<noteq> replicate n 9" if "0 < n" for n using that by (simp add: replicate_eq_replicate)
  then have "collision_free length_crypto (block_preimages length_crypto [high_coin 7] [] \<union> block_preimages length_crypto [high_coin 9] [])"
    unfolding collision_free_def high_preimages inj_on_def
    by (simp del: append_Cons append_Nil append_assoc add: high_digests b)
  moreover have "puzzles_apart length_crypto [high_coin 7] [high_coin 9]"
  proof -
    have "puzzle_hash (high_coin k) = 255 # replicate 31 255" "coins_with (255 # replicate 31 255) [high_coin k] = [high_coin k]" for k
      using replicate_Suc [of 31 "255 :: byte"] by (simp_all add: high_coin_def coins_with_def)
    then show ?thesis by (simp add: puzzles_apart_def high_coin_hashes high_group_def)
  qed
  moreover have "list_all Coin_wf ([high_coin 7] @ [high_coin 9])" by (simp add: Coin_wf_def high_coin_def)
  moreover have "mset [high_coin 9] \<noteq> mset [high_coin 7]" by (simp add: high_coin_def replicate_eq_replicate)
  ultimately show ?thesis using block_roots_commit [OF length_crypto_ok _ _ _ _ v, of "[high_coin 9]" "[]"] v by auto
qed


end
