(* ===== verification/LockQueue.thy ===== *)
theory LockQueue
  imports Prelude
begin

text \<open>
  \<^verbatim>\<open>hddcoin/full_node/lock_queue.py\<close>: the lock of the blockchain with priorities. The coroutines are a state machine: between two
  \<^verbatim>\<open>await\<close>s of the task \<^verbatim>\<open>_run\<close> or of a client lies one event, and a run of the event loop is a sequence of events. A client is
  one use of \<^verbatim>\<open>async with\<close>, with the \<^verbatim>\<open>asyncio.Event\<close> that belongs to it. \<^verbatim>\<open>PriorityQueue\<close> hands out an entry of least priority number; which
  one of several is left open. The inner lock is taken through the queue only, as in the full node.
  Shown: at most one client is inside and holds the lock, releasing never raises, and a waiting client is let in when nobody is cancelled and
  requests of its own or of higher priority stop arriving.
\<close>

section \<open>State and operations\<close>

text \<open>Where \<^verbatim>\<open>_run\<close> waits: for a task, for the lock, before the callback, for the release event.\<close>

datatype run_phase = RunGet | RunAcquire nat | RunCall nat | RunWait | RunCancelled

record LockQueue =
  inner_lock :: bool
  task_queue :: "(int \<times> nat) list"
  release_event :: bool
  run_task :: run_phase
  called :: "nat list"
  waiting :: "nat list"
  inside :: "nat list"

definition LockQueue_init :: LockQueue where
  "LockQueue_init =
     \<lparr> inner_lock = False, task_queue = [], release_event = False, run_task = RunGet, called = [], waiting = [], inside = [] \<rparr>"

definition put :: "int \<Rightarrow> nat \<Rightarrow> LockQueue \<Rightarrow> LockQueue" where
  "put priority callback self = self\<lparr>task_queue := task_queue self @ [(priority, callback)]\<rparr>"

text \<open>\<open>None\<close>: the coroutine stays suspended.\<close>

definition acquire :: "LockQueue \<Rightarrow> LockQueue option" where
  "acquire self = (if inner_lock self then None else Some (self\<lparr>inner_lock := True\<rparr>))"

definition release :: "LockQueue \<Rightarrow> LockQueue res" where
  "release self = (if \<not> inner_lock self then Inl RuntimeError else Inr (self\<lparr>inner_lock := False, release_event := True\<rparr>))"

definition close :: "LockQueue \<Rightarrow> LockQueue" where
  "close self = self\<lparr>run_task := RunCancelled\<rparr>"

text \<open>The steps of \<^verbatim>\<open>_run\<close>.\<close>

definition run_get :: "int \<times> nat \<Rightarrow> LockQueue \<Rightarrow> LockQueue option" where
  "run_get t self =
     (if run_task self = RunGet \<and> t \<in> set (task_queue self) \<and> (\<forall>u \<in> set (task_queue self). fst t \<le> fst u)
      then Some (self\<lparr>task_queue := remove1 t (task_queue self), release_event := False, run_task := RunAcquire (snd t)\<rparr>) else None)"

definition run_acquire :: "LockQueue \<Rightarrow> LockQueue option" where
  "run_acquire self =
     (case run_task self of RunAcquire c \<Rightarrow> map_option (\<lambda>q. q\<lparr>run_task := RunCall c\<rparr>) (acquire self) | _ \<Rightarrow> None)"

definition run_callback :: "LockQueue \<Rightarrow> LockQueue option" where
  "run_callback self =
     (case run_task self of RunCall c \<Rightarrow> Some (self\<lparr>called := c # called self, run_task := RunWait\<rparr>) | _ \<Rightarrow> None)"

definition run_wait :: "LockQueue \<Rightarrow> LockQueue option" where
  "run_wait self = (if run_task self = RunWait \<and> release_event self then Some (self\<lparr>run_task := RunGet\<rparr>) else None)"

text \<open>The two halves of \<^verbatim>\<open>LockClient.__aenter__\<close>, around its last \<^verbatim>\<open>await\<close>, and \<^verbatim>\<open>__aexit__\<close>. A new event belongs to no other client.\<close>

definition queued :: "LockQueue \<Rightarrow> nat list" where
  "queued self = map snd (task_queue self)"

fun served :: "run_phase \<Rightarrow> nat list" where
  "served (RunAcquire c) = [c]"
| "served (RunCall c) = [c]"
| "served _ = []"

definition clients :: "LockQueue \<Rightarrow> nat list" where
  "clients self = queued self @ served (run_task self) @ called self @ inside self"

definition aenter :: "nat \<Rightarrow> int \<Rightarrow> LockQueue \<Rightarrow> LockQueue option" where
  "aenter c priority self =
     (if c \<in> set (clients self) \<union> set (waiting self) then None
      else Some ((put priority c self)\<lparr>waiting := c # waiting self\<rparr>))"

definition aenter_resume :: "nat \<Rightarrow> LockQueue \<Rightarrow> LockQueue option" where
  "aenter_resume c self =
     (if c \<in> set (waiting self) \<and> c \<in> set (called self)
      then Some (self\<lparr>waiting := remove1 c (waiting self), called := remove1 c (called self), inside := c # inside self\<rparr>) else None)"

definition aexit :: "nat \<Rightarrow> LockQueue \<Rightarrow> LockQueue res option" where
  "aexit c self = (if c \<in> set (inside self) then Some (release (self\<lparr>inside := remove1 c (inside self)\<rparr>)) else None)"

text \<open>A client that is cancelled while it waits does not wait any more; its request stays in the queue.\<close>

definition cancel :: "nat \<Rightarrow> LockQueue \<Rightarrow> LockQueue option" where
  "cancel c self = (if c \<in> set (waiting self) then Some (self\<lparr>waiting := remove1 c (waiting self)\<rparr>) else None)"

section \<open>Runs\<close>

datatype lock_event =
    Enter nat int | Get "int \<times> nat" | Acquire | Callback | Wake | Resume nat | Exit nat | Cancel nat | Close

fun lock_step :: "lock_event \<Rightarrow> LockQueue \<Rightarrow> LockQueue option" where
  "lock_step (Enter c p) q = aenter c p q"
| "lock_step (Get t) q = run_get t q"
| "lock_step Acquire q = run_acquire q"
| "lock_step Callback q = run_callback q"
| "lock_step Wake q = run_wait q"
| "lock_step (Resume c) q = aenter_resume c q"
| "lock_step (Exit c) q = (case aexit c q of Some (Inr q) \<Rightarrow> Some q | _ \<Rightarrow> None)"
| "lock_step (Cancel c) q = cancel c q"
| "lock_step Close q = Some (close q)"

inductive lock_reachable :: "LockQueue \<Rightarrow> bool" where
  start: "lock_reachable LockQueue_init"
| step: "lock_reachable q \<Longrightarrow> lock_step e q = Some q' \<Longrightarrow> lock_reachable q'"

section \<open>Mutual exclusion\<close>

definition lock_ok :: "LockQueue \<Rightarrow> bool" where
  "lock_ok q \<longleftrightarrow>
     distinct (clients q) \<and> distinct (waiting q) \<and> set (waiting q) \<inter> set (inside q) = {} \<and>
     (run_task q \<noteq> RunCancelled \<longrightarrow> set (waiting q) \<subseteq> set (clients q)) \<and>
     (case run_task q of
        RunGet \<Rightarrow> \<not> inner_lock q \<and> called q = [] \<and> inside q = []
      | RunAcquire c \<Rightarrow> \<not> inner_lock q \<and> \<not> release_event q \<and> called q = [] \<and> inside q = []
      | RunCall c \<Rightarrow> inner_lock q \<and> \<not> release_event q \<and> called q = [] \<and> inside q = []
      | RunWait \<Rightarrow>
          if release_event q then \<not> inner_lock q \<and> called q = [] \<and> inside q = []
          else inner_lock q \<and> length (called q) + length (inside q) = 1
      | RunCancelled \<Rightarrow> length (called q) + length (inside q) \<le> 1 \<and> (called q \<noteq> [] \<or> inside q \<noteq> [] \<longrightarrow> inner_lock q))"

lemma lock_ok_init: "lock_ok LockQueue_init"
  by (simp add: lock_ok_def LockQueue_init_def clients_def queued_def)

lemmas lock_step_defs = aenter_def put_def run_get_def run_acquire_def acquire_def run_callback_def run_wait_def aenter_resume_def aexit_def
  release_def cancel_def close_def

lemma length_sum_one: "length xs + length ys = Suc 0 \<longleftrightarrow> (\<exists>c. xs = [c] \<and> ys = [] \<or> xs = [] \<and> ys = [c])"
  by (cases xs; cases ys) (auto simp: length_Suc_conv)

lemma length_sum_le_one: "length xs + length ys \<le> Suc 0 \<longleftrightarrow> xs = [] \<and> ys = [] \<or> (\<exists>c. xs = [c] \<and> ys = [] \<or> xs = [] \<and> ys = [c])"
  by (cases xs; cases ys) (auto simp: length_Suc_conv le_Suc_eq)

lemma queued_simps [simp]:
  "queued (q\<lparr>inner_lock := b\<rparr>) = queued q" "queued (q\<lparr>release_event := b\<rparr>) = queued q" "queued (q\<lparr>run_task := r\<rparr>) = queued q"
  "queued (q\<lparr>called := l\<rparr>) = queued q" "queued (q\<lparr>waiting := l\<rparr>) = queued q" "queued (q\<lparr>inside := l\<rparr>) = queued q"
  "queued (q\<lparr>task_queue := ts @ [(p, c)]\<rparr>) = map snd ts @ [c]"
  by (simp_all add: queued_def)

lemma queued_get:
  assumes "t \<in> set (task_queue q)" "distinct (queued q)"
  shows "distinct (queued (q\<lparr>task_queue := remove1 t (task_queue q)\<rparr>)) \<and> set (queued (q\<lparr>task_queue := remove1 t (task_queue q)\<rparr>)) = set (queued q) - {snd t}
     \<and> snd t \<in> set (queued q)"
proof -
  obtain us vs where ts: "task_queue q = us @ t # vs" "t \<notin> set us" using assms(1) by (metis split_list_first)
  then show ?thesis using assms(2) by (auto simp: queued_def remove1_append)
qed

lemma lock_ok_step:
  assumes "lock_ok q" "lock_step e q = Some q'"
  shows "lock_ok q'"
proof (cases e)
  case (Get t)
  then have g: "run_task q = RunGet" "t \<in> set (task_queue q)" "q' = q\<lparr>task_queue := remove1 t (task_queue q), release_event := False, run_task := RunAcquire (snd t)\<rparr>"
    using assms(2) by (auto simp: run_get_def split: if_splits)
  have d: "distinct (queued q)" using assms(1) by (simp add: lock_ok_def clients_def)
  show ?thesis using assms(1) g queued_get [OF g(2) d] by (auto simp: lock_ok_def clients_def)
next
  case (Enter c p)
  then have g: "c \<notin> set (clients q)" "c \<notin> set (waiting q)" "q' = q\<lparr>task_queue := task_queue q @ [(p, c)], waiting := c # waiting q\<rparr>"
    using assms(2) by (auto simp: aenter_def put_def split: if_splits)
  then show ?thesis using assms(1) by (cases "run_task q") (auto simp: lock_ok_def clients_def queued_def [symmetric])
next
  case Acquire
  then obtain c where "run_task q = RunAcquire c" "q' = q\<lparr>inner_lock := True, run_task := RunCall c\<rparr>"
    using assms(2) by (auto simp: run_acquire_def acquire_def split: if_splits run_phase.splits)
  then show ?thesis using assms(1) by (auto simp: lock_ok_def clients_def)
next
  case Callback
  then obtain c where "run_task q = RunCall c" "q' = q\<lparr>called := c # called q, run_task := RunWait\<rparr>"
    using assms(2) by (auto simp: run_callback_def split: run_phase.splits)
  then show ?thesis using assms(1) by (auto simp: lock_ok_def clients_def)
next
  case Wake
  then have "run_task q = RunWait" "release_event q" "q' = q\<lparr>run_task := RunGet\<rparr>"
    using assms(2) by (auto simp: run_wait_def split: if_splits)
  then show ?thesis using assms(1) by (auto simp: lock_ok_def clients_def)
next
  case (Resume c)
  then have g: "c \<in> set (waiting q)" "c \<in> set (called q)"
    "q' = q\<lparr>waiting := remove1 c (waiting q), called := remove1 c (called q), inside := c # inside q\<rparr>"
    using assms(2) by (auto simp: aenter_resume_def split: if_splits)
  have "called q = [c] \<and> inside q = []" using assms(1) g(2)
    by (cases "run_task q") (auto simp: lock_ok_def length_sum_one length_sum_le_one split: if_splits)
  then show ?thesis using assms(1) g by (cases "run_task q") (auto simp: lock_ok_def clients_def split: if_splits)
next
  case (Exit c)
  then have g: "c \<in> set (inside q)" "q' = q\<lparr>inside := remove1 c (inside q), inner_lock := False, release_event := True\<rparr>"
    using assms(2) by (auto simp: aexit_def release_def split: if_splits)
  have "called q = [] \<and> inside q = [c]" using assms(1) g(1)
    by (cases "run_task q") (auto simp: lock_ok_def length_sum_one length_sum_le_one split: if_splits)
  then show ?thesis using assms(1) g by (cases "run_task q") (auto simp: lock_ok_def clients_def split: if_splits)
next
  case (Cancel c)
  then have "q' = q\<lparr>waiting := remove1 c (waiting q)\<rparr>" using assms(2) by (auto simp: cancel_def split: if_splits)
  then show ?thesis using assms(1) by (cases "run_task q") (auto simp: lock_ok_def clients_def set_remove1_eq)
next
  case Close
  then have "q' = q\<lparr>run_task := RunCancelled\<rparr>" using assms(2) by (simp add: close_def)
  then show ?thesis using assms(1) by (cases "run_task q") (auto simp: lock_ok_def clients_def split: if_splits)
qed

lemma lock_reachable_ok: "lock_reachable q \<Longrightarrow> lock_ok q"
  by (induction rule: lock_reachable.induct) (auto intro: lock_ok_init lock_ok_step)

lemma lock_ok_inside: "lock_ok q \<Longrightarrow> c \<in> set (inside q) \<Longrightarrow> inside q = [c] \<and> called q = [] \<and> inner_lock q"
  by (cases "run_task q") (auto simp: lock_ok_def length_sum_one length_sum_le_one split: if_splits)

text \<open>
  C16. Whatever the order of the events, cancellations and closing included, at most one client is inside, it holds the inner lock,
  nobody else is let in before it leaves, and leaving releases the lock without raising.
\<close>

theorem lock_queue_exclusive:
  assumes "lock_reachable q" "c \<in> set (inside q)"
  shows "inside q = [c] \<and> inner_lock q \<and> (\<forall>d. lock_step (Resume d) q = None) \<and> lock_step Acquire q = None \<and>
    (\<exists>q'. aexit c q = Some (Inr q') \<and> inside q' = [] \<and> \<not> inner_lock q' \<and> release_event q')"
proof -
  have i: "inside q = [c]" "called q = []" "inner_lock q" using lock_ok_inside [OF lock_reachable_ok [OF assms(1)] assms(2)] by simp_all
  then show ?thesis by (auto simp: aenter_resume_def run_acquire_def acquire_def aexit_def release_def split: run_phase.splits)
qed

section \<open>Every request is served\<close>

text \<open>Nobody was cancelled: the clients with a request wait for their event.\<close>

definition all_alive :: "LockQueue \<Rightarrow> bool" where
  "all_alive q \<longleftrightarrow> run_task q \<noteq> RunCancelled \<and> set (queued q) \<union> set (served (run_task q)) \<union> set (called q) \<subseteq> set (waiting q)"

definition requested :: "nat \<Rightarrow> int \<Rightarrow> LockQueue \<Rightarrow> bool" where
  "requested c p q \<longleftrightarrow> c \<in> set (waiting q) \<and> ((p, c) \<in> set (task_queue q) \<or> c \<in> set (served (run_task q)) \<union> set (called q))"

definition is_enter :: "lock_event \<Rightarrow> bool" where
  "is_enter e \<longleftrightarrow> (\<exists>c p. e = Enter c p)"

definition stops :: "lock_event \<Rightarrow> bool" where
  "stops e \<longleftrightarrow> e = Close \<or> (\<exists>c. e = Cancel c)"

text \<open>How many steps the queue can make before a request of priority \<open>p\<close> is served: six for each request that may go first.\<close>

definition phase_steps :: "LockQueue \<Rightarrow> nat" where
  "phase_steps q =
     (case run_task q of
        RunGet \<Rightarrow> 0 | RunAcquire c \<Rightarrow> 5 | RunCall c \<Rightarrow> 4
      | RunWait \<Rightarrow> if release_event q then 1 else if called q \<noteq> [] then 3 else 2
      | RunCancelled \<Rightarrow> 0)"

definition steps_left :: "int \<Rightarrow> LockQueue \<Rightarrow> nat" where
  "steps_left p q = phase_steps q + 6 * length (filter (\<lambda>t. fst t \<le> p) (task_queue q))"

lemma filter_remove1_length: "t \<in> set ts \<Longrightarrow> P t \<Longrightarrow> length (filter P (remove1 t ts)) = length (filter P ts) - 1"
  by (simp add: filter_remove1 length_remove1)

lemma filter_in_pos: "t \<in> set ts \<Longrightarrow> P t \<Longrightarrow> 0 < length (filter P ts)"
  by (auto simp: filter_empty_conv)

lemma all_alive_step:
  assumes "lock_ok q" "all_alive q" "lock_step e q = Some q'" "\<not> stops e"
  shows "all_alive q'"
proof (cases e)
  case (Get t)
  then have g: "t \<in> set (task_queue q)" "q' = q\<lparr>task_queue := remove1 t (task_queue q), release_event := False, run_task := RunAcquire (snd t)\<rparr>"
    "run_task q = RunGet"
    using assms(3) by (auto simp: run_get_def split: if_splits)
  have d: "distinct (queued q)" using assms(1) by (simp add: lock_ok_def clients_def)
  show ?thesis using assms(2) g queued_get [OF g(1) d] by (auto simp: all_alive_def)
next
  case (Resume c)
  then have "c \<in> set (called q)" "q' = q\<lparr>waiting := remove1 c (waiting q), called := remove1 c (called q), inside := c # inside q\<rparr>"
    using assms(3) by (auto simp: aenter_resume_def split: if_splits)
  then show ?thesis using assms(1,2) by (cases "run_task q") (auto simp: all_alive_def lock_ok_def clients_def set_remove1_eq)
next
  case (Exit c)
  then have "q' = q\<lparr>inside := remove1 c (inside q), inner_lock := False, release_event := True\<rparr>"
    using assms(3) by (auto simp: aexit_def release_def split: if_splits)
  then show ?thesis using assms(2) by (simp add: all_alive_def)
qed (use assms in \<open>auto simp: all_alive_def stops_def aenter_def put_def queued_def [symmetric] run_acquire_def acquire_def run_callback_def run_wait_def
  split: if_splits run_phase.splits\<close>)

lemma requested_step:
  assumes "lock_ok q" "requested c p q" "lock_step e q = Some q'" "\<not> stops e" "e \<noteq> Resume c"
  shows "requested c p q'"
proof (cases e)
  case (Get t)
  then have "q' = q\<lparr>task_queue := remove1 t (task_queue q), release_event := False, run_task := RunAcquire (snd t)\<rparr>" "run_task q = RunGet"
    using assms(3) by (auto simp: run_get_def split: if_splits)
  then show ?thesis using assms(1,2) by (cases "t = (p, c)") (auto simp: requested_def lock_ok_def in_set_remove1)
next
  case (Resume d)
  then have "d \<noteq> c" "q' = q\<lparr>waiting := remove1 d (waiting q), called := remove1 d (called q), inside := d # inside q\<rparr>"
    using assms(3,5) by (auto simp: aenter_resume_def split: if_splits)
  then show ?thesis using assms(2) by (auto simp: requested_def in_set_remove1)
next
  case (Exit d)
  then have "q' = q\<lparr>inside := remove1 d (inside q), inner_lock := False, release_event := True\<rparr>"
    using assms(3) by (auto simp: aexit_def release_def split: if_splits)
  then show ?thesis using assms(2) by (simp add: requested_def)
qed (use assms in \<open>auto simp: requested_def stops_def aenter_def put_def run_acquire_def acquire_def run_callback_def run_wait_def
  split: if_splits run_phase.splits\<close>)

text \<open>Each step of the queue or of a holder brings the request closer, and a new request delays it only when it may go first.\<close>

lemma steps_left_step:
  assumes "lock_ok q" "all_alive q" "requested c p q" "lock_step e q = Some q'" "\<not> stops e" "\<not> is_enter e"
  shows "steps_left p q' < steps_left p q"
proof (cases e)
  case (Get t)
  then have g: "run_task q = RunGet" "t \<in> set (task_queue q)" "\<forall>u \<in> set (task_queue q). fst t \<le> fst u"
    "q' = q\<lparr>task_queue := remove1 t (task_queue q), release_event := False, run_task := RunAcquire (snd t)\<rparr>"
    using assms(4) by (auto simp: run_get_def split: if_splits)
  then have "(p, c) \<in> set (task_queue q)" using assms(1,3) by (auto simp: requested_def lock_ok_def)
  then have le: "fst t \<le> p" using g(3) by auto
  obtain k where "length (filter (\<lambda>t. fst t \<le> p) (task_queue q)) = Suc k"
    using filter_in_pos [OF g(2), of "\<lambda>t. fst t \<le> p"] le gr0_implies_Suc by blast
  then show ?thesis
    using g le filter_remove1_length [OF g(2), of "\<lambda>t. fst t \<le> p"] by (simp add: steps_left_def phase_steps_def)
next
  case (Resume d)
  then have g: "d \<in> set (called q)" "q' = q\<lparr>waiting := remove1 d (waiting q), called := remove1 d (called q), inside := d # inside q\<rparr>"
    using assms(4) by (auto simp: aenter_resume_def split: if_splits)
  then have "run_task q = RunWait" "called q = [d]" "\<not> release_event q" using assms(1,2)
    by (cases "run_task q"; auto simp: lock_ok_def all_alive_def length_sum_one split: if_splits)+
  then show ?thesis using g(2) by (simp add: steps_left_def phase_steps_def)
next
  case (Exit d)
  then have g: "d \<in> set (inside q)" "q' = q\<lparr>inside := remove1 d (inside q), inner_lock := False, release_event := True\<rparr>"
    using assms(4) by (auto simp: aexit_def release_def split: if_splits)
  then have "run_task q = RunWait" "\<not> release_event q" using assms(1,2)
    by (cases "run_task q"; auto simp: lock_ok_def all_alive_def length_sum_one split: if_splits)+
  then show ?thesis using g(2) by (simp add: steps_left_def phase_steps_def)
next
  case Acquire
  then obtain d where "run_task q = RunAcquire d" "q' = q\<lparr>inner_lock := True, run_task := RunCall d\<rparr>"
    using assms(4) by (auto simp: run_acquire_def acquire_def split: if_splits run_phase.splits)
  then show ?thesis by (simp add: steps_left_def phase_steps_def)
next
  case Callback
  then obtain d where "run_task q = RunCall d" "q' = q\<lparr>called := d # called q, run_task := RunWait\<rparr>"
    using assms(4) by (auto simp: run_callback_def split: run_phase.splits)
  moreover from this have "\<not> release_event q" using assms(1) by (simp add: lock_ok_def)
  ultimately show ?thesis by (simp add: steps_left_def phase_steps_def)
next
  case Wake
  then have "run_task q = RunWait" "release_event q" "q' = q\<lparr>run_task := RunGet\<rparr>"
    using assms(4) by (auto simp: run_wait_def split: if_splits)
  then show ?thesis by (simp add: steps_left_def phase_steps_def)
qed (use assms(5,6) in \<open>auto simp: stops_def is_enter_def\<close>)

lemma steps_left_enter:
  "lock_step (Enter d r) q = Some q' \<Longrightarrow> steps_left p q' = steps_left p q + (if r \<le> p then 6 else 0)"
  by (cases "run_task q") (auto simp: aenter_def put_def steps_left_def phase_steps_def split: if_splits)

lemma step_enabled:
  assumes "lock_ok q" "all_alive q" "requested c p q"
  shows "\<exists>e. \<not> is_enter e \<and> \<not> stops e \<and> lock_step e q \<noteq> None"
proof (cases "run_task q")
  case RunGet
  then have "(p, c) \<in> set (task_queue q)" using assms(1,3) by (auto simp: requested_def lock_ok_def)
  then obtain t where "t \<in> set (task_queue q)" "\<forall>u \<in> set (task_queue q). fst t \<le> fst u"
  proof -
    have "Min (fst ` set (task_queue q)) \<in> fst ` set (task_queue q)"
      using \<open>(p, c) \<in> set (task_queue q)\<close> by (intro Min_in) auto
    then obtain t where t: "t \<in> set (task_queue q)" "fst t = Min (fst ` set (task_queue q))" by auto
    show ?thesis by (rule that [OF t(1)]) (simp add: t(2))
  qed
  then have "lock_step (Get t) q \<noteq> None" using RunGet by (simp add: run_get_def)
  then show ?thesis by (intro exI [of _ "Get t"]) (simp add: is_enter_def stops_def)
next
  case (RunAcquire d)
  then have "lock_step Acquire q \<noteq> None" using assms(1) by (simp add: run_acquire_def acquire_def lock_ok_def)
  then show ?thesis by (intro exI [of _ Acquire]) (simp add: is_enter_def stops_def)
next
  case (RunCall d)
  then have "lock_step Callback q \<noteq> None" by (simp add: run_callback_def)
  then show ?thesis by (intro exI [of _ Callback]) (simp add: is_enter_def stops_def)
next
  case RunWait
  show ?thesis
  proof (cases "release_event q")
    case True
    then have "lock_step Wake q \<noteq> None" using RunWait by (simp add: run_wait_def)
    then show ?thesis by (intro exI [of _ Wake]) (simp add: is_enter_def stops_def)
  next
    case False
    then obtain d where d: "called q = [d] \<and> inside q = [] \<or> called q = [] \<and> inside q = [d]" "inner_lock q"
      using RunWait assms(1) by (auto simp: lock_ok_def length_sum_one)
    then have "lock_step (if called q = [d] then Resume d else Exit d) q \<noteq> None"
      using assms(2) by (auto simp: aenter_resume_def aexit_def release_def all_alive_def)
    then show ?thesis by (intro exI [of _ "if called q = [d] then Resume d else Exit d"]) (auto simp: is_enter_def stops_def)
  qed
next
  case RunCancelled
  then show ?thesis using assms(2) by (simp add: all_alive_def)
qed

text \<open>
  C15. A waiting client is always let in. While its request of priority \<open>p\<close> waits, a step of the queue or of the client inside is
  possible; and in every infinite run without cancellations in which such steps are taken again and again and requests of priority
  \<open>p\<close> or higher stop arriving, the client resumes, however many requests of lower priority arrive.
\<close>

theorem lock_queue_serves:
  assumes "lock_reachable (st 0)" "all_alive (st 0)" "requested c p (st 0)"
    and "\<And>n. lock_step (ev n) (st n) = Some (st (Suc n))" "\<And>n. \<not> stops (ev n)"
    and "finite {n. \<exists>d r. ev n = Enter d r \<and> r \<le> p}"
    and "infinite {n. \<not> is_enter (ev n)}"
  shows "\<exists>n. ev n = Resume c \<and> c \<in> set (inside (st (Suc n))) \<and>
    (\<forall>m \<le> n. \<exists>e. \<not> is_enter e \<and> \<not> stops e \<and> lock_step e (st m) \<noteq> None)"
proof -
  have ok: "lock_ok (st n) \<and> all_alive (st n)" for n
  proof (induction n)
    case 0
    then show ?case using assms(1,2) lock_reachable_ok by blast
  next
    case (Suc n)
    then show ?case using assms(4,5) [of n] lock_ok_step all_alive_step by blast
  qed
  have req: "requested c p (st n)" if "\<forall>m < n. ev m \<noteq> Resume c" for n
    using that
  proof (induction n)
    case (Suc n)
    then show ?case using requested_step [OF _ _ assms(4,5)] ok by (metis lessI less_SucI)
  qed (use assms(3) in simp)
  have "\<exists>n. ev n = Resume c"
  proof (rule ccontr)
    assume no: "\<nexists>n. ev n = Resume c"
    obtain N where N: "\<And>n d r. n \<ge> N \<Longrightarrow> ev n = Enter d r \<Longrightarrow> p < r"
    proof -
      obtain N where "\<forall>n \<in> {n. \<exists>d r. ev n = Enter d r \<and> r \<le> p}. n < N" using assms(6) finite_nat_set_iff_bounded by blast
      then show ?thesis using that by (metis (mono_tags, lifting) mem_Collect_eq not_le)
    qed
    have mono1: "steps_left p (st (Suc n)) \<le> steps_left p (st n)" if "n \<ge> N" for n
    proof (cases "is_enter (ev n)")
      case True
      then obtain d r where "ev n = Enter d r" by (auto simp: is_enter_def)
      then show ?thesis using steps_left_enter [of d r "st n" "st (Suc n)" p] assms(4) [of n] N [OF that] by force
    next
      case False
      then show ?thesis using steps_left_step [OF _ _ req assms(4,5)] ok no by (metis less_imp_le)
    qed
    have mono: "steps_left p (st m) \<le> steps_left p (st n)" if "N \<le> n" "n \<le> m" for n m
      using that(2) by (rule dec_induct) (use mono1 that(1) in \<open>auto intro: order_trans\<close>)
    have "False" if "N \<le> n" for n
      using that
    proof (induction "steps_left p (st n)" arbitrary: n rule: less_induct)
      case less
      obtain m where m: "n \<le> m" "\<not> is_enter (ev m)" using assms(7) unfolding finite_nat_set_iff_bounded by (meson mem_Collect_eq not_le)
      have "steps_left p (st (Suc m)) < steps_left p (st m)" using steps_left_step [OF _ _ req assms(4,5) m(2)] ok no by blast
      then have "steps_left p (st (Suc m)) < steps_left p (st n)" using mono [OF less.prems m(1)] by simp
      then show False using less.hyps less.prems m(1) by (metis le_SucI le_trans)
    qed
    then show False by blast
  qed
  then obtain n where n: "ev n = Resume c" "\<forall>m < n. ev m \<noteq> Resume c" using exists_least_iff [of "\<lambda>n. ev n = Resume c"] by blast
  have "Some (st (Suc n)) = aenter_resume c (st n)" using assms(4) [of n] n(1) by simp
  then have "c \<in> set (inside (st (Suc n)))" by (simp add: aenter_resume_def split: if_splits)
  moreover have "\<exists>e. \<not> is_enter e \<and> \<not> stops e \<and> lock_step e (st m) \<noteq> None" if "m \<le> n" for m
    using step_enabled [OF _ _ req] ok n(2) that by (meson less_le_trans)
  ultimately show ?thesis using n(1) by blast
qed

text \<open>
  A client that is cancelled while it waits blocks the queue for good: its request is granted, nobody leaves, and the release event is
  never set. An \<^verbatim>\<open>asyncio.Lock\<close> would pass the lock on.
\<close>

definition abandoned :: "LockQueue \<Rightarrow> bool" where
  "abandoned q \<longleftrightarrow> inner_lock q \<and> \<not> release_event q \<and> inside q = [] \<and> run_task q \<in> {RunWait, RunCancelled} \<and> set (called q) \<inter> set (waiting q) = {}"

lemma abandoned_forever:
  assumes "abandoned q" "lock_step e q = Some q'"
  shows "abandoned q'"
proof (cases e)
  case (Cancel c)
  then have "q' = q\<lparr>waiting := remove1 c (waiting q)\<rparr>" using assms(2) by (auto simp: cancel_def split: if_splits)
  moreover have "set (called q) \<inter> set (remove1 c (waiting q)) = {}"
    using assms(1) set_remove1_subset [of c "waiting q"] unfolding abandoned_def by blast
  ultimately show ?thesis using assms(1) by (simp add: abandoned_def)
qed (use assms in \<open>auto simp: abandoned_def lock_step_defs clients_def split: if_splits run_phase.splits\<close>)

lemma cancelled_client_blocks:
  assumes "lock_reachable q" "run_task q = RunCall c" "c \<notin> set (waiting q)" "lock_step Callback q = Some q'"
  shows "abandoned q'"
  using lock_reachable_ok [OF assms(1)] assms(2-4) by (auto simp: abandoned_def run_callback_def lock_ok_def)

section \<open>A run\<close>

text \<open>A request of priority 1 is served once; requests of priority 2 arrive for ever.\<close>

definition demo_first :: "lock_event list" where
  "demo_first = [Get (1, 0), Acquire, Callback, Resume 0, Exit 0, Wake]"

definition demo_round :: "lock_event list" where
  "demo_round = [Enter 7 2, Get (2, 7), Acquire, Callback, Resume 7, Exit 7, Wake]"

definition demo_event :: "nat \<Rightarrow> lock_event" where
  "demo_event n = (if n < 6 then demo_first ! n else demo_round ! ((n - 6) mod 7))"

definition demo_run :: "lock_event list \<Rightarrow> LockQueue \<Rightarrow> LockQueue" where
  "demo_run es q = foldl (\<lambda>q e. the (lock_step e q)) q es"

definition demo_start :: LockQueue where
  "demo_start = demo_run [Enter 0 1] LockQueue_init"

definition demo_idle :: LockQueue where
  "demo_idle = LockQueue_init\<lparr>release_event := True\<rparr>"

definition demo_state :: "nat \<Rightarrow> LockQueue" where
  "demo_state n = (if n < 6 then demo_run (take n demo_first) demo_start else demo_run (take ((n - 6) mod 7) demo_round) demo_idle)"

lemmas demo_defs = demo_run_def demo_start_def demo_idle_def demo_first_def demo_round_def LockQueue_init_def lock_step_defs clients_def queued_def

lemma demo_first_step: "n < 6 \<Longrightarrow> lock_step (demo_first ! n) (demo_run (take n demo_first) demo_start) = Some (demo_run (take (Suc n) demo_first) demo_start)"
  by (simp add: less_Suc_eq_0_disj numeral_eq_Suc) (auto simp: demo_defs)

lemma demo_round_step: "n < 7 \<Longrightarrow> lock_step (demo_round ! n) (demo_run (take n demo_round) demo_idle) = Some (demo_run (take (Suc n) demo_round) demo_idle)"
  by (simp add: less_Suc_eq_0_disj numeral_eq_Suc) (auto simp: demo_defs)

lemma demo_idles: "demo_run (take 6 demo_first) demo_start = demo_idle" "demo_run (take 7 demo_round) demo_idle = demo_idle"
  by (simp_all add: demo_defs)

lemma demo_step: "lock_step (demo_event n) (demo_state n) = Some (demo_state (Suc n))"
proof (cases "n < 6")
  case True
  then show ?thesis using demo_first_step [OF True] demo_idles(1)
    by (cases "n = 5") (simp_all add: demo_event_def demo_state_def demo_run_def [of "[]"])
next
  case False
  have m: "(n - 6) mod 7 < 7" by simp
  have "Suc n - 6 = Suc (n - 6)" using False by simp
  then show ?thesis using False demo_round_step [OF m] demo_idles(2)
    by (cases "(n - 6) mod 7 = 6") (simp_all add: demo_event_def demo_state_def mod_Suc demo_run_def [of "[]"])
qed

lemma demo_round_events: "e \<in> set demo_first \<union> set demo_round \<Longrightarrow> \<not> stops e \<and> (is_enter e \<longleftrightarrow> e = Enter 7 2)"
  by (auto simp: demo_first_def demo_round_def stops_def is_enter_def)

lemma demo_event_in: "demo_event n \<in> set demo_first \<union> set demo_round"
proof -
  have "(n - 6) mod 7 < length demo_round" by (simp add: demo_round_def)
  moreover have "n < 6 \<Longrightarrow> n < length demo_first" by (simp add: demo_first_def)
  ultimately show ?thesis by (auto simp: demo_event_def simp del: length_Cons)
qed

theorem lock_queue_serves_witness:
  "\<exists>n. demo_event n = Resume 0 \<and> 0 \<in> set (inside (demo_state (Suc n)))"
proof -
  have start: "lock_step (Enter 0 1) LockQueue_init = Some (demo_state 0)" by (simp add: demo_state_def demo_defs)
  have r: "lock_reachable (demo_state 0)" using lock_reachable.step [OF lock_reachable.start start] .
  have a: "all_alive (demo_state 0)" "requested 0 1 (demo_state 0)" by (simp_all add: demo_state_def demo_defs all_alive_def requested_def)
  have "r = 2" if "demo_event n = Enter d r" for n d r using demo_round_events [OF demo_event_in [of n]] that by (auto simp: is_enter_def)
  then have "{n. \<exists>d r. demo_event n = Enter d r \<and> r \<le> 1} = {}" by force
  then have f: "finite {n. \<exists>d r. demo_event n = Enter d r \<and> r \<le> 1}" by (rule ssubst) simp
  have "\<not> is_enter (demo_event (7 * k + 7))" for k by (simp add: demo_event_def demo_round_def is_enter_def)
  then have "range (\<lambda>k. 7 * k + 7) \<subseteq> {n. \<not> is_enter (demo_event n)}" by auto
  moreover have "inj (\<lambda>k :: nat. 7 * k + 7)" by (rule injI) simp
  ultimately have i: "infinite {n. \<not> is_enter (demo_event n)}" using finite_imageD finite_subset infinite_UNIV_nat by metis
  show ?thesis using lock_queue_serves [OF r a demo_step _ f i] demo_round_events [OF demo_event_in] by blast
qed

theorem lock_queue_exclusive_witness:
  "\<exists>q. lock_reachable q \<and> inside q = [0] \<and> lock_step Acquire q = None"
proof -
  have "lock_step (Enter 0 1) LockQueue_init = Some (demo_state 0)" by (simp add: demo_state_def demo_defs)
  from lock_reachable.step [OF lock_reachable.start this] have "lock_reachable (demo_state 0)" .
  from this [THEN lock_reachable.step, OF demo_step, THEN lock_reachable.step, OF demo_step, THEN lock_reachable.step, OF demo_step,
      THEN lock_reachable.step, OF demo_step]
  have r: "lock_reachable (demo_state 4)" by (simp add: numeral_eq_Suc)
  have "0 \<in> set (inside (demo_state 4))" by (simp add: demo_state_def demo_defs)
  from lock_queue_exclusive [OF r this] show ?thesis using r by blast
qed

end
