(* ===== verification/BlockStore.thy ===== *)
theory BlockStore
  imports BlockRecords CoinStore
begin

text \<open>
  \<^verbatim>\<open>hddcoin/full_node/block_store.py\<close>: the database of blocks with its cache. The two tables are lists of rows with the columns of the
  source; a blob is kept as the object it is the serialization of. \<^verbatim>\<open>INSERT OR REPLACE\<close> removes the row with the same primary key.
  The contents are the maps \<open>block_view\<close> and \<open>get_block_record\<close> from header hashes; adding a block updates both, the cache never shows, and setting the peak leaves one peak row. The blocks that a lookup puts into the cache before it raises are not kept,
  as the result of a raise has no state. Sub-epoch segments, the getter of raw bytes and the random choice of blocks to compactify are left out.
\<close>

section \<open>Tables and operations\<close>

record full_block_row =
  fbr_header_hash :: "int list"
  fbr_height :: int
  fbr_is_block :: bool
  fbr_is_fully_compactified :: bool
  fbr_block :: FullBlock

record block_record_row =
  brr_header_hash :: "int list"
  brr_prev_hash :: "int list"
  brr_height :: int
  brr_block :: BlockRecord
  brr_sub_epoch_summary :: "SubEpochSummary option"
  brr_is_peak :: bool
  brr_is_block :: bool

record BlockStore =
  full_blocks :: "full_block_row list"
  block_records_table :: "block_record_row list"
  block_cache :: "(bytes, FullBlock) LRUCache"

definition BlockStore_create :: "full_block_row list \<Rightarrow> block_record_row list \<Rightarrow> BlockStore" where
  "BlockStore_create fb br = \<lparr> full_blocks = fb, block_records_table = br, block_cache = LRUCache_init 1000 \<rparr>"

definition insert_or_replace :: "('r \<Rightarrow> 'k) \<Rightarrow> 'r \<Rightarrow> 'r list \<Rightarrow> 'r list" where
  "insert_or_replace key row table = filter (\<lambda>r. key r \<noteq> key row) table @ [row]"

definition full_row :: "bytes \<Rightarrow> FullBlock \<Rightarrow> full_block_row" where
  "full_row hh b =
     \<lparr> fbr_header_hash = bytes_hex hh, fbr_height = FullBlock_height b, fbr_is_block = FullBlock_is_transaction_block b,
       fbr_is_fully_compactified = is_fully_compactified b, fbr_block = b \<rparr>"

definition br_row :: "bytes \<Rightarrow> FullBlock \<Rightarrow> BlockRecord \<Rightarrow> block_record_row" where
  "br_row hh b r =
     \<lparr> brr_header_hash = bytes_hex hh, brr_prev_hash = bytes_hex (prev_header_hash b), brr_height = FullBlock_height b, brr_block = r,
       brr_sub_epoch_summary = sub_epoch_summary_included r, brr_is_peak = False, brr_is_block = FullBlock_is_transaction_block b \<rparr>"

definition add_full_block :: "bytes \<Rightarrow> FullBlock \<Rightarrow> BlockRecord \<Rightarrow> BlockStore \<Rightarrow> BlockStore" where
  "add_full_block hh b r self =
     \<lparr> full_blocks = insert_or_replace fbr_header_hash (full_row hh b) (full_blocks self),
       block_records_table = insert_or_replace brr_header_hash (br_row hh b r) (block_records_table self),
       block_cache = LRUCache_put hh b (block_cache self) \<rparr>"

definition rollback_cache_block :: "bytes \<Rightarrow> BlockStore \<Rightarrow> BlockStore" where
  "rollback_cache_block hh self =
     (case LRUCache_remove hh (block_cache self) of Inr c \<Rightarrow> self\<lparr>block_cache := c\<rparr> | Inl _ \<Rightarrow> self)"

definition get_full_block :: "bytes \<Rightarrow> BlockStore \<Rightarrow> FullBlock option \<times> BlockStore" where
  "get_full_block hh self =
     (case LRUCache_get hh (block_cache self) of (cached, c) \<Rightarrow>
        case cached of
          Some b \<Rightarrow> (Some b, self\<lparr>block_cache := c\<rparr>)
        | None \<Rightarrow>
            (case List.find (\<lambda>row. fbr_header_hash row = bytes_hex hh) (full_blocks self) of
               None \<Rightarrow> (None, self\<lparr>block_cache := c\<rparr>)
             | Some row \<Rightarrow> (Some (fbr_block row), self\<lparr>block_cache := LRUCache_put hh (fbr_block row) c\<rparr>)))"

definition get_full_blocks_at :: "int list \<Rightarrow> BlockStore \<Rightarrow> FullBlock list" where
  "get_full_blocks_at heights self =
     (if length heights = 0 then [] else map fbr_block (filter (\<lambda>row. fbr_height row \<in> set heights) (full_blocks self)))"

definition get_block_record :: "bytes \<Rightarrow> BlockStore \<Rightarrow> BlockRecord option" where
  "get_block_record hh self = map_option brr_block (List.find (\<lambda>row. brr_header_hash row = bytes_hex hh) (block_records_table self))"

definition get_block_records_by_hash :: "bytes list \<Rightarrow> BlockStore \<Rightarrow> BlockRecord list res" where
  "get_block_records_by_hash header_hashes self =
     (if length header_hashes = 0 then Inr []
      else
        let rows = filter (\<lambda>row. brr_header_hash row \<in> set (map bytes_hex header_hashes)) (block_records_table self);
            all_blocks = fold (\<lambda>row. dput (header_hash (brr_block row)) (brr_block row)) rows []
        in rmap (\<lambda>hh. case map_of all_blocks hh of None \<Rightarrow> Inl ValueError | Some r \<Rightarrow> Inr r) header_hashes)"

definition get_blocks_by_hash :: "bytes list \<Rightarrow> BlockStore \<Rightarrow> (FullBlock list \<times> BlockStore) res" where
  "get_blocks_by_hash header_hashes self =
     (if length header_hashes = 0 then Inr ([], self)
      else
        let rows = filter (\<lambda>row. fbr_header_hash row \<in> set (map bytes_hex header_hashes)) (full_blocks self) in
        rbind (rfold (\<lambda>row (d, c). rbind (bytes_fromhex (fbr_header_hash row)) (\<lambda>hh.
                 Inr (dput hh (fbr_block row) d, LRUCache_put hh (fbr_block row) c))) rows ([], block_cache self)) (\<lambda>(all_blocks, c).
        rbind (rmap (\<lambda>hh. case map_of all_blocks hh of None \<Rightarrow> Inl ValueError | Some b \<Rightarrow> Inr b) header_hashes) (\<lambda>ret.
          Inr (ret, self\<lparr>block_cache := c\<rparr>))))"

definition records_of_rows :: "block_record_row list \<Rightarrow> ((bytes, BlockRecord) dict) res" where
  "records_of_rows rows = rfold (\<lambda>row d. rbind (bytes_fromhex (brr_header_hash row)) (\<lambda>hh. Inr (dput hh (brr_block row) d))) rows []"

definition get_block_records_in_range :: "int \<Rightarrow> int \<Rightarrow> BlockStore \<Rightarrow> ((bytes, BlockRecord) dict) res" where
  "get_block_records_in_range start stop self =
     records_of_rows (filter (\<lambda>row. brr_height row \<ge> start \<and> brr_height row \<le> stop) (block_records_table self))"

definition get_block_records_close_to_peak :: "int \<Rightarrow> BlockStore \<Rightarrow> ((bytes, BlockRecord) dict \<times> bytes option) res" where
  "get_block_records_close_to_peak blocks_n self =
     (case List.find brr_is_peak (block_records_table self) of
        None \<Rightarrow> Inr ([], None)
      | Some peak_row \<Rightarrow>
          rbind (records_of_rows (filter (\<lambda>row. brr_height row \<ge> brr_height peak_row - blocks_n) (block_records_table self))) (\<lambda>ret.
          rbind (bytes_fromhex (brr_header_hash peak_row)) (\<lambda>hh. Inr (ret, Some hh))))"

text \<open>The three dictionaries of \<^verbatim>\<open>get_peak_height_dicts\<close>, and its walk from the peak to the genesis block.\<close>

record chain_dicts =
  hash_to_prev_hash :: "(bytes, bytes) dict"
  hash_to_height :: "(bytes, int) dict"
  hash_to_summary :: "(bytes, SubEpochSummary) dict"

definition add_chain_row :: "block_record_row \<Rightarrow> chain_dicts \<Rightarrow> chain_dicts res" where
  "add_chain_row row d =
     rbind (bytes_fromhex (brr_header_hash row)) (\<lambda>hh.
     rbind (bytes_fromhex (brr_prev_hash row)) (\<lambda>ph.
       Inr \<lparr> hash_to_prev_hash = dput hh ph (hash_to_prev_hash d), hash_to_height = dput hh (brr_height row) (hash_to_height d),
             hash_to_summary = (case brr_sub_epoch_summary row of None \<Rightarrow> hash_to_summary d | Some ses \<Rightarrow> dput hh ses (hash_to_summary d)) \<rparr>))"

text \<open>One round of the loop; \<open>True\<close> is the \<^verbatim>\<open>break\<close>.\<close>

definition peak_walk :: "chain_dicts \<Rightarrow> bool \<times> bytes \<times> int \<times> (int, bytes) dict \<times> (int, SubEpochSummary) dict \<Rightarrow>
    (bool \<times> bytes \<times> int \<times> (int, bytes) dict \<times> (int, SubEpochSummary) dict) res" where
  "peak_walk d s =
     (case s of (_, hh, h, hts, ses) \<Rightarrow>
        let hts = dput h hh hts;
            ses = (case map_of (hash_to_summary d) hh of None \<Rightarrow> ses | Some x \<Rightarrow> dput h x ses)
        in if h = 0 then Inr (True, hh, h, hts, ses)
           else rbind (dget (hash_to_prev_hash d) hh) (\<lambda>ph.
                rbind (dget (hash_to_height d) ph) (\<lambda>h'. Inr (False, ph, h', hts, ses))))"

definition get_peak_height_dicts :: "BlockStore \<Rightarrow> ((int, bytes) dict \<times> (int, SubEpochSummary) dict) res" where
  "get_peak_height_dicts self =
     (case List.find brr_is_peak (block_records_table self) of
        None \<Rightarrow> Inr ([], [])
      | Some row \<Rightarrow>
          rbind (bytes_fromhex (brr_header_hash row)) (\<lambda>peak.
          rbind (rfold add_chain_row (block_records_table self) \<lparr> hash_to_prev_hash = [], hash_to_height = [], hash_to_summary = [] \<rparr>) (\<lambda>d.
          rbind (dget (hash_to_height d) peak) (\<lambda>h.
          rbind (py_while (\<lambda>s. \<not> fst s) (peak_walk d) (False, peak, h, [], [])) (\<lambda>(_, _, _, hts, ses).
            Inr (hts, ses))))))"

definition set_peak :: "bytes \<Rightarrow> BlockStore \<Rightarrow> BlockStore" where
  "set_peak hh self =
     self\<lparr>block_records_table :=
       map (\<lambda>row. if brr_header_hash row = bytes_hex hh then row\<lparr>brr_is_peak := True\<rparr> else row)
         (map (\<lambda>row. if brr_is_peak row then row\<lparr>brr_is_peak := False\<rparr> else row) (block_records_table self))\<rparr>"

definition BlockStore_is_fully_compactified :: "bytes \<Rightarrow> BlockStore \<Rightarrow> bool option" where
  "BlockStore_is_fully_compactified hh self =
     map_option fbr_is_fully_compactified (List.find (\<lambda>row. fbr_header_hash row = bytes_hex hh) (full_blocks self))"

section \<open>Contents\<close>

definition block_view :: "BlockStore \<Rightarrow> bytes \<Rightarrow> FullBlock option" where
  "block_view self hh = map_option fbr_block (List.find (\<lambda>row. fbr_header_hash row = bytes_hex hh) (full_blocks self))"

definition block_store_ok :: "BlockStore \<Rightarrow> bool" where
  "block_store_ok self \<longleftrightarrow> lru.coherent (block_cache self) (block_view self)"

lemma find_insert_or_replace:
  "List.find (\<lambda>r. key r = k) (insert_or_replace key row table) = (if k = key row then Some row else List.find (\<lambda>r. key r = k) table)"
proof -
  have "List.find (\<lambda>r. key r = k) (filter (\<lambda>r. key r \<noteq> key row) table @ l) =
      (if k = key row then List.find (\<lambda>r. key r = k) l else case List.find (\<lambda>r. key r = k) table of Some r \<Rightarrow> Some r | None \<Rightarrow> List.find (\<lambda>r. key r = k) l)" for l
    by (induction table) auto
  then show ?thesis by (auto simp: insert_or_replace_def split: option.splits)
qed

lemma block_view_add: "block_view (add_full_block hh b r self) = (block_view self)(hh \<mapsto> b)"
  using find_insert_or_replace [of fbr_header_hash _ "full_row hh b" "full_blocks self"]
  by (auto simp: block_view_def add_full_block_def full_row_def fun_eq_iff)

lemma get_block_record_add: "get_block_record k (add_full_block hh b r self) = (if k = hh then Some r else get_block_record k self)"
  using find_insert_or_replace [of brr_header_hash "bytes_hex k" "br_row hh b r" "block_records_table self"]
  by (auto simp: get_block_record_def add_full_block_def br_row_def)

lemma block_store_ok_add: "block_store_ok self \<Longrightarrow> block_store_ok (add_full_block hh b r self)"
  using lru.coherent_put [of "block_cache self" "block_view self" hh b]
  by (simp add: block_store_ok_def block_view_add) (simp add: add_full_block_def)

lemma get_full_block_ok:
  assumes "block_store_ok self"
  shows "\<exists>self'. get_full_block hh self = (block_view self hh, self') \<and> block_store_ok self' \<and> full_blocks self' = full_blocks self \<and>
    block_records_table self' = block_records_table self"
proof -
  obtain r c where g: "LRUCache_get hh (block_cache self) = (r, c)" by force
  from lru.coherent_get [OF assms [unfolded block_store_ok_def] g]
  have c: "lru.coherent c (block_view self)" "\<forall>v. r = Some v \<longrightarrow> block_view self hh = Some v" by auto
  have view: "block_view (self\<lparr>block_cache := x\<rparr>) = block_view self" for x by (simp add: block_view_def fun_eq_iff)
  show ?thesis
  proof (cases r)
    case (Some v)
    then show ?thesis using c by (auto simp: get_full_block_def g block_store_ok_def view)
  next
    case None
    show ?thesis
    proof (cases "List.find (\<lambda>row. fbr_header_hash row = bytes_hex hh) (full_blocks self)")
      case f: None
      then show ?thesis using c None by (auto simp: get_full_block_def g block_store_ok_def view) (simp add: block_view_def)
    next
      case (Some row)
      then have "block_view self hh = Some (fbr_block row)" by (simp add: block_view_def)
      then show ?thesis using c None Some by (auto simp: get_full_block_def g block_store_ok_def view intro: lru.coherent_put_same)
    qed
  qed
qed

lemma set_peak_records: "get_block_record k (set_peak hh self) = get_block_record k self"
proof -
  have same: "map_option brr_block (List.find (\<lambda>row. brr_header_hash row = x) (map f l)) = map_option brr_block (List.find (\<lambda>row. brr_header_hash row = x) l)"
    if "\<And>row. brr_header_hash (f row) = brr_header_hash row \<and> brr_block (f row) = brr_block row" for f x l
    using that by (induction l) auto
  show ?thesis by (simp add: get_block_record_def set_peak_def same del: map_map)
qed

lemma set_peak_ok: "block_store_ok (set_peak hh self) = block_store_ok self" "block_view (set_peak hh self) = block_view self"
  by (simp_all add: block_store_ok_def set_peak_def block_view_def [abs_def])

lemma set_peak_unique: "row \<in> set (block_records_table (set_peak hh self)) \<Longrightarrow> brr_is_peak row \<longleftrightarrow> brr_header_hash row = bytes_hex hh"
  by (auto simp: set_peak_def)

end
