(* ===== verification/RecordOfBlock.thy ===== *)
theory RecordOfBlock
  imports Difficulty
begin

text \<open>
  \<^verbatim>\<open>hddcoin/consensus/full_block_to_block_record.py\<close>: the record that the chain keeps of a block. The argument is a full block; a header
  block has the same attributes. Shown: the record repeats the block, its transaction block pointer is the closest transaction block
  below it, and the search for it ends.
\<close>

section \<open>The conversion\<close>

definition ChallengeBlockInfo_fields :: "ty list" where
  "ChallengeBlockInfo_fields = [TClass ProofOfSpace_fields, TOptional (TClass VDFInfo_fields), TBls G2Element, TClass VDFInfo_fields]"

definition ChallengeBlockInfo_items :: "RewardChainBlock \<Rightarrow> item list" where
  "ChallengeBlockInfo_items x =
     [VObj (ProofOfSpace_items (proof_of_space x)), VOpt (\<lambda>v. VObj (VDFInfo_items v)) (challenge_chain_sp_vdf x),
      VBls (challenge_chain_sp_signature x), VObj (VDFInfo_items (challenge_chain_ip_vdf x))]"

text \<open>The hashes of the finished sub-slots: challenge, infused challenge and reward chain.\<close>

definition finished_hashes :: "crypto \<Rightarrow> ConsensusConstants \<Rightarrow> FullBlock \<Rightarrow> (bytes list option \<times> bytes list option \<times> bytes list option) res" where
  "finished_hashes E constants block =
     (if length (finished_sub_slots block) > 0 then
        rbind (rmap (\<lambda>s. get_hash E ChallengeChainSubSlot_fields (ChallengeChainSubSlot_items (challenge_chain s))) (finished_sub_slots block)) (\<lambda>cc.
        rbind (rmap (\<lambda>s. get_hash E RewardChainSubSlot_fields (RewardChainSubSlot_items (reward_chain s))) (finished_sub_slots block)) (\<lambda>rc.
        rbind (rmap (\<lambda>icc. get_hash E InfusedChallengeChainSubSlot_fields (InfusedChallengeChainSubSlot_items icc))
                 (List.map_filter infused_challenge_chain (finished_sub_slots block))) (\<lambda>icc.
          Inr (Some cc, Some icc, Some rc))))
      else if FullBlock_height block = 0 then Inr (Some [GENESIS_CHALLENGE constants], None, Some [GENESIS_CHALLENGE constants])
      else Inr (None, None, None))"

definition header_block_to_sub_block_record ::
  "crypto \<Rightarrow> ConsensusConstants \<Rightarrow> int \<Rightarrow> FullBlock \<Rightarrow> int \<Rightarrow> bool \<Rightarrow> int \<Rightarrow> int \<Rightarrow> SubEpochSummary option \<Rightarrow> BlockRecord res" where
  "header_block_to_sub_block_record E constants req_iters block ssi ovf dfc prev_tb_height ses =
     rbind (finished_hashes E constants block) (\<lambda>(cc, icc, rc).
     rbind (FullBlock_header_hash E block) (\<lambda>hh.
     rbind (get_hash E RewardChainBlock_fields (RewardChainBlock_items (reward_chain_block block))) (\<lambda>rcb_hash.
     rbind (get_hash E ChallengeBlockInfo_fields (ChallengeBlockInfo_items (reward_chain_block block))) (\<lambda>cbi_hash.
       Inr \<lparr> header_hash = hh, prev_hash = prev_header_hash block, height = FullBlock_height block, weight = FullBlock_weight block,
             total_iters = FullBlock_total_iters block, signage_point_index = rcb_signage_point_index (reward_chain_block block),
             challenge_vdf_output = vdf_output (challenge_chain_ip_vdf (reward_chain_block block)),
             infused_challenge_vdf_output = map_option vdf_output (infused_challenge_chain_ip_vdf (reward_chain_block block)),
             reward_infusion_new_challenge = rcb_hash, challenge_block_info_hash = cbi_hash, sub_slot_iters = ssi,
             pool_puzzle_hash = pt_puzzle_hash (pool_target (foliage_block_data (foliage block))),
             farmer_puzzle_hash = farmer_reward_puzzle_hash (foliage_block_data (foliage block)),
             required_iters = req_iters, deficit = dfc, overflow = ovf, prev_transaction_block_height = prev_tb_height,
             timestamp = map_option ftb_timestamp (foliage_transaction_block block),
             prev_transaction_block_hash = map_option ftb_prev_transaction_block_hash (foliage_transaction_block block),
             fees = map_option ti_fees (transactions_info block),
             reward_claims_incorporated = map_option ti_reward_claims_incorporated (transactions_info block),
             finished_challenge_slot_hashes = cc, finished_infused_challenge_slot_hashes = icc, finished_reward_slot_hashes = rc,
             sub_epoch_summary_included = ses \<rparr>))))"

text \<open>The last sub-slot with a sub-epoch summary decides.\<close>

definition found_ses_hash :: "FullBlock \<Rightarrow> bytes option" where
  "found_ses_hash block =
     fold (\<lambda>s found. case subepoch_summary_hash (challenge_chain s) of None \<Rightarrow> found | Some h \<Rightarrow> Some h) (finished_sub_slots block) None"

definition included_summary ::
  "crypto \<Rightarrow> ConsensusConstants \<Rightarrow> BlockchainInterface \<Rightarrow> FullBlock \<Rightarrow> BlockRecord option \<Rightarrow> SubEpochSummary option res" where
  "included_summary E constants blocks block prev_b =
     (case found_ses_hash block of
        None \<Rightarrow> Inr None
      | Some h \<Rightarrow>
          if h = [] then Inr None
          else case prev_b of
              None \<Rightarrow> Inl AssertionError
            | Some pb \<Rightarrow>
                rbind (block_record blocks (prev_hash pb)) (\<lambda>ppb.
                rbind (py_index (finished_sub_slots block) 0) (\<lambda>s.
                rbind (make_sub_epoch_summary E constants blocks (FullBlock_height block) ppb
                         (cc_new_difficulty (challenge_chain s)) (cc_new_sub_slot_iters (challenge_chain s))) (\<lambda>ses.
                rbind (get_hash E SubEpochSummary_fields (SubEpochSummary_items ses)) (\<lambda>ses_hash.
                  rassert (ses_hash = h) (Inr (Some ses)))))))"

definition prev_tx_height :: "BlockchainInterface \<Rightarrow> bytes \<Rightarrow> int res" where
  "prev_tx_height blocks prev_hh =
     rbind (try_block_record blocks prev_hh) (\<lambda>cur.
     rbind (py_while (\<lambda>cur. case cur of None \<Rightarrow> False | Some b \<Rightarrow> \<not> is_transaction_block b)
              (\<lambda>cur. case cur of None \<Rightarrow> Inl TypeError | Some b \<Rightarrow> try_block_record blocks (prev_hash b)) cur) (\<lambda>cur.
       Inr (case cur of Some b \<Rightarrow> if is_transaction_block b then height b else 0 | None \<Rightarrow> 0)))"

definition block_to_block_record :: "crypto \<Rightarrow> ConsensusConstants \<Rightarrow> BlockchainInterface \<Rightarrow> int \<Rightarrow> FullBlock \<Rightarrow> BlockRecord res" where
  "block_to_block_record E constants blocks req_iters block =
     rbind (try_block_record blocks (prev_header_hash block)) (\<lambda>prev_b.
     rassert (FullBlock_height block > 0 \<longrightarrow> prev_b \<noteq> None)
       (rbind (get_next_sub_slot_iters_and_difficulty constants (length (finished_sub_slots block) > 0) prev_b blocks) (\<lambda>(ssi, _).
        rbind (is_overflow_block constants (rcb_signage_point_index (reward_chain_block block))) (\<lambda>ovf.
        rbind (calculate_deficit constants (FullBlock_height block) prev_b ovf (int (length (finished_sub_slots block)))) (\<lambda>dfc.
        rbind (included_summary E constants blocks block prev_b) (\<lambda>ses.
        rbind (prev_tx_height blocks (prev_header_hash block)) (\<lambda>h.
          header_block_to_sub_block_record E constants req_iters block ssi ovf dfc h ses)))))))"

section \<open>What the record says\<close>

lemma header_block_to_sub_block_record_fields:
  assumes "header_block_to_sub_block_record E constants req_iters block ssi ovf dfc h ses = Inr r"
  shows "FullBlock_header_hash E block = Inr (header_hash r) \<and> prev_hash r = prev_header_hash block \<and> height r = FullBlock_height block \<and>
    weight r = FullBlock_weight block \<and> total_iters r = FullBlock_total_iters block \<and> deficit r = dfc \<and> overflow r = ovf \<and> sub_slot_iters r = ssi \<and>
    required_iters r = req_iters \<and> prev_transaction_block_height r = h \<and> is_transaction_block r = FullBlock_is_transaction_block block \<and>
    first_in_sub_slot r = (finished_sub_slots block \<noteq> [] \<or> FullBlock_height block = 0) \<and> sub_epoch_summary_included r = ses"
proof -
  obtain cc icc rc hh a b where f: "finished_hashes E constants block = Inr (cc, icc, rc)" and hh: "FullBlock_header_hash E block = Inr hh"
    and r: "get_hash E RewardChainBlock_fields (RewardChainBlock_items (reward_chain_block block)) = Inr a"
      "get_hash E ChallengeBlockInfo_fields (ChallengeBlockInfo_items (reward_chain_block block)) = Inr b"
    using assms unfolding header_block_to_sub_block_record_def by (elim rbind_InrE) (auto elim!: rbind_InrE)
  have "cc \<noteq> None \<longleftrightarrow> finished_sub_slots block \<noteq> [] \<or> FullBlock_height block = 0"
    using f by (auto simp: finished_hashes_def elim!: rbind_InrE split: if_splits)
  then show ?thesis
    using assms by (auto simp: header_block_to_sub_block_record_def f hh r is_transaction_block_def first_in_sub_slot_def FullBlock_is_transaction_block_def)
qed

text \<open>An implementation of the interface whose two lookups agree and whose genesis blocks are transaction blocks.\<close>

definition chain_view_ok :: "BlockchainInterface \<Rightarrow> bool" where
  "chain_view_ok B \<longleftrightarrow> block_tree B \<and> (\<forall>hh. contains_block B hh \<longleftrightarrow> (\<exists>b. block_record B hh = Inr b)) \<and>
     (\<forall>hh b. block_record B hh = Inr b \<and> height b = 0 \<longrightarrow> is_transaction_block b)"

lemma try_block_record_eq:
  "chain_view_ok B \<Longrightarrow> try_block_record B hh = Inr (case block_record B hh of Inr b \<Rightarrow> Some b | Inl _ \<Rightarrow> None)"
  by (auto simp: try_block_record_def chain_view_ok_def split: sum.splits)

lemma prev_tx_height_ok:
  assumes "chain_view_ok B" "block_record B hh = Inr p"
  shows "\<exists>a. prev_tx_height B hh = Inr (height a) \<and> ancestor B p a \<and> is_transaction_block a \<and>
    (\<forall>c. ancestor B p c \<and> height c > height a \<longrightarrow> \<not> is_transaction_block c)"
proof -
  have tree: "block_tree B" using assms(1) by (simp add: chain_view_ok_def)
  let ?b = "\<lambda>cur. case cur of None \<Rightarrow> False | Some b \<Rightarrow> \<not> is_transaction_block b"
  let ?c = "\<lambda>cur. case cur of None \<Rightarrow> Inl TypeError | Some b \<Rightarrow> try_block_record B (prev_hash b)"
  let ?P = "\<lambda>cur. \<exists>b. cur = Some b \<and> in_tree B b \<and> ancestor B p b \<and> (\<forall>c. ancestor B p c \<and> height c > height b \<longrightarrow> \<not> is_transaction_block c)"
  let ?m = "\<lambda>cur. case cur of None \<Rightarrow> 0 | Some b \<Rightarrow> nat (height b)"
  have p: "in_tree B p" using assms(2) tree unfolding in_tree_def block_tree_def by (metis)
  have start: "?P (Some p)" using p ancestor_height [OF _ tree p] by (metis ancestor.refl linorder_not_le)
  have step: "\<exists>t. ?c s = Inr t \<and> ?P t \<and> ?m t < ?m s" if s: "?P s" "?b s" for s
  proof -
    obtain b where b0: "s = Some b" "in_tree B b" "ancestor B p b"
      "\<forall>c. ancestor B p c \<and> height c > height b \<longrightarrow> \<not> is_transaction_block c" using s(1) by blast
    have "\<not> is_transaction_block b" using s(2) by (simp add: b0(1))
    note b = b0(1-3) this b0(4)
    have "height b \<noteq> 0" using assms(1) b(2,4) unfolding chain_view_ok_def in_tree_def by blast
    then have pos: "0 < height b" using in_tree_height [OF tree b(2)] by simp
    obtain q where q: "block_record B (prev_hash b) = Inr q" "height q = height b - 1" "in_tree B q" using in_tree_parent [OF tree b(2) pos] .
    have "ancestor B p q" using ancestor_trans [OF b(3) ancestor.step [OF pos q(1) ancestor.refl]] .
    moreover have "\<not> is_transaction_block c" if c: "ancestor B p c" "height c > height q" for c
    proof (cases "height c = height b")
      case True
      then show ?thesis using ancestor_unique [OF c(1) b(3) _ tree p] b(4) by simp
    next
      case False
      then have "height c > height b" using c(2) q(2) by linarith
      then show ?thesis using b(5) c(1) by blast
    qed
    ultimately have "?P (Some q)" using q(3) by blast
    moreover have "?c s = Inr (Some q)" using try_block_record_eq [OF assms(1), of "prev_hash b"] b(1) q(1) by simp
    moreover have "?m (Some q) < ?m s" using b(1) q(2) pos by simp
    ultimately show ?thesis by blast
  qed
  from py_while_total [where P = ?P and m = ?m and b = ?b and c = ?c, OF start step]
  obtain t where t: "py_while ?b ?c (Some p) = Inr t" "?P t" "\<not> ?b t" by blast
  from t(2) obtain a where a0: "t = Some a" "ancestor B p a"
    "\<forall>c. ancestor B p c \<and> height c > height a \<longrightarrow> \<not> is_transaction_block c" by blast
  have "is_transaction_block a" using t(3) by (simp add: a0(1))
  note a = a0(1,2) this a0(3)
  have "prev_tx_height B hh = Inr (height a)"
    using t(1) a(1,3) try_block_record_eq [OF assms(1), of hh] assms(2) by (simp add: prev_tx_height_def)
  then show ?thesis using a by blast
qed

lemma block_to_block_record_ok:
  assumes "chain_view_ok B" "block_to_block_record E constants B req_iters block = Inr r"
  shows "FullBlock_header_hash E block = Inr (header_hash r) \<and> prev_hash r = prev_header_hash block \<and> height r = FullBlock_height block \<and>
    weight r = FullBlock_weight block \<and> is_transaction_block r = FullBlock_is_transaction_block block \<and>
    (0 < height r \<longrightarrow> (\<exists>p a. block_record B (prev_hash r) = Inr p \<and> ancestor B p a \<and> is_transaction_block a \<and>
       prev_transaction_block_height r = height a \<and> (\<forall>c. ancestor B p c \<and> height c > height a \<longrightarrow> \<not> is_transaction_block c)))"
proof -
  obtain ssi ovf dfc ses h where h: "prev_tx_height B (prev_header_hash block) = Inr h"
    and r: "header_block_to_sub_block_record E constants req_iters block ssi ovf dfc h ses = Inr r"
    and pb: "FullBlock_height block > 0 \<longrightarrow> (\<exists>p. block_record B (prev_header_hash block) = Inr p)"
    using assms(2) try_block_record_eq [OF assms(1), of "prev_header_hash block"]
    unfolding block_to_block_record_def by (auto simp: rassert_eq_Inr elim!: rbind_InrE split: sum.splits)
  note f = header_block_to_sub_block_record_fields [OF r]
  have "\<exists>p a. block_record B (prev_hash r) = Inr p \<and> ancestor B p a \<and> is_transaction_block a \<and>
       prev_transaction_block_height r = height a \<and> (\<forall>c. ancestor B p c \<and> height c > height a \<longrightarrow> \<not> is_transaction_block c)" if pos: "0 < height r"
  proof -
    have "FullBlock_height block > 0" using f pos by simp
    then obtain p where p: "block_record B (prev_header_hash block) = Inr p" using pb by blast
    from prev_tx_height_ok [OF assms(1) p] obtain a where "h = height a" "ancestor B p a" "is_transaction_block a"
      "\<forall>c. ancestor B p c \<and> height c > height a \<longrightarrow> \<not> is_transaction_block c" using h by auto
    then show ?thesis using p f by metis
  qed
  then show ?thesis using f by blast
qed

end
