(* ===== verification/Spec2Isabelle.thy ===== *)
theory Spec2Isabelle
  imports Difficulty BlockBody LockQueue BlockStore RecordOfBlock
begin

text \<open>
  HDDcoin is a fork of the Chia full node: a blockchain on proofs of space and time, written in Python. This library models the
  deterministic core of the node, under \<^verbatim>\<open>src/hddcoin\<close>: what decides which transactions and blocks are accepted, and what is
  remembered of them. Paths below are relative to that directory.

  \<^bold>\<open>The program and its parts.\<close> Objects travel and are hashed in the \<^verbatim>\<open>streamable\<close> format. A block carries a proof of space, whose quality
  and the constants give the iterations at which it is infused; difficulty and sub-slot iterations are adjusted from earlier
  blocks, which consensus code sees through \<^verbatim>\<open>BlockchainInterface\<close>. The transactions of a block are a CLVM program, whose run gives the spends and
  their conditions. \<^verbatim>\<open>validate_block_body\<close> checks them against the coin store and the Merkle roots of the header; the mempool manager makes the same
  checks for transactions that wait to be included, and builds the bundle for the next block. The lock queue serializes the writers of the chain.

  \<^bold>\<open>Conventions.\<close> A Python call is a function to \<open>'a res\<close>: \<open>Inl e\<close> when it raises \<open>e\<close>, \<open>Inr v\<close> when it returns \<open>v\<close>. An object with state is a record that a
  method takes and returns. Python integers are \<open>int\<close>, with the range checks of the sized types (\<^verbatim>\<open>uint32\<close>, \<^verbatim>\<open>uint64\<close>, ...) written
  where the code has them; bytes are lists of \<open>8 word\<close>; floats are rationals rounded to doubles after each operation; dictionaries
  are association lists in insertion order; a table of the database is the list of its rows. A long function is a chain of definitions, one per phase
  between its comments. \<^verbatim>\<open>async\<close> methods that run under one lock are plain functions; only the lock itself is modelled with interleavings.

  \<^bold>\<open>Loops and fuel.\<close> A \<^verbatim>\<open>while\<close> loop is \<open>py_while\<close>, total by the outcome \<open>Inl Diverges\<close>: that a loop ends is a lemma, not an assumption
  (by \<open>py_while_total\<close> and \<open>py_while_not_diverges\<close> for the fork point, the searches of the difficulty adjustment and the previous transaction
  block, by induction for eviction). It is not shown for the walk to the last summary in \<^verbatim>\<open>make_sub_epoch_summary\<close> and for that of \<^verbatim>\<open>get_peak_height_dicts\<close>.
  The only fuel is that of \<open>deserialize\<close> of a Merkle proof. Every call consumes a byte, so the length of the proof is enough, which \<^verbatim>\<open>MerkleSet\<close> proves.

  \<^bold>\<open>Theories, from the bottom.\<close>
  \<^item> \<^verbatim>\<open>Prelude\<close>: outcomes, loops, dictionaries, big-endian integers. \<^verbatim>\<open>SigBits\<close> (\<^verbatim>\<open>util/significant_bits.py\<close>) and \<^verbatim>\<open>PyFloat\<close>: truncation to significant bits
    and double arithmetic.
  \<^item> \<^verbatim>\<open>Ints\<close>, \<^verbatim>\<open>Utf8\<close>, \<^verbatim>\<open>Streamable\<close> (\<^verbatim>\<open>util/ints.py\<close>, \<^verbatim>\<open>util/struct_stream.py\<close>, \<^verbatim>\<open>util/byte_types.py\<close>, \<^verbatim>\<open>util/streamable.py\<close>): parsers and writers by type
    annotation. The locale \<open>item_codec\<close> is the contract of a parser and its writer, interpreted for each primitive type and
    lifted by induction to all annotations: round trip, canonicity, and hashes that commit to the object. Canonicity holds
    for custom items that keep their bytes (\<^verbatim>\<open>SerializedProgram\<close>); \<^verbatim>\<open>Program\<close>, which decodes them, is not claimed to be canonical.
  \<^item> \<^verbatim>\<open>Constants\<close> (\<^verbatim>\<open>consensus/pot_iterations.py\<close>, \<^verbatim>\<open>pos_quality.py\<close>, \<^verbatim>\<open>default_constants.py\<close>): signage and infusion points, iterations of a quality.
  \<^item> \<^verbatim>\<open>Coins\<close> (\<^verbatim>\<open>types/blockchain_format/coin.py\<close>, \<^verbatim>\<open>consensus/block_rewards.py\<close>, \<^verbatim>\<open>coinbase.py\<close>): names, reward schedule, reward coins. \<^verbatim>\<open>Blocks\<close>: the block formats
    of \<^verbatim>\<open>types\<close> as records with the annotations of their hashes.
  \<^item> \<^verbatim>\<open>BlockRecords\<close> (\<^verbatim>\<open>consensus/block_record.py\<close>, \<^verbatim>\<open>blockchain_interface.py\<close>, \<^verbatim>\<open>find_fork_point.py\<close>, \<^verbatim>\<open>deficit.py\<close>, \<^verbatim>\<open>get_block_challenge.py\<close>, \<^verbatim>\<open>util/block_cache.py\<close>): the chain as
    a tree of records, its fork points, the deficit. \<^verbatim>\<open>Difficulty\<close> (\<^verbatim>\<open>difficulty_adjustment.py\<close>, \<^verbatim>\<open>make_sub_epoch_summary.py\<close>): valid parameters stay valid, epochs
    end where they may, no search diverges. \<^verbatim>\<open>RecordOfBlock\<close> (\<^verbatim>\<open>full_block_to_block_record.py\<close>): the record of a block says what the block says.
  \<^item> \<^verbatim>\<open>LruCache\<close>, \<^verbatim>\<open>CoinStore\<close>, \<^verbatim>\<open>BlockStore\<close> (\<^verbatim>\<open>util/lru_cache.py\<close>, \<^verbatim>\<open>full_node/coin_store.py\<close>, \<^verbatim>\<open>full_node/block_store.py\<close>): the stores refine maps from names to records
    and from header hashes to blocks; they rely on the locale \<open>cache_spec\<close> only. A rollback undoes exactly the blocks above its height.
  \<^item> \<^verbatim>\<open>Errors\<close>, \<^verbatim>\<open>Conditions\<close>, \<^verbatim>\<open>Generator\<close> (\<^verbatim>\<open>util/errors.py\<close>, \<^verbatim>\<open>util/condition_tools.py\<close>, \<^verbatim>\<open>consensus/cost_calculator.py\<close>, \<^verbatim>\<open>full_node/mempool_check_conditions.py\<close>,
    \<^verbatim>\<open>full_node/generator.py\<close>, \<^verbatim>\<open>bundle_tools.py\<close>): what a spend requires, costs and creates, and the result of a generator run in every case.
  \<^item> \<^verbatim>\<open>BlsCache\<close> (\<^verbatim>\<open>util/cached_bls.py\<close>): the cache of pairings never changes a verdict.
  \<^item> \<^verbatim>\<open>Mempool\<close>, \<^verbatim>\<open>MempoolManager\<close> (\<^verbatim>\<open>full_node/mempool.py\<close>, \<^verbatim>\<open>pending_tx_cache.py\<close>, \<^verbatim>\<open>mempool_manager.py\<close>): consistent indexes, eviction by fee rate, admission,
    replacement, block bundles, new peaks. The worker process receives a bundle as bytes, which are parsed there as in the source.
  \<^item> \<^verbatim>\<open>MerkleSet\<close>, \<^verbatim>\<open>BlockBody\<close> (\<^verbatim>\<open>util/merkle_set.py\<close>, \<^verbatim>\<open>consensus/block_root_validation.py\<close>, \<^verbatim>\<open>block_body_validation.py\<close>): the set refines a finite set of hashes,
    its proofs are sound and complete, roots commit to values (locale \<open>hashed_set\<close>, used for the roots of a block), and an accepted block
    is valid against the coins at its parent.
  \<^item> \<^verbatim>\<open>LockQueue\<close> (\<^verbatim>\<open>full_node/lock_queue.py\<close>): a step relation of coroutines; mutual exclusion, and liveness in fair runs without cancellation.

  \<^bold>\<open>Parameters.\<close> Code outside the repository is an argument: the hash function, integer casts and BLS serialization (\<open>crypto\<close>, with \<open>crypto_ok\<close>), pairings
  (\<open>bls\<close>), the CLVM (\<open>clvm\<close>, \<open>generator_vm\<close>), \<^verbatim>\<open>SortedDict\<close> (\<open>sorted_dict_ok\<close>), Bloom filters and the iteration order of sets. No collision
  resistance is assumed: a theorem that needs it names the finite set of strings that must not collide, or offers the collision as an alternative. Witnesses
  instantiate every parameter by a concrete function.

  \<^bold>\<open>Not modelled.\<close> Header validation, which verifies VDFs and proofs of space in external libraries; the orchestration in
  \<^verbatim>\<open>consensus/blockchain.py\<close> and block creation; weight proofs and synchronization; network, wallet, farmer, timelord, RPC and command line code; JSON
  conversion, logging, the process pool and the depth of Python's stack.
\<close>

end
